(* ===== verification/Prelude.thy ===== *)
theory Prelude
  imports Main "HOL-Library.Word" "HOL-Library.Multiset"
begin

text \<open>
  What every component of the development shares: the machine types of the code, the
  exceptions it throws as values, labelled transition systems with their reachable
  states, and generic facts on functions, words and lists.
\<close>

unbundle bit_operations_syntax

section \<open>Machine types and exceptions\<close>

type_synonym size_t = "64 word"
type_synonym dword = "32 word"
type_synonym tid = nat

text \<open>
  An exception in flight is either a \<open>ThreadException\<close> of the library (its message and
  its error code) or a value thrown by client code, which the library only passes on.
\<close>

datatype 'x exn = Thread_Exn string dword | User_Exn 'x

type_synonym ('x, 'a) result = "'x exn + 'a"

section \<open>Transition systems\<close>

text \<open>
  A concurrent component is a partial step function: a label names the thread that
  moves and every choice its environment makes, \<open>None\<close> says that the step is not
  possible now. The schedules are the lists of labels.
\<close>

inductive reach :: "('l \<Rightarrow> 's \<Rightarrow> 's option) \<Rightarrow> 's \<Rightarrow> 's \<Rightarrow> bool"
  for stp :: "'l \<Rightarrow> 's \<Rightarrow> 's option" and s0 :: 's where
  reach_init: "reach stp s0 s0"
| reach_step: "reach stp s0 s \<Longrightarrow> stp l s = Some s' \<Longrightarrow> reach stp s0 s'"

inductive_cases reach_elim: "reach stp s0 s"

fun run :: "('l \<Rightarrow> 's \<Rightarrow> 's option) \<Rightarrow> 'l list \<Rightarrow> 's \<Rightarrow> 's option" where
  "run stp [] s = Some s"
| "run stp (l # ls) s = (case stp l s of None \<Rightarrow> None | Some s' \<Rightarrow> run stp ls s')"

lemma run_append:
  "run stp (ls @ ls') s = (case run stp ls s of None \<Rightarrow> None | Some s' \<Rightarrow> run stp ls' s')"
  by (induction ls arbitrary: s) (auto split: option.splits)

lemma run_reach_from: "run stp ls s = Some s' \<Longrightarrow> reach stp s0 s \<Longrightarrow> reach stp s0 s'"
  by (induction ls arbitrary: s) (auto split: option.splits intro: reach_step)

lemma run_reach: "run stp ls s = Some s' \<Longrightarrow> reach stp s s'"
  by (rule run_reach_from [OF _ reach_init])

lemma reach_trans: "reach stp s1 s2 \<Longrightarrow> reach stp s0 s1 \<Longrightarrow> reach stp s0 s2"
  by (induction rule: reach.induct) (auto intro: reach_step)

lemma reach_run: "reach stp s s' \<Longrightarrow> \<exists>ls. run stp ls s = Some s'"
proof (induction rule: reach.induct)
  case reach_init
  have "run stp [] s = Some s" by simp
  then show ?case by blast
next
  case (reach_step s' l s'')
  then obtain ls where "run stp ls s = Some s'" by blast
  with reach_step.hyps have "run stp (ls @ [l]) s = Some s''" by (simp add: run_append)
  then show ?case by blast
qed

text \<open>The contract of an inductive invariant, and what it gives.\<close>

locale inductive_invariant =
  fixes stp :: "'l \<Rightarrow> 's \<Rightarrow> 's option" and s0 :: 's and inv :: "'s \<Rightarrow> bool"
  assumes inv_init: "inv s0"
    and inv_step: "inv s \<Longrightarrow> stp l s = Some s' \<Longrightarrow> inv s'"
begin

lemma inv_reach: "reach stp s0 s \<Longrightarrow> inv s"
  by (induction rule: reach.induct) (auto intro: inv_init inv_step)

lemma inv_reach_from: "reach stp s s' \<Longrightarrow> inv s \<Longrightarrow> inv s'"
  by (induction rule: reach.induct) (auto intro: inv_step)

lemma inv_run: "run stp ls s0 = Some s \<Longrightarrow> inv s"
  by (blast intro: inv_reach run_reach)

end

section \<open>Counting threads\<close>

lemma card_Collect_upd_insert:
  assumes "finite {t. P (f t)}" and "P y" and "\<not> P (f a)"
  shows "card {t. P ((f(a := y)) t)} = Suc (card {t. P (f t)})"
proof -
  have "{t. P ((f(a := y)) t)} = insert a {t. P (f t)}" using assms(2) by auto
  with assms show ?thesis by simp
qed

lemma card_Collect_upd_remove:
  assumes "finite {t. P (f t)}" and "\<not> P y" and "P (f a)"
  shows "Suc (card {t. P ((f(a := y)) t)}) = card {t. P (f t)}"
proof -
  have "{t. P ((f(a := y)) t)} = {t. P (f t)} - {a}" using assms(2) by auto
  moreover have "0 < card {t. P (f t)}" using assms by (auto simp: card_gt_0_iff)
  ultimately show ?thesis using assms by simp
qed

lemma Collect_upd_same:
  assumes "P y \<longleftrightarrow> P (f a)"
  shows "{t. P ((f(a := y)) t)} = {t. P (f t)}"
  using assms by auto

lemma finite_Collect_upd [intro]:
  "finite {t. P (f t)} \<Longrightarrow> finite {t. P ((f(a := y)) t)}"
  by (rule finite_subset [of _ "insert a {t. P (f t)}"]) auto

section \<open>Claims\<close>

text \<open>
  What \<open>f\<close> says each thread claims, from its program point: a position, a task, an index. No
  two threads may claim the same.
\<close>

definition claims :: "('b \<Rightarrow> 'p option) \<Rightarrow> (tid \<Rightarrow> 'b) \<Rightarrow> 'p set" where
  "claims f pcs = {p. \<exists>t. f (pcs t) = Some p}"

definition claims_unique :: "('b \<Rightarrow> 'p option) \<Rightarrow> (tid \<Rightarrow> 'b) \<Rightarrow> bool" where
  "claims_unique f pcs \<longleftrightarrow> (\<forall>t u p. f (pcs t) = Some p \<and> f (pcs u) = Some p \<longrightarrow> t = u)"

lemma claimsI: "f (pcs t) = Some p \<Longrightarrow> p \<in> claims f pcs"
  by (auto simp: claims_def)

lemma claims_same:
  "f pc = f (pcs t) \<Longrightarrow> claims f (pcs(t := pc)) = claims f pcs"
  "f pc = f (pcs t) \<Longrightarrow> claims_unique f (pcs(t := pc)) = claims_unique f pcs"
  by (auto simp: claims_def claims_unique_def split: if_splits)

lemma claims_add:
  assumes "f (pcs t) = None" and "f pc = Some p"
  shows "claims f (pcs(t := pc)) = insert p (claims f pcs)"
proof -
  have "f ((pcs(t := pc)) u) = (if u = t then Some p else f (pcs u))" for u
    using assms(2) by simp
  with assms(1) show ?thesis
    by (simp add: claims_def set_eq_iff) (metis option.distinct(1))
qed

lemma claims_unique_add:
  "claims_unique f pcs \<Longrightarrow> f pc = Some p \<Longrightarrow> p \<notin> claims f pcs \<Longrightarrow> claims_unique f (pcs(t := pc))"
  by (auto simp: claims_def claims_unique_def)

lemma claims_remove:
  assumes "claims_unique f pcs" and "f (pcs t) = Some p" and "f pc = None"
  shows "claims f (pcs(t := pc)) = claims f pcs - {p}" and "claims_unique f (pcs(t := pc))"
proof -
  have upd: "f ((pcs(t := pc)) u) = (if u = t then None else f (pcs u))" for u
    using assms(3) by simp
  show "claims f (pcs(t := pc)) = claims f pcs - {p}"
    using assms(1,2) unfolding claims_def claims_unique_def upd set_eq_iff
    by (auto) (metis option.inject)+
  show "claims_unique f (pcs(t := pc))"
    using assms(1) unfolding claims_unique_def upd by auto
qed

lemma claims_none: "(\<And>t. f (pcs t) = None) \<Longrightarrow> claims f pcs = {} \<and> claims_unique f pcs"
  by (simp add: claims_def claims_unique_def)

section \<open>Words\<close>

lemma unat_add_no_wrap:
  "unat (a :: 64 word) + unat b < 2 ^ 64 \<Longrightarrow> unat (a + b) = unat a + unat b"
  by (simp add: unat_word_ariths)

lemma unat_inc: "unat (a :: 64 word) < 2 ^ 64 - 1 \<Longrightarrow> unat (a + 1) = Suc (unat a)"
  by (simp add: unat_word_ariths)

lemma nat_and_div2: "((a :: nat) AND b) div 2 = (a div 2) AND (b div 2)"
  using drop_bit_and [of "Suc 0" a b] by (simp add: drop_bit_eq_div)

lemma nat_and_pred_power2: "(n :: nat) AND (n - 1) = 0 \<Longrightarrow> 0 < n \<Longrightarrow> \<exists>k. n = 2 ^ k"
proof (induction n rule: less_induct)
  case (less n)
  have half: "(n div 2) AND ((n - 1) div 2) = 0"
    using less.prems by (metis nat_and_div2 div_0)
  show ?case
  proof (cases "even n")
    case True
    then obtain m where m: "n = 2 * m" by blast
    with less.prems have "0 < m" by simp
    then have "(n - 1) div 2 = m - 1" using m by arith
    with half m have "m AND (m - 1) = 0" by simp
    then obtain k where "m = 2 ^ k" using less.IH [of m] m \<open>0 < m\<close> by auto
    with m have "n = 2 ^ Suc k" by simp
    then show ?thesis by blast
  next
    case False
    then obtain m where m: "n = 2 * m + 1" by (rule oddE)
    with half have "m = 0" by simp
    with m have "n = 2 ^ 0" by simp
    then show ?thesis by blast
  qed
qed

text \<open>
  The capacity test of the queues, \<open>(C & (C-1)) == 0\<close> and \<open>C > 0\<close>, makes the mask
  \<open>x & (C-1)\<close> the remainder modulo \<open>C\<close>.
\<close>

definition pow2_capacity :: "size_t \<Rightarrow> bool" where
  "pow2_capacity C \<longleftrightarrow> C AND (C - 1) = 0 \<and> 0 < C"

lemma pow2_capacity_unat:
  assumes "pow2_capacity C"
  obtains k where "k < 64" and "unat C = 2 ^ k" and "C - 1 = mask k"
proof -
  from assms have pos: "0 < unat C" and z: "C AND (C - 1) = 0"
    by (auto simp: pow2_capacity_def word_gt_0 unat_gt_0)
  have pred: "unat (C - 1) = unat C - 1"
    using pos by (simp add: unat_minus_one unat_gt_0)
  have "unat C AND (unat C - 1) = 0"
    using z by (metis pred unsigned_and_eq unsigned_0)
  with pos obtain k where k: "unat C = 2 ^ k" using nat_and_pred_power2 by blast
  have "(2 :: nat) ^ k < 2 ^ 64"
    unfolding k [symmetric] using unsigned_less [where 'b = 64 and 'a = nat, of C] by simp
  then have "k < 64" by (rule power_less_imp_less_exp [rotated]) simp
  moreover have "C = word_of_nat (unat C)" by simp
  then have "C - 1 = mask k" by (simp only: k mask_eq_exp_minus_1) simp
  ultimately show ?thesis using k that by blast
qed

lemma unat_and_pred_capacity:
  assumes "pow2_capacity C"
  shows "unat (x AND (C - 1)) = unat x mod unat C"
proof -
  obtain k where k: "k < 64" "unat C = 2 ^ k" "C - 1 = mask k"
    using assms by (rule pow2_capacity_unat)
  then have "unat (x AND (C - 1)) = unat (take_bit k x)" by (simp add: take_bit_eq_mask)
  also have "\<dots> = take_bit k (unat x)" by (rule unsigned_take_bit_eq)
  finally show ?thesis using k by (simp add: take_bit_eq_mod)
qed

lemma capacity_dvd_2p64: "pow2_capacity C \<Longrightarrow> unat C dvd 2 ^ 64"
  by (erule pow2_capacity_unat) (metis le_imp_power_dvd less_imp_le)

lemma capacity_pos: "pow2_capacity C \<Longrightarrow> 0 < unat C"
  by (simp add: pow2_capacity_def word_gt_0 unat_gt_0)

lemma unat_succ_and_capacity:
  assumes "pow2_capacity C"
  shows "unat ((x + 1) AND (C - 1)) = Suc (unat x) mod unat C"
proof -
  have "unat ((x + 1) AND (C - 1)) = (Suc (unat x) mod 2 ^ 64) mod unat C"
    by (simp only: unat_and_pred_capacity [OF assms]) (simp add: unat_word_ariths)
  then show ?thesis using capacity_dvd_2p64 [OF assms] by (simp only: mod_mod_cancel)
qed

end
