(* ===== verification/Ring.thy ===== *)
theory Ring
  imports Prelude
begin

text \<open>
  Ring buffers read as lists, over natural-number indices, and the interface of a
  bounded queue that the two array queues of the library implement.
\<close>

section \<open>A window of a ring buffer\<close>

definition ring :: "'a list \<Rightarrow> nat \<Rightarrow> nat \<Rightarrow> 'a list" where
  "ring buf r n = map (\<lambda>i. buf ! ((r + i) mod length buf)) [0..<n]"

text \<open>The number of used slots between a read and a write index.\<close>

definition ring_used :: "nat \<Rightarrow> nat \<Rightarrow> nat \<Rightarrow> nat" where
  "ring_used L r w = (w + L - r) mod L"

lemma ring_0 [simp]: "ring buf r 0 = []"
  by (simp add: ring_def)

lemma length_ring [simp]: "length (ring buf r n) = n"
  by (simp add: ring_def)

lemma ring_snoc: "ring buf r (Suc n) = ring buf r n @ [buf ! ((r + n) mod length buf)]"
  by (simp add: ring_def)

lemma ring_Cons:
  assumes "r < length buf"
  shows "ring buf r (Suc n) = buf ! r # ring buf (Suc r mod length buf) n"
proof (induction n)
  case 0
  from assms show ?case by (simp add: ring_def)
next
  case (Suc n)
  have "(r + Suc n) mod length buf = (Suc r mod length buf + n) mod length buf"
    by (metis add_Suc_right add_Suc mod_add_left_eq)
  then show ?case by (simp only: ring_snoc [of _ _ "Suc n"] Suc) (simp add: ring_snoc)
qed

lemma mod_window_le:
  assumes "(r + i) mod L = (r + j) mod L" and "i \<le> j" and "j < (L :: nat)"
  shows "i = j"
proof -
  from assms have "L dvd (r + j) - (r + i)"
    by (metis add_le_cancel_left mod_eq_dvd_iff_nat)
  with assms show ?thesis by (auto dest: dvd_imp_le)
qed

lemma mod_window_inj:
  assumes "(r + i) mod L = (r + j) mod L" and "i < L" and "j < (L :: nat)"
  shows "i = j"
  using assms mod_window_le [of r i L j] mod_window_le [of r j L i] by (cases "i \<le> j") auto

lemma ring_update_outside:
  assumes "w = (r + n) mod length buf" and "n < length buf"
  shows "ring (buf[w := x]) r n = ring buf r n"
proof -
  have "w \<noteq> (r + i) mod length buf" if "i < n" for i
    using that assms mod_window_inj [of r i "length buf" n] by auto
  then show ?thesis by (simp add: ring_def)
qed

lemma ring_used_less: "0 < L \<Longrightarrow> ring_used L r w < L"
  by (simp add: ring_used_def)

lemma ring_used_0_iff: "r < L \<Longrightarrow> w < L \<Longrightarrow> ring_used L r w = 0 \<longleftrightarrow> r = w"
  by (cases "r \<le> w") (auto simp: ring_used_def mod_if)

lemma ring_used_end: "r < L \<Longrightarrow> w < L \<Longrightarrow> (r + ring_used L r w) mod L = w"
  by (cases "r \<le> w") (auto simp: ring_used_def mod_if)

lemma ring_used_push:
  assumes "r < L" and "w < L" and "Suc w mod L \<noteq> r"
  shows "ring_used L r (Suc w mod L) = Suc (ring_used L r w)"
  using assms by (cases "r \<le> w"; cases "Suc w = L") (auto simp: ring_used_def mod_if)

lemma ring_used_pop:
  assumes "r < L" and "w < L" and "r \<noteq> w"
  shows "Suc (ring_used L (Suc r mod L) w) = ring_used L r w"
  using assms by (cases "r \<le> w"; cases "Suc r = L") (auto simp: ring_used_def mod_if)

lemma ring_used_full_iff:
  assumes "r < L" and "w < L"
  shows "Suc w mod L = r \<longleftrightarrow> Suc (ring_used L r w) = L"
  using assms by (cases "r \<le> w"; cases "Suc w = L") (auto simp: ring_used_def mod_if)

section \<open>The interface of a bounded queue\<close>

text \<open>A client that pushes a list of items, and one that pops a number of times.\<close>

fun push_all :: "('a \<Rightarrow> 'q \<Rightarrow> bool \<times> 'q) \<Rightarrow> 'a list \<Rightarrow> 'q \<Rightarrow> bool list \<times> 'q" where
  "push_all push [] q = ([], q)"
| "push_all push (x # xs) q =
     (case push x q of (b, q') \<Rightarrow> case push_all push xs q' of (bs, q'') \<Rightarrow> (b # bs, q''))"

fun pop_all :: "('q \<Rightarrow> 'a option \<times> 'q) \<Rightarrow> nat \<Rightarrow> 'q \<Rightarrow> 'a option list \<times> 'q" where
  "pop_all pop 0 q = ([], q)"
| "pop_all pop (Suc n) q =
     (case pop q of (y, q') \<Rightarrow> case pop_all pop n q' of (ys, q'') \<Rightarrow> (y # ys, q''))"

text \<open>
  What a client of a bounded queue relies on: \<open>push\<close> stores an item at the end
  exactly when there is room, \<open>pop\<close> takes the first item exactly when there is one,
  and \<open>empty\<close> and \<open>size\<close> observe the contents. A queue whose counters are of finite
  width promises this while they are \<open>live\<close>, that is before they run out.
\<close>

locale bounded_queue =
  fixes push :: "'a \<Rightarrow> 'q \<Rightarrow> bool \<times> 'q"
    and pop :: "'q \<Rightarrow> 'a option \<times> 'q"
    and empty :: "'q \<Rightarrow> bool"
    and size :: "'q \<Rightarrow> nat"
    and contents :: "'q \<Rightarrow> 'a list"
    and wf :: "'q \<Rightarrow> bool"
    and live :: "nat \<Rightarrow> 'q \<Rightarrow> bool"
    and room :: nat
  assumes push_ok: "wf q \<Longrightarrow> live 1 q \<Longrightarrow> length (contents q) < room \<Longrightarrow>
      fst (push x q) \<and> wf (snd (push x q)) \<and> contents (snd (push x q)) = contents q @ [x]"
    and push_full: "wf q \<Longrightarrow> live 1 q \<Longrightarrow> length (contents q) = room \<Longrightarrow> push x q = (False, q)"
    and push_live: "wf q \<Longrightarrow> live (Suc n) q \<Longrightarrow> live n (snd (push x q))"
    and pop_ok: "wf q \<Longrightarrow> contents q = y # ys \<Longrightarrow>
      fst (pop q) = Some y \<and> wf (snd (pop q)) \<and> contents (snd (pop q)) = ys"
    and pop_empty: "wf q \<Longrightarrow> contents q = [] \<Longrightarrow> pop q = (None, q)"
    and empty_iff: "wf q \<Longrightarrow> empty q \<longleftrightarrow> contents q = []"
    and size_eq: "wf q \<Longrightarrow> size q = length (contents q)"
    and contents_room: "wf q \<Longrightarrow> length (contents q) \<le> room"
    and live_mono: "live n q \<Longrightarrow> m \<le> n \<Longrightarrow> live m q"
begin

lemma push_all_ok:
  assumes "wf q" and "live (length xs) q" and "length (contents q) + length xs \<le> room"
  shows "fst (push_all push xs q) = replicate (length xs) True \<and> wf (snd (push_all push xs q)) \<and>
    contents (snd (push_all push xs q)) = contents q @ xs"
  using assms
proof (induction xs arbitrary: q)
  case Nil
  then show ?case by simp
next
  case (Cons x xs)
  have "live 1 q" using Cons.prems(2) live_mono by simp
  with Cons.prems have p: "fst (push x q) \<and> wf (snd (push x q)) \<and>
      contents (snd (push x q)) = contents q @ [x]"
    by (intro push_ok) auto
  have "live (length xs) (snd (push x q))" using Cons.prems push_live by simp
  with p Cons.IH [of "snd (push x q)"] Cons.prems(3) show ?case
    by (auto split: prod.splits)
qed

lemma pop_all_ok:
  assumes "wf q" and "contents q = xs @ ys"
  shows "fst (pop_all pop (length xs) q) = map Some xs \<and> wf (snd (pop_all pop (length xs) q)) \<and>
    contents (snd (pop_all pop (length xs) q)) = ys"
  using assms
proof (induction xs arbitrary: q)
  case Nil
  then show ?case by simp
next
  case (Cons x xs)
  then have p: "fst (pop q) = Some x \<and> wf (snd (pop q)) \<and> contents (snd (pop q)) = xs @ ys"
    by (intro pop_ok) auto
  with Cons.IH [of "snd (pop q)"] show ?case by (auto split: prod.splits)
qed

text \<open>What goes in comes out, in the same order, and leaves the queue empty.\<close>

lemma fifo_roundtrip:
  assumes "wf q" and "contents q = []" and "live (length xs) q" and "length xs \<le> room"
  shows "fst (pop_all pop (length xs) (snd (push_all push xs q))) = map Some xs \<and>
    empty (snd (pop_all pop (length xs) (snd (push_all push xs q))))"
proof -
  have "wf (snd (push_all push xs q)) \<and> contents (snd (push_all push xs q)) = xs @ []"
    using push_all_ok [of q xs] assms by simp
  with pop_all_ok [of "snd (push_all push xs q)" xs "[]"] show ?thesis by (simp add: empty_iff)
qed

lemma pop_after_push:
  assumes "wf q" and "live 1 q" and "contents q = []" and "0 < room"
  shows "fst (pop (snd (push x q))) = Some x"
  using push_ok [OF assms(1,2)] assms(3,4) pop_ok [of "snd (push x q)" x "[]"] by simp

end

end
