(* ===== verification/SPSC_Queue.thy ===== *)
theory SPSC_Queue
  imports Ring
begin

text \<open>
  The single-producer single-consumer queue of \<open>src/src/ezthread/atomic.hpp\<close>
  (class \<open>SPSCQueue\<close>): the calls run alone, then the producer and the consumer
  interleaved at every access to shared memory.
\<close>

section \<open>State and operations\<close>

record 'a spsc =
  spsc_buffer :: "'a list"
  spsc_readPos :: size_t
  spsc_writePos :: size_t

text \<open>
  The constructor; \<open>buf\<close> is what the array holds before anything is written to it. The
  two static assertions of the constructor are \<open>pow2_capacity\<close>.
\<close>

definition spsc_new :: "'a list \<Rightarrow> 'a spsc" where
  "spsc_new buf = \<lparr>spsc_buffer = buf, spsc_readPos = 0, spsc_writePos = 0\<rparr>"

definition spsc_next :: "size_t \<Rightarrow> size_t \<Rightarrow> size_t" where
  "spsc_next C i = (i + 1) AND (C - 1)"

definition spsc_Push :: "size_t \<Rightarrow> 'a \<Rightarrow> 'a spsc \<Rightarrow> bool \<times> 'a spsc" where
  "spsc_Push C item q =
     (let currentWrite = spsc_writePos q;
          nextWrite = spsc_next C currentWrite
      in if nextWrite = spsc_readPos q then (False, q)
         else (True, q\<lparr>spsc_buffer := (spsc_buffer q)[unat currentWrite := item],
                       spsc_writePos := nextWrite\<rparr>))"

definition spsc_Pop :: "size_t \<Rightarrow> 'a spsc \<Rightarrow> 'a option \<times> 'a spsc" where
  "spsc_Pop C q =
     (let currentRead = spsc_readPos q
      in if currentRead = spsc_writePos q then (None, q)
         else (Some (spsc_buffer q ! unat currentRead),
               q\<lparr>spsc_readPos := spsc_next C currentRead\<rparr>))"

definition spsc_Empty :: "'a spsc \<Rightarrow> bool" where
  "spsc_Empty q \<longleftrightarrow> spsc_readPos q = spsc_writePos q"

definition spsc_Size :: "size_t \<Rightarrow> 'a spsc \<Rightarrow> size_t" where
  "spsc_Size C q =
     (if spsc_readPos q \<le> spsc_writePos q then spsc_writePos q - spsc_readPos q
      else C - spsc_readPos q + spsc_writePos q)"

section \<open>Well-formed queues and their contents\<close>

definition spsc_wf :: "size_t \<Rightarrow> 'a spsc \<Rightarrow> bool" where
  "spsc_wf C q \<longleftrightarrow> pow2_capacity C \<and> length (spsc_buffer q) = unat C \<and>
     unat (spsc_readPos q) < unat C \<and> unat (spsc_writePos q) < unat C"

definition spsc_contents :: "size_t \<Rightarrow> 'a spsc \<Rightarrow> 'a list" where
  "spsc_contents C q = ring (spsc_buffer q) (unat (spsc_readPos q))
     (ring_used (unat C) (unat (spsc_readPos q)) (unat (spsc_writePos q)))"

lemma unat_spsc_next: "pow2_capacity C \<Longrightarrow> unat (spsc_next C i) = Suc (unat i) mod unat C"
  by (simp only: spsc_next_def unat_succ_and_capacity)

lemma spsc_next_less: "pow2_capacity C \<Longrightarrow> unat (spsc_next C i) < unat C"
  by (simp add: unat_spsc_next capacity_pos)

lemma spsc_wf_new: "pow2_capacity C \<Longrightarrow> length buf = unat C \<Longrightarrow> spsc_wf C (spsc_new buf)"
  by (simp add: spsc_wf_def spsc_new_def capacity_pos)

lemma spsc_contents_new [simp]: "spsc_contents C (spsc_new buf) = []"
  by (simp add: spsc_contents_def spsc_new_def ring_used_def)

text \<open>The three writes that a call makes, each on its own.\<close>

lemma spsc_fill_contents:
  assumes "spsc_wf C q"
  shows "spsc_contents C (q\<lparr>spsc_buffer := (spsc_buffer q)[unat (spsc_writePos q) := x]\<rparr>)
    = spsc_contents C q"
  using assms
  by (simp add: spsc_contents_def spsc_wf_def ring_update_outside ring_used_end ring_used_less)

lemma spsc_publish_contents:
  assumes "spsc_wf C q" and "spsc_next C (spsc_writePos q) \<noteq> spsc_readPos q"
  shows "spsc_contents C (q\<lparr>spsc_writePos := spsc_next C (spsc_writePos q)\<rparr>)
    = spsc_contents C q @ [spsc_buffer q ! unat (spsc_writePos q)]"
proof -
  have "Suc (unat (spsc_writePos q)) mod unat C \<noteq> unat (spsc_readPos q)"
    using assms unat_spsc_next by (metis spsc_wf_def word_unat_eq_iff)
  with assms(1) show ?thesis
    by (simp add: spsc_contents_def spsc_wf_def unat_spsc_next ring_used_push ring_snoc
        ring_used_end)
qed

lemma spsc_consume_contents:
  assumes "spsc_wf C q" and "spsc_readPos q \<noteq> spsc_writePos q"
  shows "spsc_contents C q = spsc_buffer q ! unat (spsc_readPos q) #
    spsc_contents C (q\<lparr>spsc_readPos := spsc_next C (spsc_readPos q)\<rparr>)"
proof -
  have "unat (spsc_readPos q) \<noteq> unat (spsc_writePos q)"
    using assms(2) by (simp add: word_unat_eq_iff)
  with assms(1) show ?thesis
    by (simp add: spsc_contents_def spsc_wf_def unat_spsc_next ring_Cons
        ring_used_pop [symmetric])
qed

lemma spsc_empty_iff: "spsc_wf C q \<Longrightarrow> spsc_contents C q = [] \<longleftrightarrow> spsc_readPos q = spsc_writePos q"
  by (simp add: spsc_contents_def spsc_wf_def word_unat_eq_iff ring_used_0_iff
      flip: length_0_conv)

lemma spsc_full_iff:
  "spsc_wf C q \<Longrightarrow>
    spsc_next C (spsc_writePos q) = spsc_readPos q \<longleftrightarrow> Suc (length (spsc_contents C q)) = unat C"
  by (simp add: spsc_contents_def spsc_wf_def word_unat_eq_iff unat_spsc_next ring_used_full_iff)

lemma spsc_contents_less: "spsc_wf C q \<Longrightarrow> length (spsc_contents C q) < unat C"
  by (simp add: spsc_contents_def spsc_wf_def ring_used_less)

lemma unat_spsc_Size:
  assumes "spsc_wf C q"
  shows "unat (spsc_Size C q) = length (spsc_contents C q)"
proof (cases "spsc_readPos q \<le> spsc_writePos q")
  case True
  with assms show ?thesis
    by (auto simp: spsc_Size_def spsc_contents_def spsc_wf_def ring_used_def unat_sub
        word_le_nat_alt mod_if)
next
  case False
  have "unat C < 2 ^ 64" using unsigned_less [where 'b = 64 and 'a = nat, of C] by simp
  moreover have "spsc_readPos q \<le> C" using assms by (simp add: spsc_wf_def word_le_nat_alt)
  ultimately have "unat (C - spsc_readPos q + spsc_writePos q)
      = unat C - unat (spsc_readPos q) + unat (spsc_writePos q)"
    using False assms
    by (subst unat_add_no_wrap) (auto simp: unat_sub word_le_nat_alt spsc_wf_def)
  with False assms show ?thesis
    by (auto simp: spsc_Size_def spsc_contents_def spsc_wf_def ring_used_def
        word_le_nat_alt mod_if)
qed

section \<open>The calls run alone\<close>

lemma spsc_wf_fill:
  "spsc_wf C q \<Longrightarrow> spsc_wf C (q\<lparr>spsc_buffer := (spsc_buffer q)[i := x]\<rparr>)"
  by (simp add: spsc_wf_def)

lemma spsc_wf_publish:
  "spsc_wf C q \<Longrightarrow> spsc_wf C (q\<lparr>spsc_writePos := spsc_next C i\<rparr>)"
  by (simp add: spsc_wf_def spsc_next_less)

lemma spsc_wf_consume:
  "spsc_wf C q \<Longrightarrow> spsc_wf C (q\<lparr>spsc_readPos := spsc_next C i\<rparr>)"
  by (simp add: spsc_wf_def spsc_next_less)

lemma spsc_Push_full:
  "spsc_wf C q \<Longrightarrow> Suc (length (spsc_contents C q)) = unat C \<Longrightarrow> spsc_Push C x q = (False, q)"
  by (simp add: spsc_Push_def Let_def spsc_full_iff)

lemma spsc_Push_ok:
  assumes "spsc_wf C q" and "Suc (length (spsc_contents C q)) < unat C"
  shows "fst (spsc_Push C x q) \<and> spsc_wf C (snd (spsc_Push C x q)) \<and>
    spsc_contents C (snd (spsc_Push C x q)) = spsc_contents C q @ [x]"
proof -
  let ?q = "q\<lparr>spsc_buffer := (spsc_buffer q)[unat (spsc_writePos q) := x]\<rparr>"
  have room: "spsc_next C (spsc_writePos q) \<noteq> spsc_readPos q"
    using assms spsc_full_iff by (metis less_irrefl)
  have push: "spsc_Push C x q
      = (True, ?q\<lparr>spsc_writePos := spsc_next C (spsc_writePos ?q)\<rparr>)"
    using room by (simp add: spsc_Push_def Let_def)
  have wf: "spsc_wf C ?q" using assms(1) by (rule spsc_wf_fill)
  have "spsc_contents C (?q\<lparr>spsc_writePos := spsc_next C (spsc_writePos ?q)\<rparr>)
      = spsc_contents C q @ [x]"
    using spsc_publish_contents [OF wf] room assms(1) spsc_fill_contents [OF assms(1)]
    by (simp add: spsc_wf_def)
  with push spsc_wf_publish [OF wf] show ?thesis by simp
qed

lemma spsc_Pop_empty:
  "spsc_wf C q \<Longrightarrow> spsc_contents C q = [] \<Longrightarrow> spsc_Pop C q = (None, q)"
  by (simp add: spsc_Pop_def Let_def spsc_empty_iff)

lemma spsc_Pop_ok:
  assumes "spsc_wf C q" and "spsc_contents C q = y # ys"
  shows "fst (spsc_Pop C q) = Some y \<and> spsc_wf C (snd (spsc_Pop C q)) \<and>
    spsc_contents C (snd (spsc_Pop C q)) = ys"
proof -
  have "spsc_readPos q \<noteq> spsc_writePos q" using assms spsc_empty_iff by fastforce
  with spsc_consume_contents [OF assms(1)] assms show ?thesis
    by (simp add: spsc_Pop_def Let_def spsc_wf_consume)
qed

interpretation spsc_queue: bounded_queue "spsc_Push C" "spsc_Pop C" spsc_Empty
  "\<lambda>q. unat (spsc_Size C q)" "spsc_contents C" "spsc_wf C" "\<lambda>_ _. True" "unat C - 1"
  for C :: size_t
proof unfold_locales
  fix q :: "'a spsc" assume wf: "spsc_wf C q"
  then show "length (spsc_contents C q) \<le> unat C - 1"
    using spsc_contents_less [OF wf] by simp
  show "spsc_Empty q \<longleftrightarrow> spsc_contents C q = []"
    using wf by (simp add: spsc_Empty_def spsc_empty_iff)
  fix x :: 'a assume "length (spsc_contents C q) = unat C - 1"
  then show "spsc_Push C x q = (False, q)"
    using spsc_contents_less [OF wf] by (intro spsc_Push_full wf) simp
qed (auto simp: unat_spsc_Size spsc_Push_ok spsc_Pop_ok spsc_Pop_empty
    less_diff_conv dest: spsc_contents_less)

section \<open>One producer and one consumer, interleaved\<close>

text \<open>
  The program points of a call, one before each access to shared memory, with the local
  variables that are live there.
\<close>

datatype 'a enq_pc =
    Enq_Enter 'a
  | Enq_Check 'a size_t
  | Enq_Fill 'a size_t
  | Enq_Commit 'a size_t
  | Enq_Done bool

datatype 'a deq_pc =
    Deq_Enter
  | Deq_Check size_t
  | Deq_Read size_t
  | Deq_Commit size_t 'a
  | Deq_Done "'a option"

fun spsc_push_step :: "size_t \<Rightarrow> 'a enq_pc \<Rightarrow> 'a spsc \<Rightarrow> 'a enq_pc \<times> 'a spsc" where
  "spsc_push_step C (Enq_Enter item) q = (Enq_Check item (spsc_writePos q), q)"
| "spsc_push_step C (Enq_Check item currentWrite) q =
     (if spsc_next C currentWrite = spsc_readPos q then (Enq_Done False, q)
      else (Enq_Fill item currentWrite, q))"
| "spsc_push_step C (Enq_Fill item currentWrite) q =
     (Enq_Commit item currentWrite,
      q\<lparr>spsc_buffer := (spsc_buffer q)[unat currentWrite := item]\<rparr>)"
| "spsc_push_step C (Enq_Commit item currentWrite) q =
     (Enq_Done True, q\<lparr>spsc_writePos := spsc_next C currentWrite\<rparr>)"
| "spsc_push_step C (Enq_Done b) q = (Enq_Done b, q)"

fun spsc_pop_step :: "size_t \<Rightarrow> 'a deq_pc \<Rightarrow> 'a spsc \<Rightarrow> 'a deq_pc \<times> 'a spsc" where
  "spsc_pop_step C Deq_Enter q = (Deq_Check (spsc_readPos q), q)"
| "spsc_pop_step C (Deq_Check currentRead) q =
     (if currentRead = spsc_writePos q then (Deq_Done None, q) else (Deq_Read currentRead, q))"
| "spsc_pop_step C (Deq_Read currentRead) q =
     (Deq_Commit currentRead (spsc_buffer q ! unat currentRead), q)"
| "spsc_pop_step C (Deq_Commit currentRead item) q =
     (Deq_Done (Some item), q\<lparr>spsc_readPos := spsc_next C currentRead\<rparr>)"
| "spsc_pop_step C (Deq_Done r) q = (Deq_Done r, q)"

text \<open>A call that is not interrupted does what the sequential operation does.\<close>

lemma spsc_push_steps_alone:
  "((\<lambda>(pc, q). spsc_push_step C pc q) ^^ 4) (Enq_Enter x, q)
    = (Enq_Done (fst (spsc_Push C x q)), snd (spsc_Push C x q))"
  by (simp add: eval_nat_numeral spsc_Push_def Let_def)

lemma spsc_pop_steps_alone:
  "((\<lambda>(pc, q). spsc_pop_step C pc q) ^^ 4) (Deq_Enter, q)
    = (Deq_Done (fst (spsc_Pop C q)), snd (spsc_Pop C q))"
  by (simp add: eval_nat_numeral spsc_Pop_def Let_def)

text \<open>
  The system: the queue, the two threads and two history variables, the items whose
  push and whose pop have taken effect.
\<close>

record 'a spsc_sys =
  sp_queue :: "'a spsc"
  sp_prod :: "'a enq_pc"
  sp_cons :: "'a deq_pc"
  sp_sent :: "'a list"
  sp_received :: "'a list"

datatype 'a spsc_label = Call_Enq 'a | Step_Enq | Call_Deq | Step_Deq

fun spsc_step :: "size_t \<Rightarrow> 'a spsc_label \<Rightarrow> 'a spsc_sys \<Rightarrow> 'a spsc_sys option" where
  "spsc_step C (Call_Enq x) s =
     (case sp_prod s of Enq_Done _ \<Rightarrow> Some (s\<lparr>sp_prod := Enq_Enter x\<rparr>) | _ \<Rightarrow> None)"
| "spsc_step C Step_Enq s =
     (let (pc, q) = spsc_push_step C (sp_prod s) (sp_queue s);
          s' = s\<lparr>sp_queue := q, sp_prod := pc\<rparr>
      in case sp_prod s of
           Enq_Done _ \<Rightarrow> None
         | Enq_Commit x _ \<Rightarrow> Some (s'\<lparr>sp_sent := sp_sent s @ [x]\<rparr>)
         | _ \<Rightarrow> Some s')"
| "spsc_step C Call_Deq s =
     (case sp_cons s of Deq_Done _ \<Rightarrow> Some (s\<lparr>sp_cons := Deq_Enter\<rparr>) | _ \<Rightarrow> None)"
| "spsc_step C Step_Deq s =
     (let (pc, q) = spsc_pop_step C (sp_cons s) (sp_queue s);
          s' = s\<lparr>sp_queue := q, sp_cons := pc\<rparr>
      in case sp_cons s of
           Deq_Done _ \<Rightarrow> None
         | Deq_Commit _ x \<Rightarrow> Some (s'\<lparr>sp_received := sp_received s @ [x]\<rparr>)
         | _ \<Rightarrow> Some s')"

definition spsc_init :: "'a list \<Rightarrow> 'a spsc_sys" where
  "spsc_init buf = \<lparr>sp_queue = spsc_new buf, sp_prod = Enq_Done False, sp_cons = Deq_Done None,
     sp_sent = [], sp_received = []\<rparr>"

text \<open>
  The invariant: what a thread has read of its own index still holds, the slot it works
  on is the one the other thread cannot reach, and the histories differ by the contents.
\<close>

fun enq_pc_inv :: "size_t \<Rightarrow> 'a spsc \<Rightarrow> 'a enq_pc \<Rightarrow> bool" where
  "enq_pc_inv C q (Enq_Check x w) \<longleftrightarrow> w = spsc_writePos q"
| "enq_pc_inv C q (Enq_Fill x w) \<longleftrightarrow> w = spsc_writePos q \<and> spsc_next C w \<noteq> spsc_readPos q"
| "enq_pc_inv C q (Enq_Commit x w) \<longleftrightarrow> w = spsc_writePos q \<and>
     spsc_next C w \<noteq> spsc_readPos q \<and> spsc_buffer q ! unat w = x"
| "enq_pc_inv C q _ \<longleftrightarrow> True"

fun deq_pc_inv :: "size_t \<Rightarrow> 'a spsc \<Rightarrow> 'a deq_pc \<Rightarrow> bool" where
  "deq_pc_inv C q (Deq_Check r) \<longleftrightarrow> r = spsc_readPos q"
| "deq_pc_inv C q (Deq_Read r) \<longleftrightarrow> r = spsc_readPos q \<and> r \<noteq> spsc_writePos q"
| "deq_pc_inv C q (Deq_Commit r x) \<longleftrightarrow> r = spsc_readPos q \<and> r \<noteq> spsc_writePos q \<and>
     spsc_buffer q ! unat r = x"
| "deq_pc_inv C q _ \<longleftrightarrow> True"

definition spsc_inv :: "size_t \<Rightarrow> 'a spsc_sys \<Rightarrow> bool" where
  "spsc_inv C s \<longleftrightarrow> spsc_wf C (sp_queue s) \<and>
     enq_pc_inv C (sp_queue s) (sp_prod s) \<and> deq_pc_inv C (sp_queue s) (sp_cons s) \<and>
     sp_sent s = sp_received s @ spsc_contents C (sp_queue s)"

section \<open>The invariant is kept\<close>

lemma spsc_inv_init: "pow2_capacity C \<Longrightarrow> length buf = unat C \<Longrightarrow> spsc_inv C (spsc_init buf)"
  by (simp add: spsc_inv_def spsc_init_def spsc_wf_new)

text \<open>The producer fills a slot that the consumer is not reading.\<close>

lemma deq_pc_inv_fill:
  assumes "deq_pc_inv C q pc" and "spsc_wf C q"
  shows "deq_pc_inv C (q\<lparr>spsc_buffer := (spsc_buffer q)[unat (spsc_writePos q) := x]\<rparr>) pc"
  using assms by (cases pc) (auto simp: spsc_wf_def word_unat_eq_iff)

lemma deq_pc_inv_publish:
  assumes "deq_pc_inv C q pc" and "spsc_next C (spsc_writePos q) \<noteq> spsc_readPos q"
  shows "deq_pc_inv C (q\<lparr>spsc_writePos := spsc_next C (spsc_writePos q)\<rparr>) pc"
  using assms by (cases pc) auto

text \<open>Moving the read index on cannot make the queue look full.\<close>

lemma spsc_next_consume:
  assumes "spsc_wf C q" and "spsc_readPos q \<noteq> spsc_writePos q"
  shows "spsc_next C (spsc_writePos q) \<noteq> spsc_next C (spsc_readPos q)"
proof
  assume "spsc_next C (spsc_writePos q) = spsc_next C (spsc_readPos q)"
  with assms(1) have "Suc (unat (spsc_writePos q)) mod unat C
      = Suc (unat (spsc_readPos q)) mod unat C"
    using unat_spsc_next by (metis spsc_wf_def)
  then have "(1 + unat (spsc_writePos q)) mod unat C = (1 + unat (spsc_readPos q)) mod unat C"
    by simp
  then have "unat (spsc_writePos q) = unat (spsc_readPos q)"
    by (rule mod_window_inj) (use assms in \<open>auto simp: spsc_wf_def\<close>)
  with assms(2) show False by (simp add: word_unat_eq_iff)
qed

lemma enq_pc_inv_consume:
  assumes "enq_pc_inv C q pc" and "spsc_wf C q" and "spsc_readPos q \<noteq> spsc_writePos q"
  shows "enq_pc_inv C (q\<lparr>spsc_readPos := spsc_next C (spsc_readPos q)\<rparr>) pc"
  using assms spsc_next_consume [OF assms(2,3)] by (cases pc) auto

lemmas spsc_moves = spsc_wf_fill spsc_wf_publish spsc_wf_consume
  spsc_fill_contents spsc_publish_contents deq_pc_inv_fill deq_pc_inv_publish
  enq_pc_inv_consume

lemma spsc_inv_push_step:
  assumes "spsc_inv C s" and "spsc_step C Step_Enq s = Some s'"
  shows "spsc_inv C s'"
proof (cases "sp_prod s")
  case (Enq_Fill x w)
  with assms show ?thesis by (auto simp: spsc_inv_def spsc_moves)
      (auto simp: spsc_wf_def)
next
  case (Enq_Commit x w)
  with assms show ?thesis by (auto simp: spsc_inv_def spsc_moves)
qed (use assms in \<open>auto simp: spsc_inv_def split: if_splits\<close>)

lemma spsc_inv_pop_step:
  assumes "spsc_inv C s" and "spsc_step C Step_Deq s = Some s'"
  shows "spsc_inv C s'"
proof (cases "sp_cons s")
  case (Deq_Commit r x)
  with assms spsc_consume_contents [of C "sp_queue s"] show ?thesis
    by (auto simp: spsc_inv_def spsc_moves)
qed (use assms in \<open>auto simp: spsc_inv_def split: if_splits\<close>)

lemma spsc_inv_step:
  assumes "spsc_inv C s" and "spsc_step C l s = Some s'"
  shows "spsc_inv C s'"
proof (cases l)
  case (Call_Enq x)
  with assms show ?thesis by (auto simp: spsc_inv_def split: enq_pc.splits)
next
  case Call_Deq
  with assms show ?thesis by (auto simp: spsc_inv_def split: deq_pc.splits)
qed (use assms spsc_inv_push_step spsc_inv_pop_step in auto)

interpretation spsc_system: inductive_invariant "spsc_step C" "spsc_init buf"
  "\<lambda>s. pow2_capacity C \<and> length buf = unat C \<longrightarrow> spsc_inv C s"
  for C :: size_t and buf :: "'a list"
  by unfold_locales (auto intro: spsc_inv_init spsc_inv_step)

lemma spsc_reach_inv:
  assumes "pow2_capacity C" and "length buf = unat C" and "reach (spsc_step C) (spsc_init buf) s"
  shows "spsc_inv C s"
  using spsc_system.inv_reach [OF assms(3)] assms(1,2) by blast

section \<open>Properties\<close>

text \<open>
  C17. Under every interleaving of the producer and the consumer of an \<open>SPSCQueue\<close>, the
  items whose \<open>Push\<close> has taken effect are the items whose \<open>Pop\<close> has taken effect, in
  the same order, followed by what the queue holds: nothing is lost, duplicated or
  reordered, and the queue holds fewer than \<open>Capacity\<close> items.
\<close>

theorem spsc_fifo:
  assumes "pow2_capacity C" and "length buf = unat C" and "reach (spsc_step C) (spsc_init buf) s"
  shows "sp_sent s = sp_received s @ spsc_contents C (sp_queue s) \<and>
    length (spsc_contents C (sp_queue s)) < unat C"
  using spsc_reach_inv [OF assms] by (auto simp: spsc_inv_def intro: spsc_contents_less)

lemma spsc_example_run:
  "\<exists>s. run (spsc_step 2) [Call_Enq (7 :: nat), Call_Deq, Step_Enq, Step_Enq, Step_Deq, Step_Enq,
     Step_Enq, Step_Deq, Step_Deq, Call_Enq 8, Step_Enq, Step_Enq, Step_Deq] (spsc_init [0, 0])
     = Some s \<and> sp_sent s = [7] \<and> sp_received s = [7] \<and> sp_prod s = Enq_Done False"
  by (simp add: spsc_init_def spsc_new_def spsc_next_def)

theorem spsc_fifo_witness:
  "\<exists>s :: nat spsc_sys. sp_received s = [7] \<and> sp_sent s = sp_received s @ spsc_contents 2 (sp_queue s)"
proof -
  obtain s where s: "run (spsc_step 2) [Call_Enq (7 :: nat), Call_Deq, Step_Enq, Step_Enq,
      Step_Deq, Step_Enq, Step_Enq, Step_Deq, Step_Deq, Call_Enq 8, Step_Enq, Step_Enq, Step_Deq]
      (spsc_init [0, 0]) = Some s" "sp_received s = [7]"
    using spsc_example_run by blast
  from s(1) have "reach (spsc_step 2) (spsc_init [0, 0]) s" by (rule run_reach)
  then have "sp_sent s = sp_received s @ spsc_contents 2 (sp_queue s) \<and>
      length (spsc_contents 2 (sp_queue s)) < unat (2 :: size_t)"
    by (intro spsc_fifo) (simp_all add: pow2_capacity_def)
  with s(2) show ?thesis by blast
qed

text \<open>
  When the producer is about to write the array of an \<open>SPSCQueue\<close> and the consumer is
  about to read it, both indices lie inside the array and they differ: there is no data
  race on an element, under any interleaving.
\<close>

theorem spsc_no_race:
  assumes "pow2_capacity C" and "length buf = unat C" and "reach (spsc_step C) (spsc_init buf) s"
    and "sp_prod s = Enq_Fill x w" and "sp_cons s = Deq_Read r"
  shows "w \<noteq> r \<and> unat w < length (spsc_buffer (sp_queue s)) \<and>
    unat r < length (spsc_buffer (sp_queue s))"
  using spsc_reach_inv [OF assms(1-3)] assms(4,5) by (auto simp: spsc_inv_def spsc_wf_def)

theorem spsc_no_race_witness:
  "\<exists>(s :: nat spsc_sys) w r. sp_prod s = Enq_Fill 9 w \<and> sp_cons s = Deq_Read r \<and> w \<noteq> r \<and>
    unat w < length (spsc_buffer (sp_queue s))"
proof -
  let ?ls = "[Call_Enq 7, Step_Enq, Step_Enq, Step_Enq, Step_Enq, Call_Enq 9, Step_Enq, Step_Enq,
    Call_Deq, Step_Deq, Step_Deq]"
  have "\<exists>s w r. run (spsc_step 4) ?ls (spsc_init [0, 0, 0, 0]) = Some s \<and>
      sp_prod s = Enq_Fill (9 :: nat) w \<and> sp_cons s = Deq_Read r"
    by (simp add: spsc_init_def spsc_new_def spsc_next_def)
  then obtain s w r where s: "run (spsc_step 4) ?ls (spsc_init [0, 0, 0, 0]) = Some s"
    "sp_prod s = Enq_Fill (9 :: nat) w" "sp_cons s = Deq_Read r" by blast
  from s(1) have "reach (spsc_step 4) (spsc_init [0, 0, 0, 0]) s" by (rule run_reach)
  then have "w \<noteq> r \<and> unat w < length (spsc_buffer (sp_queue s)) \<and>
      unat r < length (spsc_buffer (sp_queue s))"
    using s(2,3) by (intro spsc_no_race) (simp_all add: pow2_capacity_def)
  with s(2,3) show ?thesis by blast
qed

text \<open>
  C40. Pushing at most \<open>Capacity - 1\<close> items into an empty \<open>SPSCQueue\<close> and popping as many
  times gives the same items in the same order and leaves the queue empty.
\<close>

theorem spsc_roundtrip:
  assumes "spsc_wf C q" and "spsc_contents C q = []" and "length xs \<le> unat C - 1"
  shows "fst (pop_all (spsc_Pop C) (length xs) (snd (push_all (spsc_Push C) xs q))) = map Some xs \<and>
    spsc_Empty (snd (pop_all (spsc_Pop C) (length xs) (snd (push_all (spsc_Push C) xs q))))"
  using assms by (intro spsc_queue.fifo_roundtrip) auto

theorem spsc_roundtrip_witness:
  "fst (pop_all (spsc_Pop 4) (length [5, 6, 7 :: nat])
     (snd (push_all (spsc_Push 4) [5, 6, 7 :: nat] (spsc_new [0, 0, 0, 0])))) = map Some [5, 6, 7]"
proof -
  have "spsc_wf 4 (spsc_new [0, 0, 0, 0 :: nat])"
    by (rule spsc_wf_new) (simp_all add: pow2_capacity_def)
  then show ?thesis by (rule spsc_roundtrip [THEN conjunct1]) simp_all
qed

end
