(* ===== verification/Atomic_Ops.thy ===== *)
theory Atomic_Ops
  imports Prelude
begin

text \<open>
  The atomic operations of \<open>src/src/ezthread/atomic.hpp\<close>: class \<open>Atomic\<close>, the
  compare-and-exchange of the standard library that the lock-free classes use, and
  class \<open>SpinLock\<close> with any number of threads.
\<close>

section \<open>Atomic values\<close>

text \<open>\<open>FetchAdd\<close> and \<open>FetchSub\<close> return the old value and wrap around.\<close>

definition atomic_FetchAdd :: "'w::len word \<Rightarrow> 'w word \<Rightarrow> 'w word \<times> 'w word" where
  "atomic_FetchAdd v a = (a, a + v)"

definition atomic_FetchSub :: "'w::len word \<Rightarrow> 'w word \<Rightarrow> 'w word \<times> 'w word" where
  "atomic_FetchSub v a = (a, a - v)"

text \<open>
  The standard library's compare-and-exchange takes \<open>expected\<close> by reference: the result
  is the flag, the new \<open>expected\<close> and the new value. The weak form may fail although
  the values agree, which the \<open>spurious\<close> flag says.
\<close>

definition cas_strong :: "'a \<Rightarrow> 'a \<Rightarrow> 'a \<Rightarrow> bool \<times> 'a \<times> 'a" where
  "cas_strong expected desired a =
     (if a = expected then (True, expected, desired) else (False, a, a))"

definition cas_weak :: "bool \<Rightarrow> 'a \<Rightarrow> 'a \<Rightarrow> 'a \<Rightarrow> bool \<times> 'a \<times> 'a" where
  "cas_weak spurious expected desired a =
     (if a = expected \<and> \<not> spurious then (True, expected, desired) else (False, a, a))"

text \<open>
  \<open>Atomic::CompareExchange\<close> copies \<open>expected\<close>, so the caller never sees the value
  that was found.
\<close>

definition atomic_CompareExchange :: "'a \<Rightarrow> 'a \<Rightarrow> 'a \<Rightarrow> bool \<times> 'a" where
  "atomic_CompareExchange expected desired a =
     (case cas_strong expected desired a of (ok, _, a') \<Rightarrow> (ok, a'))"

section \<open>The spin lock\<close>

definition flag_test_and_set :: "bool \<Rightarrow> bool \<times> bool" where
  "flag_test_and_set f = (f, True)"

definition spin_TryLock :: "bool \<Rightarrow> bool \<times> bool" where
  "spin_TryLock f = (case flag_test_and_set f of (old, f') \<Rightarrow> (\<not> old, f'))"

definition spin_Unlock :: "bool \<Rightarrow> bool" where
  "spin_Unlock f = False"

text \<open>
  The loop of \<open>Lock\<close> is one test-and-set per turn. A thread is outside, spinning in
  \<open>Lock\<close>, or holds the lock; only the holder calls \<open>Unlock\<close>, as with any lock.
\<close>

datatype spin_pc = Spin_Out | Spin_Spinning | Spin_Holding

definition spin_Lock_turn :: "bool \<Rightarrow> spin_pc \<times> bool" where
  "spin_Lock_turn f =
     (case flag_test_and_set f of (old, f') \<Rightarrow> (if old then Spin_Spinning else Spin_Holding, f'))"

record spin_sys =
  spin_flag :: bool
  spin_pcs :: "tid \<Rightarrow> spin_pc"

datatype spin_label = Spin_Call tid | Spin_Turn tid | Spin_Try tid | Spin_Release tid

fun spin_step :: "spin_label \<Rightarrow> spin_sys \<Rightarrow> spin_sys option" where
  "spin_step (Spin_Call t) s =
     (if spin_pcs s t = Spin_Out then Some (s\<lparr>spin_pcs := (spin_pcs s)(t := Spin_Spinning)\<rparr>)
      else None)"
| "spin_step (Spin_Turn t) s =
     (if spin_pcs s t = Spin_Spinning
      then case spin_Lock_turn (spin_flag s) of
             (pc, f) \<Rightarrow> Some (s\<lparr>spin_flag := f, spin_pcs := (spin_pcs s)(t := pc)\<rparr>)
      else None)"
| "spin_step (Spin_Try t) s =
     (if spin_pcs s t = Spin_Out
      then case spin_TryLock (spin_flag s) of
             (ok, f) \<Rightarrow> Some (s\<lparr>spin_flag := f,
               spin_pcs := (spin_pcs s)(t := if ok then Spin_Holding else Spin_Out)\<rparr>)
      else None)"
| "spin_step (Spin_Release t) s =
     (if spin_pcs s t = Spin_Holding
      then Some (s\<lparr>spin_flag := spin_Unlock (spin_flag s),
               spin_pcs := (spin_pcs s)(t := Spin_Out)\<rparr>)
      else None)"

definition spin_init :: spin_sys where
  "spin_init = \<lparr>spin_flag = False, spin_pcs = (\<lambda>_. Spin_Out)\<rparr>"

definition spin_inv :: "spin_sys \<Rightarrow> bool" where
  "spin_inv s \<longleftrightarrow>
     (if spin_flag s then \<exists>t. \<forall>u. spin_pcs s u = Spin_Holding \<longleftrightarrow> u = t
      else \<forall>u. spin_pcs s u \<noteq> Spin_Holding)"

lemmas spin_defs = spin_Lock_turn_def spin_TryLock_def spin_Unlock_def flag_test_and_set_def

lemma spin_inv_init: "spin_inv spin_init"
  by (simp add: spin_inv_def spin_init_def)

lemma spin_inv_step:
  assumes "spin_inv s" and "spin_step l s = Some s'"
  shows "spin_inv s'"
proof (cases l)
  case (Spin_Call t)
  with assms show ?thesis by (force simp: spin_inv_def split: if_splits)
next
  case (Spin_Turn t)
  with assms show ?thesis by (force simp: spin_inv_def spin_defs split: if_splits)
next
  case (Spin_Try t)
  with assms show ?thesis by (force simp: spin_inv_def spin_defs split: if_splits)
next
  case (Spin_Release t)
  with assms show ?thesis by (force simp: spin_inv_def spin_defs split: if_splits)
qed

interpretation spin: inductive_invariant spin_step spin_init spin_inv
  by unfold_locales (auto intro: spin_inv_init spin_inv_step)

section \<open>Properties\<close>

text \<open>
  C37. Whatever the schedule of any number of threads that call \<open>SpinLock::Lock\<close>,
  \<open>TryLock\<close> and \<open>Unlock\<close>, at most one thread holds the lock, and the flag is set
  exactly when one does.
\<close>

theorem spin_mutual_exclusion:
  assumes "reach spin_step spin_init s"
  shows "(\<forall>t u. spin_pcs s t = Spin_Holding \<and> spin_pcs s u = Spin_Holding \<longrightarrow> t = u) \<and>
    (spin_flag s \<longleftrightarrow> (\<exists>t. spin_pcs s t = Spin_Holding))"
  using spin.inv_reach [OF assms] by (auto simp: spin_inv_def split: if_splits)

theorem spin_mutual_exclusion_witness:
  "\<exists>s :: spin_sys. spin_pcs s 1 = Spin_Holding \<and> spin_pcs s 2 = Spin_Spinning \<and> spin_flag s"
proof -
  let ?ls = "[Spin_Call 1, Spin_Call 2, Spin_Turn 1, Spin_Turn 2, Spin_Try 3]"
  have "\<exists>s :: spin_sys. run spin_step ?ls spin_init = Some s \<and> spin_pcs s 1 = Spin_Holding \<and>
      spin_pcs s 2 = Spin_Spinning"
    by (simp add: spin_init_def spin_defs)
  then obtain s :: spin_sys where s: "run spin_step ?ls spin_init = Some s"
    "spin_pcs s 1 = Spin_Holding" "spin_pcs s 2 = Spin_Spinning" by blast
  from s(1) have "reach spin_step spin_init s" by (rule run_reach)
  then have "spin_flag s \<longleftrightarrow> (\<exists>t. spin_pcs s t = Spin_Holding)"
    by (rule spin_mutual_exclusion [THEN conjunct2])
  with s(2,3) show ?thesis by blast
qed

end
