(* ===== verification/Lock_Free_Stack.thy ===== *)
theory Lock_Free_Stack
  imports Atomic_Ops
begin

text \<open>
  Class \<open>LockFreeStack\<close> of \<open>src/src/ezthread/atomic.hpp\<close> with any number of
  threads, interleaved at every access to shared memory, over an explicit heap of nodes.
\<close>

section \<open>Nodes, heap and program points\<close>

text \<open>A pointer is an address or null; \<open>new\<close> gives an address that is not in use.\<close>

type_synonym ptr = "nat option"

record 'a node =
  node_data :: 'a
  node_next :: ptr

record 'a stack =
  stk_head :: ptr
  stk_heap :: "nat \<rightharpoonup> 'a node"

definition stack_new :: "'a stack" where
  "stack_new = \<lparr>stk_head = None, stk_heap = Map.empty\<rparr>"

definition stack_Empty :: "'a stack \<Rightarrow> bool" where
  "stack_Empty s \<longleftrightarrow> stk_head s = None"

datatype 'a stack_pc =
    Stk_Out
  | Push_New 'a
  | Push_Load nat
  | Push_Link nat ptr
  | Push_Cas nat ptr
  | Push_Ret
  | Pop_Load
  | Pop_Test ptr
  | Pop_Cas nat ptr
  | Pop_Take nat
  | Pop_Ret "'a option"

definition set_next :: "ptr \<Rightarrow> 'a node option \<Rightarrow> 'a node option" where
  "set_next p n = map_option (\<lambda>nd. nd\<lparr>node_next := p\<rparr>) n"

text \<open>
  One step of a thread. \<open>a\<close> is the address \<open>new\<close> returns, \<open>sp\<close> says whether a weak
  compare-and-exchange fails spuriously. A pointer that is not in the heap cannot be
  followed: the step is then \<open>None\<close>, and a property below excludes it.
\<close>

fun stack_pc_step ::
  "nat \<Rightarrow> bool \<Rightarrow> 'a stack_pc \<Rightarrow> 'a stack \<Rightarrow> ('a stack_pc \<times> 'a stack) option" where
  "stack_pc_step a sp (Push_New v) s =
     (if stk_heap s a = None
      then Some (Push_Load a,
             s\<lparr>stk_heap := (stk_heap s)(a \<mapsto> \<lparr>node_data = v, node_next = None\<rparr>)\<rparr>)
      else None)"
| "stack_pc_step a sp (Push_Load n) s = Some (Push_Link n (stk_head s), s)"
| "stack_pc_step a sp (Push_Link n old) s =
     (if stk_heap s n = None then None
      else Some (Push_Cas n old, s\<lparr>stk_heap := (stk_heap s)(n := set_next old (stk_heap s n))\<rparr>))"
| "stack_pc_step a sp (Push_Cas n old) s =
     (case cas_weak sp old (Some n) (stk_head s) of
        (ok, old', head') \<Rightarrow>
          Some (if ok then Push_Ret else Push_Link n old', s\<lparr>stk_head := head'\<rparr>))"
| "stack_pc_step a sp Pop_Load s = Some (Pop_Test (stk_head s), s)"
| "stack_pc_step a sp (Pop_Test None) s = Some (Pop_Ret None, s)"
| "stack_pc_step a sp (Pop_Test (Some cur)) s =
     (case stk_heap s cur of None \<Rightarrow> None | Some nd \<Rightarrow> Some (Pop_Cas cur (node_next nd), s))"
| "stack_pc_step a sp (Pop_Cas cur nxt) s =
     (case cas_weak sp (Some cur) nxt (stk_head s) of
        (ok, cur', head') \<Rightarrow>
          Some (if ok then Pop_Take cur else Pop_Test cur', s\<lparr>stk_head := head'\<rparr>))"
| "stack_pc_step a sp (Pop_Take cur) s =
     (case stk_heap s cur of None \<Rightarrow> None | Some nd \<Rightarrow> Some (Pop_Ret (Some (node_data nd)), s))"
| "stack_pc_step a sp Stk_Out s = None"
| "stack_pc_step a sp Push_Ret s = None"
| "stack_pc_step a sp (Pop_Ret r) s = None"

text \<open>
  The destructor frees the nodes from the head on; following a pointer that is not in
  the heap has no result.
\<close>

partial_function (option) stack_destroy ::
  "ptr \<Rightarrow> (nat \<rightharpoonup> 'a node) \<Rightarrow> (nat \<rightharpoonup> 'a node) option" where
  "stack_destroy current h =
     (case current of
        None \<Rightarrow> Some h
      | Some c \<Rightarrow>
          (case h c of None \<Rightarrow> None | Some nd \<Rightarrow> stack_destroy (node_next nd) (h(c := None))))"

section \<open>The system and its history\<close>

text \<open>
  The history is the order in which the operations take effect: a push at its successful
  exchange, a pop at its successful exchange or where it saw the null head. \<open>sk_result\<close>
  remembers what the history says about the running pop of a thread.
\<close>

datatype 'a stack_op = Did_Push 'a | Did_Pop "'a option"

fun stack_replay :: "'a list \<Rightarrow> 'a stack_op list \<Rightarrow> 'a list option" where
  "stack_replay st [] = Some st"
| "stack_replay st (Did_Push v # h) = stack_replay (v # st) h"
| "stack_replay [] (Did_Pop None # h) = stack_replay [] h"
| "stack_replay (v # st) (Did_Pop (Some w) # h) = (if v = w then stack_replay st h else None)"
| "stack_replay _ _ = None"

record 'a stack_sys =
  sk_stack :: "'a stack"
  sk_pcs :: "tid \<Rightarrow> 'a stack_pc"
  sk_hist :: "'a stack_op list"
  sk_result :: "tid \<Rightarrow> 'a option"
  sk_published :: "nat set"

datatype 'a stack_label = Stk_Push tid 'a | Stk_Pop tid | Stk_Step tid nat bool

definition node_value :: "'a stack \<Rightarrow> nat \<Rightarrow> 'a" where
  "node_value s n = node_data (the (stk_heap s n))"

definition stack_ghost ::
  "tid \<Rightarrow> 'a stack_pc \<Rightarrow> 'a stack_pc \<Rightarrow> 'a stack_sys \<Rightarrow> 'a stack_sys" where
  "stack_ghost t pc pc' s =
     (case pc' of
        Push_Ret \<Rightarrow>
          (case pc of
             Push_Cas n _ \<Rightarrow> s\<lparr>sk_hist := sk_hist s @ [Did_Push (node_value (sk_stack s) n)],
                              sk_published := insert n (sk_published s)\<rparr>
           | _ \<Rightarrow> s)
      | Pop_Take cur \<Rightarrow> s\<lparr>sk_hist := sk_hist s @ [Did_Pop (Some (node_value (sk_stack s) cur))],
          sk_result := (sk_result s)(t := Some (node_value (sk_stack s) cur))\<rparr>
      | Pop_Test None \<Rightarrow>
          s\<lparr>sk_hist := sk_hist s @ [Did_Pop None], sk_result := (sk_result s)(t := None)\<rparr>
      | _ \<Rightarrow> s)"

definition stk_idle :: "'a stack_pc \<Rightarrow> bool" where
  "stk_idle pc \<longleftrightarrow> (case pc of Stk_Out \<Rightarrow> True | Push_Ret \<Rightarrow> True | Pop_Ret _ \<Rightarrow> True | _ \<Rightarrow> False)"

fun stack_step :: "'a stack_label \<Rightarrow> 'a stack_sys \<Rightarrow> 'a stack_sys option" where
  "stack_step (Stk_Push t v) s =
     (if stk_idle (sk_pcs s t) then Some (s\<lparr>sk_pcs := (sk_pcs s)(t := Push_New v)\<rparr>) else None)"
| "stack_step (Stk_Pop t) s =
     (if stk_idle (sk_pcs s t) then Some (s\<lparr>sk_pcs := (sk_pcs s)(t := Pop_Load)\<rparr>) else None)"
| "stack_step (Stk_Step t a sp) s =
     (case stack_pc_step a sp (sk_pcs s t) (sk_stack s) of
        None \<Rightarrow> None
      | Some (pc', stk') \<Rightarrow>
          Some ((stack_ghost t (sk_pcs s t) pc' s)
            \<lparr>sk_stack := stk', sk_pcs := (sk_pcs s)(t := pc')\<rparr>))"

definition stack_init :: "'a stack_sys" where
  "stack_init = \<lparr>sk_stack = stack_new, sk_pcs = (\<lambda>_. Stk_Out), sk_hist = [],
     sk_result = (\<lambda>_. None), sk_published = {}\<rparr>"

section \<open>The invariant\<close>

primrec stk_chain :: "(nat \<rightharpoonup> 'a node) \<Rightarrow> ptr \<Rightarrow> nat list \<Rightarrow> bool" where
  "stk_chain h p [] \<longleftrightarrow> p = None"
| "stk_chain h p (n # ns) \<longleftrightarrow>
     p = Some n \<and> (\<exists>nd. h n = Some nd \<and> stk_chain h (node_next nd) ns)"

fun private_node :: "'a stack_pc \<Rightarrow> nat option" where
  "private_node (Push_Load n) = Some n"
| "private_node (Push_Link n _) = Some n"
| "private_node (Push_Cas n _) = Some n"
| "private_node _ = None"

fun stk_pc_ok :: "'a stack \<Rightarrow> nat set \<Rightarrow> 'a option \<Rightarrow> 'a stack_pc \<Rightarrow> bool" where
  "stk_pc_ok s pub r (Push_Cas n old) \<longleftrightarrow> (\<exists>nd. stk_heap s n = Some nd \<and> node_next nd = old)"
| "stk_pc_ok s pub r (Pop_Test None) \<longleftrightarrow> r = None"
| "stk_pc_ok s pub r (Pop_Test (Some c)) \<longleftrightarrow> c \<in> pub"
| "stk_pc_ok s pub r (Pop_Cas c nxt) \<longleftrightarrow>
     c \<in> pub \<and> (\<exists>nd. stk_heap s c = Some nd \<and> node_next nd = nxt)"
| "stk_pc_ok s pub r (Pop_Take c) \<longleftrightarrow> c \<in> pub \<and> r = Some (node_value s c)"
| "stk_pc_ok s pub r (Pop_Ret r') \<longleftrightarrow> r' = r"
| "stk_pc_ok s pub r _ \<longleftrightarrow> True"

definition stk_shape :: "'a stack \<Rightarrow> nat set \<Rightarrow> 'a stack_op list \<Rightarrow> nat list \<Rightarrow> bool" where
  "stk_shape s pub hist ns \<longleftrightarrow> stk_chain (stk_heap s) (stk_head s) ns \<and> distinct ns \<and>
     set ns \<subseteq> pub \<and> pub \<subseteq> dom (stk_heap s) \<and> stack_replay [] hist = Some (map (node_value s) ns)"

definition stk_threads ::
  "'a stack \<Rightarrow> nat set \<Rightarrow> (tid \<Rightarrow> 'a option) \<Rightarrow> (tid \<Rightarrow> 'a stack_pc) \<Rightarrow> bool" where
  "stk_threads s pub res pcs \<longleftrightarrow>
     (\<forall>t. stk_pc_ok s pub (res t) (pcs t)) \<and>
     (\<forall>t n. private_node (pcs t) = Some n \<longrightarrow> n \<in> dom (stk_heap s) \<and> n \<notin> pub) \<and>
     (\<forall>t u n. private_node (pcs t) = Some n \<longrightarrow> private_node (pcs u) = Some n \<longrightarrow> t = u)"

definition stack_inv :: "'a stack_sys \<Rightarrow> bool" where
  "stack_inv s \<longleftrightarrow> (\<exists>ns. stk_shape (sk_stack s) (sk_published s) (sk_hist s) ns) \<and>
     stk_threads (sk_stack s) (sk_published s) (sk_result s) (sk_pcs s)"

section \<open>Frame lemmas\<close>

lemma stk_chain_frame:
  "stk_chain h p ns \<Longrightarrow> (\<And>n. n \<in> set ns \<Longrightarrow> h' n = h n) \<Longrightarrow> stk_chain h' p ns"
  by (induction ns arbitrary: p) auto

lemma stack_replay_append:
  "stack_replay st (h @ h') =
    (case stack_replay st h of None \<Rightarrow> None | Some st' \<Rightarrow> stack_replay st' h')"
  by (induction st h rule: stack_replay.induct) auto

text \<open>A change of the heap outside the published nodes keeps the list and its history.\<close>

lemma stk_shape_frame:
  assumes "stk_shape s pub hist ns" and "stk_head s' = stk_head s"
    and "\<And>n. n \<in> pub \<Longrightarrow> stk_heap s' n = stk_heap s n"
  shows "stk_shape s' pub hist ns"
proof -
  have same: "\<And>n. n \<in> set ns \<Longrightarrow> stk_heap s' n = stk_heap s n"
    using assms unfolding stk_shape_def by blast
  then have "map (node_value s') ns = map (node_value s) ns" by (simp add: node_value_def)
  moreover have "stk_chain (stk_heap s') (stk_head s') ns"
    using assms same stk_chain_frame unfolding stk_shape_def by metis
  moreover have "pub \<subseteq> dom (stk_heap s')" using assms unfolding stk_shape_def by (auto simp: dom_def)
  ultimately show ?thesis using assms(1) by (simp add: stk_shape_def)
qed

lemma stk_pc_ok_frame:
  assumes "stk_pc_ok s pub r pc" and "\<And>n. n \<in> pub \<Longrightarrow> stk_heap s' n = stk_heap s n"
    and "\<And>n. private_node pc = Some n \<Longrightarrow> stk_heap s' n = stk_heap s n" and "pub \<subseteq> pub'"
  shows "stk_pc_ok s' pub' r pc"
  using assms by (cases "(s, pub, r, pc)" rule: stk_pc_ok.cases) (auto simp: node_value_def)

text \<open>
  One thread moves to \<open>pc\<close>. The other threads keep what they know if the heap changes
  only at nodes that are neither published nor theirs.
\<close>

lemma stk_threads_move:
  assumes inv: "stk_threads s pub res pcs"
    and heap: "\<And>n. n \<in> pub \<Longrightarrow> stk_heap s' n = stk_heap s n"
    and others: "\<And>u n. u \<noteq> t \<Longrightarrow> private_node (pcs u) = Some n \<Longrightarrow>
      stk_heap s' n = stk_heap s n \<and> n \<notin> pub' \<and> private_node pc \<noteq> Some n"
    and me: "stk_pc_ok s' pub' r pc"
    and mine: "\<And>n. private_node pc = Some n \<Longrightarrow> n \<in> dom (stk_heap s') \<and> n \<notin> pub'"
    and pub: "pub \<subseteq> pub'"
  shows "stk_threads s' pub' (res(t := r)) (pcs(t := pc))"
proof -
  have ok: "stk_pc_ok s' pub' (res u) (pcs u)" if "u \<noteq> t" for u
    by (rule stk_pc_ok_frame [where s = s and pub = pub])
      (use inv heap others pub that in \<open>auto simp: stk_threads_def\<close>)
  have priv: "n \<in> dom (stk_heap s') \<and> n \<notin> pub'"
    if "u \<noteq> t" and "private_node (pcs u) = Some n" for u n
    using inv others [OF that] that by (auto simp: stk_threads_def dom_def)
  have uniq: "private_node (pcs u) = Some n \<Longrightarrow> private_node (pcs v) = Some n \<Longrightarrow> u = v" for u v n
    using inv by (auto simp: stk_threads_def)
  have clash: False
    if "u \<noteq> t" "private_node (pcs u) = Some n" "private_node pc = Some n" for u n
    using others [OF that(1,2)] that(3) by simp
  show ?thesis
    unfolding stk_threads_def using ok me priv mine uniq
    by (auto simp: fun_upd_def dest: clash)
qed

section \<open>Every step keeps the invariant\<close>

lemma stk_threadsD:
  assumes "stk_threads s pub res pcs"
  shows "stk_pc_ok s pub (res t) (pcs t)"
    and "private_node (pcs t) = Some n \<Longrightarrow> n \<in> dom (stk_heap s) \<and> n \<notin> pub"
    and "private_node (pcs t) = Some n \<Longrightarrow> private_node (pcs u) = Some n \<Longrightarrow> u = t"
  using assms by (auto simp: stk_threads_def)

lemma stack_invD:
  assumes "stack_inv s"
  shows "stk_pc_ok (sk_stack s) (sk_published s) (sk_result s t) (sk_pcs s t)"
    and "private_node (sk_pcs s t) = Some n \<Longrightarrow> n \<notin> sk_published s"
proof -
  have thr: "stk_threads (sk_stack s) (sk_published s) (sk_result s) (sk_pcs s)"
    using assms by (simp add: stack_inv_def)
  show "stk_pc_ok (sk_stack s) (sk_published s) (sk_result s t) (sk_pcs s t)"
    by (rule stk_threadsD(1) [OF thr])
  show "private_node (sk_pcs s t) = Some n \<Longrightarrow> n \<notin> sk_published s"
    using stk_threadsD(2) [OF thr] by blast
qed

text \<open>A step that changes neither heap nor head of the stack and takes no node.\<close>

lemma stk_threads_local:
  assumes "stk_threads s pub res pcs" and "stk_heap s' = stk_heap s"
    and "stk_pc_ok s' pub r pc"
    and "private_node pc = None \<or> private_node pc = private_node (pcs t)"
  shows "stk_threads s' pub (res(t := r)) (pcs(t := pc))"
  by (rule stk_threads_move [OF assms(1)])
    (use assms stk_threadsD [OF assms(1)] in \<open>auto dest: stk_threadsD(3) [OF assms(1)]\<close>)

lemma stack_inv_new:
  assumes inv: "stack_inv s" and pc: "sk_pcs s t = Push_New v"
    and step: "stack_step (Stk_Step t a sp) s = Some s'"
  shows "stack_inv s'"
proof -
  let ?k = "sk_stack s"
  let ?h = "(stk_heap ?k)(a \<mapsto> \<lparr>node_data = v, node_next = None\<rparr>)"
  have a: "stk_heap ?k a = None"
    and s': "s' = s\<lparr>sk_stack := ?k\<lparr>stk_heap := ?h\<rparr>, sk_pcs := (sk_pcs s)(t := Push_Load a)\<rparr>"
    using step pc by (auto simp: stack_ghost_def split: if_splits)
  obtain ns where ns: "stk_shape ?k (sk_published s) (sk_hist s) ns"
    and thr: "stk_threads ?k (sk_published s) (sk_result s) (sk_pcs s)"
    using inv by (auto simp: stack_inv_def)
  have pub: "a \<notin> sk_published s" using a ns by (auto simp: stk_shape_def)
  have "stk_threads (?k\<lparr>stk_heap := ?h\<rparr>) (sk_published s)
      ((sk_result s)(t := sk_result s t)) ((sk_pcs s)(t := Push_Load a))"
    by (rule stk_threads_move [OF thr]) (use a pub in \<open>auto dest: stk_threadsD(2) [OF thr]\<close>)
  moreover have "stk_shape (?k\<lparr>stk_heap := ?h\<rparr>) (sk_published s) (sk_hist s) ns"
    by (rule stk_shape_frame [OF ns]) (use pub in auto)
  ultimately show ?thesis by (auto simp: stack_inv_def s')
qed

lemma stack_inv_link:
  assumes inv: "stack_inv s" and pc: "sk_pcs s t = Push_Link n old"
    and step: "stack_step (Stk_Step t a sp) s = Some s'"
  shows "stack_inv s'"
proof -
  let ?k = "sk_stack s"
  let ?h = "(stk_heap ?k)(n := set_next old (stk_heap ?k n))"
  have s': "s' = s\<lparr>sk_stack := ?k\<lparr>stk_heap := ?h\<rparr>, sk_pcs := (sk_pcs s)(t := Push_Cas n old)\<rparr>"
    using step pc by (auto simp: stack_ghost_def split: if_splits)
  obtain ns where ns: "stk_shape ?k (sk_published s) (sk_hist s) ns"
    and thr: "stk_threads ?k (sk_published s) (sk_result s) (sk_pcs s)"
    using inv by (auto simp: stack_inv_def)
  have n: "n \<in> dom (stk_heap ?k) \<and> n \<notin> sk_published s"
    using stk_threadsD(2) [OF thr, of t n] pc by simp
  have own: "private_node (sk_pcs s u) = Some m \<Longrightarrow> u \<noteq> t \<Longrightarrow> m \<noteq> n" for u m
    using stk_threadsD(3) [OF thr, of t n u] pc by auto
  have "stk_threads (?k\<lparr>stk_heap := ?h\<rparr>) (sk_published s)
      ((sk_result s)(t := sk_result s t)) ((sk_pcs s)(t := Push_Cas n old))"
    by (rule stk_threads_move [OF thr])
      (use n own in \<open>auto simp: set_next_def dest: stk_threadsD(2) [OF thr]\<close>)
  moreover have "stk_shape (?k\<lparr>stk_heap := ?h\<rparr>) (sk_published s) (sk_hist s) ns"
    by (rule stk_shape_frame [OF ns]) (use n in auto)
  ultimately show ?thesis by (auto simp: stack_inv_def s')
qed

lemma stack_inv_push_cas:
  assumes inv: "stack_inv s" and pc: "sk_pcs s t = Push_Cas n old"
    and step: "stack_step (Stk_Step t a sp) s = Some s'"
  shows "stack_inv s'"
proof (cases "stk_head (sk_stack s) = old \<and> \<not> sp")
  case True
  let ?k = "sk_stack s" and ?k' = "(sk_stack s)\<lparr>stk_head := Some n\<rparr>"
  have s': "s' = s\<lparr>sk_stack := ?k', sk_pcs := (sk_pcs s)(t := Push_Ret),
      sk_hist := sk_hist s @ [Did_Push (node_value ?k n)],
      sk_published := insert n (sk_published s)\<rparr>"
    using step pc True by (auto simp: stack_ghost_def cas_weak_def)
  obtain ns where ns: "stk_shape ?k (sk_published s) (sk_hist s) ns"
    and thr: "stk_threads ?k (sk_published s) (sk_result s) (sk_pcs s)"
    using inv by (auto simp: stack_inv_def)
  have n: "n \<in> dom (stk_heap ?k)" "n \<notin> sk_published s"
    using stk_threadsD(2) [OF thr, of t n] pc by auto
  have own: "private_node (sk_pcs s u) = Some m \<Longrightarrow> u \<noteq> t \<Longrightarrow> m \<noteq> n" for u m
    using stk_threadsD(3) [OF thr, of t n u] pc by auto
  have "\<exists>nd. stk_heap ?k n = Some nd \<and> node_next nd = stk_head ?k"
    using stk_threadsD(1) [OF thr, of t] pc True by simp
  with ns n have "stk_shape ?k' (insert n (sk_published s))
      (sk_hist s @ [Did_Push (node_value ?k n)]) (n # ns)"
    by (auto simp: stk_shape_def stack_replay_append node_value_def)
  moreover have "stk_threads ?k' (insert n (sk_published s))
      ((sk_result s)(t := sk_result s t)) ((sk_pcs s)(t := Push_Ret))"
    by (rule stk_threads_move [OF thr]) (use own in \<open>auto dest: stk_threadsD(2) [OF thr]\<close>)
  ultimately show ?thesis by (auto simp: stack_inv_def s')
next
  case False
  then have s': "s' = s\<lparr>sk_pcs := (sk_pcs s)(t := Push_Link n (stk_head (sk_stack s)))\<rparr>"
    using step pc by (auto simp: stack_ghost_def cas_weak_def)
  have "stk_threads (sk_stack s) (sk_published s) ((sk_result s)(t := sk_result s t))
      ((sk_pcs s)(t := Push_Link n (stk_head (sk_stack s))))"
    using inv pc by (intro stk_threads_local) (auto simp: stack_inv_def)
  then show ?thesis using inv by (auto simp: stack_inv_def s')
qed

lemma stack_ghost_same_stack:
  "(stack_ghost t pc pc' s)\<lparr>sk_stack := sk_stack s, sk_pcs := p\<rparr> = (stack_ghost t pc pc' s)\<lparr>sk_pcs := p\<rparr>"
  by (cases pc'; cases pc) (auto simp: stack_ghost_def split: option.splits)

text \<open>A pop that reads the head: the head is published, or null with an empty list.\<close>

lemma stack_inv_read_head:
  assumes inv: "stack_inv s" and priv: "private_node (sk_pcs s t) = None"
    and s': "s' = (stack_ghost t pc (Pop_Test (stk_head (sk_stack s))) s)
      \<lparr>sk_pcs := (sk_pcs s)(t := Pop_Test (stk_head (sk_stack s)))\<rparr>"
  shows "stack_inv s'"
proof -
  let ?k = "sk_stack s"
  obtain ns where ns: "stk_shape ?k (sk_published s) (sk_hist s) ns"
    and thr: "stk_threads ?k (sk_published s) (sk_result s) (sk_pcs s)"
    using inv by (auto simp: stack_inv_def)
  show ?thesis
  proof (cases "stk_head ?k")
    case None
    with ns have "ns = []" by (cases ns) (auto simp: stk_shape_def)
    with ns have "stk_shape ?k (sk_published s) (sk_hist s @ [Did_Pop None]) []"
      by (auto simp: stk_shape_def stack_replay_append)
    moreover have "stk_threads ?k (sk_published s) ((sk_result s)(t := None))
        ((sk_pcs s)(t := Pop_Test None))"
      using thr by (intro stk_threads_local) auto
    ultimately show ?thesis using None by (auto simp: stack_inv_def s' stack_ghost_def)
  next
    case (Some c)
    with ns have "c \<in> sk_published s" by (cases ns) (auto simp: stk_shape_def)
    then have "stk_threads ?k (sk_published s) ((sk_result s)(t := sk_result s t))
        ((sk_pcs s)(t := Pop_Test (Some c)))"
      using thr by (intro stk_threads_local) auto
    with Some ns show ?thesis by (auto simp: stack_inv_def s' stack_ghost_def)
  qed
qed

lemma stack_inv_pop_cas:
  assumes inv: "stack_inv s" and pc: "sk_pcs s t = Pop_Cas c nxt"
    and step: "stack_step (Stk_Step t a sp) s = Some s'"
  shows "stack_inv s'"
proof (cases "stk_head (sk_stack s) = Some c \<and> \<not> sp")
  case True
  let ?k = "sk_stack s" and ?k' = "(sk_stack s)\<lparr>stk_head := nxt\<rparr>"
  let ?v = "node_value (sk_stack s) c"
  have s': "s' = s\<lparr>sk_stack := ?k', sk_pcs := (sk_pcs s)(t := Pop_Take c),
      sk_hist := sk_hist s @ [Did_Pop (Some ?v)], sk_result := (sk_result s)(t := Some ?v)\<rparr>"
    using step pc True by (auto simp: stack_ghost_def cas_weak_def)
  obtain ns where ns: "stk_shape ?k (sk_published s) (sk_hist s) ns"
    and thr: "stk_threads ?k (sk_published s) (sk_result s) (sk_pcs s)"
    using inv by (auto simp: stack_inv_def)
  have c: "c \<in> sk_published s" "\<exists>nd. stk_heap ?k c = Some nd \<and> node_next nd = nxt"
    using stk_threadsD(1) [OF thr, of t] pc by auto
  obtain ns' where "ns = c # ns'" using True ns by (cases ns) (auto simp: stk_shape_def)
  with ns c have "stk_shape ?k' (sk_published s) (sk_hist s @ [Did_Pop (Some ?v)]) ns'"
    by (auto simp: stk_shape_def stack_replay_append node_value_def)
  moreover have "stk_threads ?k' (sk_published s) ((sk_result s)(t := Some ?v))
      ((sk_pcs s)(t := Pop_Take c))"
    using thr c by (intro stk_threads_local) (auto simp: node_value_def)
  ultimately show ?thesis by (auto simp: stack_inv_def s')
next
  case False
  then have "cas_weak sp (Some c) nxt (stk_head (sk_stack s))
      = (False, stk_head (sk_stack s), stk_head (sk_stack s))"
    by (simp add: cas_weak_def)
  with step pc have "s' = (stack_ghost t (Pop_Cas c nxt) (Pop_Test (stk_head (sk_stack s))) s)
      \<lparr>sk_stack := sk_stack s, sk_pcs := (sk_pcs s)(t := Pop_Test (stk_head (sk_stack s)))\<rparr>"
    by simp
  then have eq: "s' = (stack_ghost t (Pop_Cas c nxt) (Pop_Test (stk_head (sk_stack s))) s)
      \<lparr>sk_pcs := (sk_pcs s)(t := Pop_Test (stk_head (sk_stack s)))\<rparr>"
    by (simp only: stack_ghost_same_stack)
  show ?thesis by (rule stack_inv_read_head [OF inv _ eq]) (simp add: pc)
qed

lemma stack_inv_init: "stack_inv stack_init"
proof -
  have "stk_shape stack_new {} [] []" by (simp add: stk_shape_def stack_new_def)
  moreover have "stk_threads stack_new {} (\<lambda>_. None) (\<lambda>_. Stk_Out)"
    by (simp add: stk_threads_def)
  ultimately show ?thesis by (auto simp: stack_inv_def stack_init_def)
qed

text \<open>The remaining program points move the thread only.\<close>

lemma stack_inv_local_step:
  assumes inv: "stack_inv s" and s': "s' = s\<lparr>sk_pcs := (sk_pcs s)(t := pc')\<rparr>"
    and "stk_pc_ok (sk_stack s) (sk_published s) (sk_result s t) pc'"
    and "private_node pc' = None \<or> private_node pc' = private_node (sk_pcs s t)"
  shows "stack_inv s'"
proof -
  have "stk_threads (sk_stack s) (sk_published s) ((sk_result s)(t := sk_result s t))
      ((sk_pcs s)(t := pc'))"
    using assms by (intro stk_threads_local) (auto simp: stack_inv_def)
  with inv show ?thesis by (auto simp: stack_inv_def s')
qed

lemma stack_step_local:
  assumes "stack_pc_step a sp (sk_pcs s t) (sk_stack s) = Some (pc', sk_stack s)"
    and "stack_step (Stk_Step t a sp) s = Some s'"
    and "stack_ghost t (sk_pcs s t) pc' s = s"
  shows "s' = s\<lparr>sk_pcs := (sk_pcs s)(t := pc')\<rparr>"
  using assms by simp

lemma stack_inv_thread_step:
  assumes inv: "stack_inv s" and step: "stack_step (Stk_Step t a sp) s = Some s'"
  shows "stack_inv s'"
proof -
  have ok: "stk_pc_ok (sk_stack s) (sk_published s) (sk_result s t) (sk_pcs s t)"
    using inv stk_threadsD(1) by (auto simp: stack_inv_def)
  show ?thesis
  proof (cases "sk_pcs s t")
    case (Push_New v)
    show ?thesis by (rule stack_inv_new [OF inv Push_New step])
  next
    case (Push_Load n)
    have eq: "s' = s\<lparr>sk_pcs := (sk_pcs s)(t := Push_Link n (stk_head (sk_stack s)))\<rparr>"
      by (rule stack_step_local [OF _ step]) (simp_all add: Push_Load stack_ghost_def)
    show ?thesis by (rule stack_inv_local_step [OF inv eq]) (simp_all add: Push_Load)
  next
    case (Push_Link n old)
    show ?thesis by (rule stack_inv_link [OF inv Push_Link step])
  next
    case (Push_Cas n old)
    show ?thesis by (rule stack_inv_push_cas [OF inv Push_Cas step])
  next
    case Pop_Load
    with step have "s' = (stack_ghost t Pop_Load (Pop_Test (stk_head (sk_stack s))) s)
      \<lparr>sk_stack := sk_stack s, sk_pcs := (sk_pcs s)(t := Pop_Test (stk_head (sk_stack s)))\<rparr>"
      by simp
    then have eq: "s' = (stack_ghost t Pop_Load (Pop_Test (stk_head (sk_stack s))) s)
      \<lparr>sk_pcs := (sk_pcs s)(t := Pop_Test (stk_head (sk_stack s)))\<rparr>"
      by (simp only: stack_ghost_same_stack)
    show ?thesis by (rule stack_inv_read_head [OF inv _ eq]) (simp add: Pop_Load)
  next
    case (Pop_Test p)
    show ?thesis
    proof (cases p)
      case None
      have eq: "s' = s\<lparr>sk_pcs := (sk_pcs s)(t := Pop_Ret None)\<rparr>"
        by (rule stack_step_local [OF _ step]) (simp_all add: Pop_Test None stack_ghost_def)
      show ?thesis
        by (rule stack_inv_local_step [OF inv eq]) (use ok Pop_Test None in simp_all)
    next
      case (Some c)
      with Pop_Test step obtain nd where nd: "stk_heap (sk_stack s) c = Some nd"
        by (auto split: option.splits)
      have eq: "s' = s\<lparr>sk_pcs := (sk_pcs s)(t := Pop_Cas c (node_next nd))\<rparr>"
        by (rule stack_step_local [OF _ step]) (simp_all add: Pop_Test Some nd stack_ghost_def)
      show ?thesis
        by (rule stack_inv_local_step [OF inv eq]) (use ok Pop_Test Some nd in simp_all)
    qed
  next
    case (Pop_Cas c nxt)
    show ?thesis by (rule stack_inv_pop_cas [OF inv Pop_Cas step])
  next
    case (Pop_Take c)
    with step obtain nd where nd: "stk_heap (sk_stack s) c = Some nd"
      by (auto split: option.splits)
    have eq: "s' = s\<lparr>sk_pcs := (sk_pcs s)(t := Pop_Ret (Some (node_data nd)))\<rparr>"
      by (rule stack_step_local [OF _ step]) (simp_all add: Pop_Take nd stack_ghost_def)
    show ?thesis
      by (rule stack_inv_local_step [OF inv eq]) (use ok Pop_Take nd in \<open>simp_all add: node_value_def\<close>)
  qed (use step in auto)
qed

lemma stack_inv_step:
  assumes "stack_inv s" and "stack_step l s = Some s'"
  shows "stack_inv s'"
proof (cases l)
  case (Stk_Push t v)
  with assms(2) have "s' = s\<lparr>sk_pcs := (sk_pcs s)(t := Push_New v)\<rparr>" by (simp split: if_splits)
  with assms(1) show ?thesis by (rule stack_inv_local_step) simp_all
next
  case (Stk_Pop t)
  with assms(2) have "s' = s\<lparr>sk_pcs := (sk_pcs s)(t := Pop_Load)\<rparr>" by (simp split: if_splits)
  with assms(1) show ?thesis by (rule stack_inv_local_step) simp_all
next
  case (Stk_Step t a sp)
  with assms stack_inv_thread_step show ?thesis by blast
qed

interpretation lf_stack: inductive_invariant stack_step stack_init stack_inv
  by unfold_locales (auto intro: stack_inv_init stack_inv_step)

section \<open>Nodes are never freed by a pop\<close>

definition pushes :: "'a stack_op list \<Rightarrow> nat" where
  "pushes h = length (filter (\<lambda>e. case e of Did_Push _ \<Rightarrow> True | _ \<Rightarrow> False) h)"

definition takes :: "'a stack_op list \<Rightarrow> nat" where
  "takes h = length (filter (\<lambda>e. case e of Did_Pop (Some _) \<Rightarrow> True | _ \<Rightarrow> False) h)"

lemma stack_replay_length:
  "stack_replay st h = Some st' \<Longrightarrow> length st + pushes h = length st' + takes h"
  by (induction st h rule: stack_replay.induct)
    (auto simp: pushes_def takes_def split: if_splits)

definition stack_count_inv :: "'a stack_sys \<Rightarrow> bool" where
  "stack_count_inv s \<longleftrightarrow> stack_inv s \<and> finite (sk_published s) \<and>
     card (sk_published s) = pushes (sk_hist s)"

lemma stack_count_ghost:
  assumes "stack_count_inv s" and "\<And>n old. sk_pcs s t = Push_Cas n old \<Longrightarrow> n \<notin> sk_published s"
    and s': "s' = stack_ghost t (sk_pcs s t) pc' s"
  shows "finite (sk_published s') \<and> card (sk_published s') = pushes (sk_hist s')"
  using assms(1,2) unfolding s'
  by (cases pc'; cases "sk_pcs s t")
    (auto simp: stack_ghost_def stack_count_inv_def pushes_def split: option.splits)

lemma stack_count_inv_step:
  assumes inv: "stack_count_inv s" and step: "stack_step l s = Some s'"
  shows "stack_count_inv s'"
proof -
  have "stack_inv s'" using inv step stack_inv_step by (auto simp: stack_count_inv_def)
  moreover have "finite (sk_published s') \<and> card (sk_published s') = pushes (sk_hist s')"
  proof (cases l)
    case (Stk_Step t a sp)
    have own: "n \<notin> sk_published s" if "sk_pcs s t = Push_Cas n old" for n old
    proof -
      from that have "private_node (sk_pcs s t) = Some n" by simp
      with inv show ?thesis using stack_invD(2) by (auto simp: stack_count_inv_def)
    qed
    from step Stk_Step obtain pc' k where s': "s' = (stack_ghost t (sk_pcs s t) pc' s)
        \<lparr>sk_stack := k, sk_pcs := (sk_pcs s)(t := pc')\<rparr>"
      by (auto split: option.splits)
    with stack_count_ghost [OF inv own refl] show ?thesis by simp
  qed (use inv step in \<open>auto simp: stack_count_inv_def split: if_splits\<close>)
  ultimately show ?thesis by (simp add: stack_count_inv_def)
qed

interpretation lf_stack_count: inductive_invariant stack_step stack_init stack_count_inv
proof unfold_locales
  show "stack_count_inv stack_init"
    using stack_inv_init by (simp add: stack_count_inv_def) (simp add: stack_init_def pushes_def)
qed (rule stack_count_inv_step)

lemma stack_destroy_chain:
  "stk_chain h p ns \<Longrightarrow> distinct ns \<Longrightarrow>
    \<exists>h'. stack_destroy p h = Some h' \<and> dom h' = dom h - set ns"
proof (induction ns arbitrary: h p)
  case Nil
  then show ?case by (subst stack_destroy.simps) simp
next
  case (Cons n ns)
  then obtain nd where nd: "p = Some n" "h n = Some nd" "stk_chain h (node_next nd) ns" by auto
  have "stk_chain (h(n := None)) (node_next nd) ns"
    by (rule stk_chain_frame [OF nd(3)]) (use Cons.prems in auto)
  then obtain h' where "stack_destroy (node_next nd) (h(n := None)) = Some h'"
    "dom h' = dom (h(n := None)) - set ns"
    using Cons.IH Cons.prems by fastforce
  with nd show ?case by (subst stack_destroy.simps) auto
qed

section \<open>Properties\<close>

text \<open>
  C6. \<open>LockFreeStack\<close> is linearizable under every interleaving of any number of threads:
  the operations in the order in which they took effect are a run of a sequential stack
  that ends with the values linked from \<open>m_head\<close>, and a finished \<open>Pop\<close> has returned
  what that run says.
\<close>

theorem stack_linearizable:
  assumes "reach stack_step stack_init s"
  shows "(\<exists>ns. stk_chain (stk_heap (sk_stack s)) (stk_head (sk_stack s)) ns \<and> distinct ns \<and>
      stack_replay [] (sk_hist s) = Some (map (node_value (sk_stack s)) ns)) \<and>
    (\<forall>t r. sk_pcs s t = Pop_Ret r \<longrightarrow> r = sk_result s t)"
proof -
  have inv: "stack_inv s" using assms by (rule lf_stack.inv_reach)
  have "r = sk_result s t" if "sk_pcs s t = Pop_Ret r" for t r
    using stack_invD(1) [OF inv, of t] that by simp
  with inv show ?thesis by (auto simp: stack_inv_def stk_shape_def)
qed

text \<open>A run of two threads: one pushes 5, the other pops it while 6 is being pushed.\<close>

definition stack_demo :: "nat stack_label list" where
  "stack_demo = [Stk_Push 1 5, Stk_Step 1 0 False, Stk_Step 1 0 False, Stk_Step 1 0 False,
     Stk_Step 1 0 True, Stk_Step 1 0 False, Stk_Step 1 0 False, Stk_Pop 2, Stk_Push 1 6,
     Stk_Step 2 0 False, Stk_Step 2 0 False, Stk_Step 1 1 False, Stk_Step 2 0 False,
     Stk_Step 2 0 False]"

lemma stack_demo_run:
  "\<exists>s :: nat stack_sys. run stack_step stack_demo stack_init = Some s \<and>
    sk_pcs s 2 = Pop_Ret (Some 5) \<and> sk_hist s = [Did_Push 5, Did_Pop (Some 5)] \<and>
    sk_pcs s 1 = Push_Load 1 \<and> stk_heap (sk_stack s) 2 = None"
  by (simp add: stack_demo_def stack_init_def stack_new_def stk_idle_def stack_ghost_def
      cas_weak_def set_next_def node_value_def)

theorem stack_linearizable_witness:
  "\<exists>(s :: nat stack_sys) ns. sk_pcs s 2 = Pop_Ret (Some 5) \<and> sk_result s 2 = Some 5 \<and>
    stk_chain (stk_heap (sk_stack s)) (stk_head (sk_stack s)) ns"
proof -
  obtain s :: "nat stack_sys" where s: "run stack_step stack_demo stack_init = Some s"
    "sk_pcs s 2 = Pop_Ret (Some 5)"
    using stack_demo_run by blast
  have "reach stack_step stack_init s" using s(1) by (rule run_reach)
  note lin = stack_linearizable [OF this]
  from lin s(2) have "sk_result s 2 = Some 5" by metis
  with lin s(2) show ?thesis by blast
qed

text \<open>
  No thread of a \<open>LockFreeStack\<close> ever follows a pointer to a node that does not exist:
  in every reachable state, every thread inside \<open>Push\<close> or \<open>Pop\<close> can make its next step.
\<close>

theorem stack_no_dangling:
  assumes "reach stack_step stack_init s" and "\<not> stk_idle (sk_pcs s t)"
    and "stk_heap (sk_stack s) a = None"
  shows "\<exists>s'. stack_step (Stk_Step t a sp) s = Some s'"
proof -
  have inv: "stack_inv s" using assms(1) by (rule lf_stack.inv_reach)
  then obtain ns where ns: "stk_shape (sk_stack s) (sk_published s) (sk_hist s) ns"
    and thr: "stk_threads (sk_stack s) (sk_published s) (sk_result s) (sk_pcs s)"
    by (auto simp: stack_inv_def)
  have pub: "c \<in> sk_published s \<Longrightarrow> \<exists>nd. stk_heap (sk_stack s) c = Some nd" for c
    using ns by (auto simp: stk_shape_def)
  have priv: "private_node (sk_pcs s t) = Some n \<Longrightarrow> \<exists>nd. stk_heap (sk_stack s) n = Some nd" for n
    using stk_threadsD(2) [OF thr] by blast
  have "\<exists>r. stack_pc_step a sp (sk_pcs s t) (sk_stack s) = Some r"
    using stk_threadsD(1) [OF thr, of t] assms(2,3) pub priv
    by (cases "(a, sp, sk_pcs s t, sk_stack s)" rule: stack_pc_step.cases)
      (auto simp: stk_idle_def split: prod.splits option.splits)
  then show ?thesis by (auto split: prod.splits)
qed

theorem stack_no_dangling_witness:
  "\<exists>(s :: nat stack_sys) s'. sk_pcs s 1 = Push_Load 1 \<and>
    stack_step (Stk_Step 1 2 False) s = Some s'"
proof -
  obtain s :: "nat stack_sys" where s: "run stack_step stack_demo stack_init = Some s"
    "sk_pcs s 1 = Push_Load 1" "stk_heap (sk_stack s) 2 = None"
    using stack_demo_run by blast
  have "reach stack_step stack_init s" using s(1) by (rule run_reach)
  then have "\<exists>s'. stack_step (Stk_Step 1 2 False) s = Some s'"
    by (rule stack_no_dangling) (use s in \<open>simp_all add: stk_idle_def\<close>)
  with s(2) show ?thesis by blast
qed

text \<open>
  A pop of a \<open>LockFreeStack\<close> never frees its node: when the destructor runs it
  returns, having freed exactly the nodes that are still linked, and as many nodes as
  there were successful pops stay allocated for ever.
\<close>

theorem stack_destructor_leaks_popped:
  assumes "reach stack_step stack_init s"
  shows "\<exists>h'. stack_destroy (stk_head (sk_stack s)) (stk_heap (sk_stack s)) = Some h' \<and>
    card (sk_published s \<inter> dom h') = takes (sk_hist s)"
proof -
  have inv: "stack_count_inv s" using assms by (rule lf_stack_count.inv_reach)
  then obtain ns where ns: "stk_shape (sk_stack s) (sk_published s) (sk_hist s) ns"
    and fin: "finite (sk_published s)" "card (sk_published s) = pushes (sk_hist s)"
    by (auto simp: stack_count_inv_def stack_inv_def)
  then obtain h' where h': "stack_destroy (stk_head (sk_stack s)) (stk_heap (sk_stack s)) = Some h'"
    "dom h' = dom (stk_heap (sk_stack s)) - set ns"
    using stack_destroy_chain by (fastforce simp: stk_shape_def)
  have "sk_published s \<inter> dom h' = sk_published s - set ns"
    using ns h'(2) by (auto simp: stk_shape_def)
  moreover have "card (sk_published s - set ns) = card (sk_published s) - length ns"
    using ns fin by (simp add: stk_shape_def card_Diff_subset distinct_card)
  moreover have "pushes (sk_hist s) = length ns + takes (sk_hist s)"
    using ns stack_replay_length [of "[]" "sk_hist s"] by (auto simp: stk_shape_def)
  ultimately show ?thesis using h'(1) fin by auto
qed

theorem stack_destructor_leaks_popped_witness:
  "\<exists>(s :: nat stack_sys) h'. sk_pcs s 2 = Pop_Ret (Some 5) \<and>
    stack_destroy (stk_head (sk_stack s)) (stk_heap (sk_stack s)) = Some h' \<and>
    card (sk_published s \<inter> dom h') = 1"
proof -
  obtain s :: "nat stack_sys" where s: "run stack_step stack_demo stack_init = Some s"
    "sk_pcs s 2 = Pop_Ret (Some 5)" "takes (sk_hist s) = 1"
    using stack_demo_run by (auto simp: takes_def)
  have "reach stack_step stack_init s" using s(1) by (rule run_reach)
  from stack_destructor_leaks_popped [OF this] s(2,3) show ?thesis by auto
qed

end
