(* ===== verification/MPMC_Cells.thy ===== *)
theory MPMC_Cells
  imports Ring
begin

text \<open>
  The protocol of the sequence numbers of class \<open>MPMCQueue\<close> over natural numbers: which
  sequence number a cell carries, from the two ends of the queue and the positions that a
  pusher or a popper has claimed and not yet released. The next theory connects it with
  the code.
\<close>

text \<open>
  \<open>H\<close> and \<open>T\<close> are the head and the tail, \<open>sq\<close> and \<open>dt\<close> the sequence number and the data
  of each cell, \<open>cl\<close> the items by the position their push has claimed, \<open>Pc\<close> and \<open>Qc\<close> the
  claimed positions of the unfinished pushes and pops.
\<close>

definition filled_ok ::
  "nat \<Rightarrow> (nat \<Rightarrow> nat) \<Rightarrow> (nat \<Rightarrow> 'a) \<Rightarrow> 'a list \<Rightarrow> nat set \<Rightarrow> nat \<Rightarrow> bool" where
  "filled_ok C sq dt cl Pc p \<longleftrightarrow>
     (if p \<in> Pc then sq (p mod C) = p else sq (p mod C) = Suc p \<and> dt (p mod C) = cl ! p)"

definition free_ok ::
  "nat \<Rightarrow> (nat \<Rightarrow> nat) \<Rightarrow> (nat \<Rightarrow> 'a) \<Rightarrow> 'a list \<Rightarrow> nat set \<Rightarrow> nat \<Rightarrow> bool" where
  "free_ok C sq dt cl Qc p \<longleftrightarrow>
     (if C \<le> p \<and> p - C \<in> Qc then sq (p mod C) = Suc (p - C) \<and> dt (p mod C) = cl ! (p - C)
      else sq (p mod C) = p)"

definition cells_ok ::
  "nat \<Rightarrow> nat \<Rightarrow> (nat \<Rightarrow> nat) \<Rightarrow> (nat \<Rightarrow> 'a) \<Rightarrow> 'a list \<Rightarrow> nat set \<Rightarrow> nat set \<Rightarrow> bool" where
  "cells_ok C H sq dt cl Pc Qc \<longleftrightarrow>
     2 \<le> C \<and> H \<le> length cl \<and> length cl \<le> H + C \<and>
     (\<forall>p. H \<le> p \<and> p < length cl \<longrightarrow> filled_ok C sq dt cl Pc p) \<and>
     (\<forall>p. length cl \<le> p \<and> p < H + C \<longrightarrow> free_ok C sq dt cl Qc p) \<and>
     (\<forall>p\<in>Pc. H \<le> p \<and> p < length cl) \<and>
     (\<forall>r\<in>Qc. r < H \<and> length cl \<le> r + C)"

lemma window_inj:
  assumes "p mod C = p' mod C" and "H \<le> p" and "p < H + C" and "H \<le> p'" and "p' < H + C"
  shows "p = (p' :: nat)"
proof -
  have "(H + (p - H)) mod C = (H + (p' - H)) mod C" using assms by simp
  then have "p - H = p' - H" by (rule mod_window_inj) (use assms in auto)
  with assms show ?thesis by simp
qed

lemma cells_ok_filled:
  "cells_ok C H sq dt cl Pc Qc \<Longrightarrow> H \<le> p \<Longrightarrow> p < length cl \<Longrightarrow> filled_ok C sq dt cl Pc p"
  by (simp add: cells_ok_def)

lemma cells_ok_free:
  "cells_ok C H sq dt cl Pc Qc \<Longrightarrow> length cl \<le> p \<Longrightarrow> p < H + C \<Longrightarrow> free_ok C sq dt cl Qc p"
  by (simp add: cells_ok_def)

text \<open>What a claimed position says about its cell.\<close>

lemma cells_ok_pusher:
  assumes "cells_ok C H sq dt cl Pc Qc" and "p \<in> Pc"
  shows "H \<le> p \<and> p < length cl \<and> sq (p mod C) = p"
  using assms by (auto simp: cells_ok_def filled_ok_def)

lemma cells_ok_popper:
  assumes ok: "cells_ok C H sq dt cl Pc Qc" and r: "r \<in> Qc"
  shows "r < H \<and> length cl \<le> r + C \<and> sq (r mod C) = Suc r \<and> dt (r mod C) = cl ! r"
proof -
  have b: "r < H \<and> length cl \<le> r + C" using assms by (simp add: cells_ok_def)
  then have "free_ok C sq dt cl Qc (r + C)" using cells_ok_free [OF ok, of "r + C"] by simp
  with b r show ?thesis by (simp add: free_ok_def)
qed

text \<open>A free cell at the tail says that there is room; a filled one at the head that there is an item.\<close>

lemma cells_ok_room:
  assumes ok: "cells_ok C H sq dt cl Pc Qc" and seq: "sq (length cl mod C) = length cl"
  shows "length cl < H + C"
proof (rule ccontr)
  assume "\<not> length cl < H + C"
  with ok have full: "length cl = H + C" and C: "2 \<le> C" by (auto simp: cells_ok_def)
  then have "filled_ok C sq dt cl Pc H" by (intro cells_ok_filled [OF ok]) auto
  with seq full C show False by (auto simp: filled_ok_def split: if_splits)
qed

lemma cells_ok_item:
  assumes ok: "cells_ok C H sq dt cl Pc Qc" and seq: "sq (H mod C) = Suc H"
  shows "H < length cl \<and> H \<notin> Pc \<and> dt (H mod C) = cl ! H"
proof -
  have "H < length cl"
  proof (rule ccontr)
    assume "\<not> H < length cl"
    moreover have C: "2 \<le> C" using ok by (simp add: cells_ok_def)
    ultimately have "free_ok C sq dt cl Qc H" by (intro cells_ok_free [OF ok]) auto
    with seq C show False by (simp add: free_ok_def split: if_splits)
  qed
  with cells_ok_filled [OF ok, of H] seq show ?thesis
    by (auto simp: filled_ok_def split: if_splits)
qed

section \<open>The five transitions\<close>

lemma cells_claim_push:
  assumes ok: "cells_ok C H sq dt cl Pc Qc" and seq: "sq (length cl mod C) = length cl"
  shows "cells_ok C H sq dt (cl @ [x]) (insert (length cl) Pc) Qc"
proof -
  let ?T = "length cl"
  have room: "?T < H + C" using ok seq by (rule cells_ok_room)
  have old: "filled_ok C sq dt (cl @ [x]) (insert ?T Pc) p" if "H \<le> p" "p < ?T" for p
    using cells_ok_filled [OF ok that] that by (auto simp: filled_ok_def nth_append)
  have new: "filled_ok C sq dt (cl @ [x]) (insert ?T Pc) ?T"
    using seq by (simp add: filled_ok_def)
  have free: "free_ok C sq dt (cl @ [x]) Qc p" if "Suc ?T \<le> p" "p < H + C" for p
    using cells_ok_free [OF ok, of p] that ok by (auto simp: free_ok_def nth_append cells_ok_def)
  have pop: "Suc ?T \<le> r + C" if "r \<in> Qc" for r
  proof -
    have "sq (?T mod C) = Suc r" if "r + C = ?T"
      using cells_ok_popper [OF ok \<open>r \<in> Qc\<close>] that by (metis mod_add_self2)
    then have "r + C \<noteq> ?T" using seq ok by (auto simp: cells_ok_def)
    with cells_ok_popper [OF ok that] show ?thesis by simp
  qed
  show ?thesis
    using ok room old new free pop by (auto simp: cells_ok_def less_Suc_eq)
qed

lemma cells_claim_pop:
  assumes ok: "cells_ok C H sq dt cl Pc Qc" and seq: "sq (H mod C) = Suc H"
  shows "cells_ok C (Suc H) sq dt cl Pc (insert H Qc)"
proof -
  have item: "H < length cl" "H \<notin> Pc" "dt (H mod C) = cl ! H"
    using cells_ok_item [OF ok seq] by auto
  have free: "free_ok C sq dt cl (insert H Qc) p" if "length cl \<le> p" "p < H + C" for p
    using cells_ok_free [OF ok that] that by (auto simp: free_ok_def)
  have new: "free_ok C sq dt cl (insert H Qc) (H + C)"
    using item seq by (simp add: free_ok_def)
  have push: "Suc H \<le> p" if "p \<in> Pc" for p
    using cells_ok_pusher [OF ok that] item(2) that by (metis Suc_leI le_neq_implies_less)
  show ?thesis
    using ok item free new push by (auto simp: cells_ok_def less_Suc_eq)
qed

lemma cells_write:
  assumes ok: "cells_ok C H sq dt cl Pc Qc" and p: "p \<in> Pc"
  shows "cells_ok C H sq (dt(p mod C := x)) cl Pc Qc"
proof -
  have b: "H \<le> p" "p < length cl" using cells_ok_pusher [OF ok p] by auto
  have win: "p' mod C \<noteq> p mod C" if "H \<le> p'" "p' < H + C" "p' \<noteq> p" for p'
    using window_inj [of p' C p H] that b ok by (auto simp: cells_ok_def)
  have "filled_ok C sq (dt(p mod C := x)) cl Pc p'" if "H \<le> p'" "p' < length cl" for p'
    using cells_ok_filled [OF ok that] win [of p'] that ok p
    by (cases "p' = p") (auto simp: filled_ok_def cells_ok_def)
  moreover have "free_ok C sq (dt(p mod C := x)) cl Qc p'" if "length cl \<le> p'" "p' < H + C" for p'
    using cells_ok_free [OF ok that] win [of p'] that b by (auto simp: free_ok_def)
  ultimately show ?thesis using ok by (auto simp: cells_ok_def)
qed

lemma cells_publish:
  assumes ok: "cells_ok C H sq dt cl Pc Qc" and p: "p \<in> Pc" and d: "dt (p mod C) = cl ! p"
  shows "cells_ok C H (sq(p mod C := Suc p)) dt cl (Pc - {p}) Qc"
proof -
  have b: "H \<le> p" "p < length cl" using cells_ok_pusher [OF ok p] by auto
  have win: "p' mod C \<noteq> p mod C" if "H \<le> p'" "p' < H + C" "p' \<noteq> p" for p'
    using window_inj [of p' C p H] that b ok by (auto simp: cells_ok_def)
  have "filled_ok C (sq(p mod C := Suc p)) dt cl (Pc - {p}) p'" if "H \<le> p'" "p' < length cl" for p'
    using cells_ok_filled [OF ok that] win [of p'] that ok d
    by (cases "p' = p") (auto simp: filled_ok_def cells_ok_def)
  moreover have "free_ok C (sq(p mod C := Suc p)) dt cl Qc p'"
    if "length cl \<le> p'" "p' < H + C" for p'
    using cells_ok_free [OF ok that] win [of p'] that b by (auto simp: free_ok_def)
  ultimately show ?thesis using ok by (auto simp: cells_ok_def)
qed

lemma cells_release:
  assumes ok: "cells_ok C H sq dt cl Pc Qc" and r: "r \<in> Qc"
  shows "cells_ok C H (sq(r mod C := r + C)) dt cl Pc (Qc - {r})"
proof -
  have b: "r < H" "length cl \<le> r + C" using cells_ok_popper [OF ok r] by auto
  have HT: "H \<le> length cl" using ok by (simp add: cells_ok_def)
  have win: "p' mod C \<noteq> r mod C" if "H \<le> p'" "p' < H + C" "p' \<noteq> r + C" for p'
    using window_inj [of p' C "r + C" H] that b ok by (auto simp: cells_ok_def)
  have "filled_ok C (sq(r mod C := r + C)) dt cl Pc p'" if "H \<le> p'" "p' < length cl" for p'
    using cells_ok_filled [OF ok that] win [of p'] that b ok
    by (auto simp: filled_ok_def cells_ok_def)
  moreover have "free_ok C (sq(r mod C := r + C)) dt cl (Qc - {r}) p'"
    if p': "length cl \<le> p'" "p' < H + C" for p'
  proof (cases "p' = r + C")
    case True
    then show ?thesis by (simp add: free_ok_def)
  next
    case False
    then have "C \<le> p' \<and> p' - C \<in> Qc - {r} \<longleftrightarrow> C \<le> p' \<and> p' - C \<in> Qc" by auto
    moreover have "p' mod C \<noteq> r mod C" using win [of p'] False p' HT by simp
    ultimately show ?thesis
      using cells_ok_free [OF ok p'] by (simp only: free_ok_def fun_upd_apply if_False)
  qed
  ultimately show ?thesis using ok by (auto simp: cells_ok_def)
qed

text \<open>
  What a thread has seen of a sequence number at an end of the queue cannot change while
  that end stays where it is.
\<close>

lemma cells_tail_stable:
  assumes ok: "cells_ok C H sq dt cl Pc Qc" and seq: "sq (length cl mod C) = length cl"
  shows "p \<in> Pc \<Longrightarrow> p mod C \<noteq> length cl mod C" and "r \<in> Qc \<Longrightarrow> r mod C \<noteq> length cl mod C"
proof -
  show "p \<in> Pc \<Longrightarrow> p mod C \<noteq> length cl mod C"
    using cells_ok_pusher [OF ok, of p] seq by auto
  assume r: "r \<in> Qc"
  have b: "H \<le> length cl" "2 \<le> C" using ok by (auto simp: cells_ok_def)
  show "r mod C \<noteq> length cl mod C"
  proof
    assume eq: "r mod C = length cl mod C"
    then have "r + C = length cl"
      using window_inj [of "r + C" C "length cl" H] cells_ok_popper [OF ok r]
        cells_ok_room [OF ok seq] b by simp
    with eq seq cells_ok_popper [OF ok r] b show False by auto
  qed
qed

lemma cells_head_stable:
  assumes ok: "cells_ok C H sq dt cl Pc Qc" and seq: "sq (H mod C) = Suc H"
  shows "p \<in> Pc \<Longrightarrow> p mod C \<noteq> H mod C" and "r \<in> Qc \<Longrightarrow> r mod C \<noteq> H mod C"
proof -
  show "p \<in> Pc \<Longrightarrow> p mod C \<noteq> H mod C"
    using cells_ok_pusher [OF ok, of p] cells_ok_item [OF ok seq] seq ok
      window_inj [of p C H H] by (auto simp: cells_ok_def)
  show "r \<in> Qc \<Longrightarrow> r mod C \<noteq> H mod C"
    using cells_ok_popper [OF ok, of r] seq by auto
qed

lemma cells_ok_init: "2 \<le> C \<Longrightarrow> (\<And>i. i < C \<Longrightarrow> sq i = i) \<Longrightarrow> cells_ok C 0 sq dt [] {} {}"
  by (auto simp: cells_ok_def free_ok_def)

end
