(* ===== verification/MPMC_Queue.thy ===== *)
theory MPMC_Queue
  imports MPMC_Cells Atomic_Ops
begin

text \<open>
  Class \<open>MPMCQueue\<close> of \<open>src/src/ezthread/atomic.hpp\<close>: the calls run alone, and any
  number of producers and consumers interleaved at every access to shared memory.
\<close>

section \<open>State and operations\<close>

record 'a cell =
  cell_data :: 'a
  cell_seq :: size_t

record 'a mpmc =
  mp_buffer :: "'a cell list"
  mp_head :: size_t
  mp_tail :: size_t

text \<open>The constructor; \<open>d\<close> is the value-initialised item \<open>data()\<close> of a fresh cell.\<close>

definition mpmc_new :: "size_t \<Rightarrow> 'a \<Rightarrow> 'a mpmc" where
  "mpmc_new C d = \<lparr>mp_buffer = map (\<lambda>i. \<lparr>cell_data = d, cell_seq = word_of_nat i\<rparr>) [0..<unat C],
     mp_head = 0, mp_tail = 0\<rparr>"

definition cell_index :: "size_t \<Rightarrow> size_t \<Rightarrow> nat" where
  "cell_index C pos = unat (pos AND (C - 1))"

text \<open>
  \<open>static_cast<intptr_t>(a) - static_cast<intptr_t>(b)\<close>, as a mathematical integer: no
  position of a property below reaches the range where the subtraction could overflow.
\<close>

definition intptr_diff :: "size_t \<Rightarrow> size_t \<Rightarrow> int" where
  "intptr_diff a b = sint a - sint b"

definition set_cell_data :: "nat \<Rightarrow> 'a \<Rightarrow> 'a mpmc \<Rightarrow> 'a mpmc" where
  "set_cell_data i x q = q\<lparr>mp_buffer := (mp_buffer q)[i := (mp_buffer q ! i)\<lparr>cell_data := x\<rparr>]\<rparr>"

definition set_cell_seq :: "nat \<Rightarrow> size_t \<Rightarrow> 'a mpmc \<Rightarrow> 'a mpmc" where
  "set_cell_seq i n q = q\<lparr>mp_buffer := (mp_buffer q)[i := (mp_buffer q ! i)\<lparr>cell_seq := n\<rparr>]\<rparr>"

text \<open>
  The retry loops of a call that runs alone: the exchange then fails only if \<open>pos\<close> is
  not the current end, and a loop that never leaves has the result \<open>None\<close>.
\<close>

partial_function (option) mpmc_push_loop ::
  "size_t \<Rightarrow> 'a \<Rightarrow> size_t \<Rightarrow> 'a mpmc \<Rightarrow> (bool \<times> 'a mpmc) option" where
  "mpmc_push_loop C item pos q =
     (let i = cell_index C pos;
          diff = intptr_diff (cell_seq (mp_buffer q ! i)) pos
      in if diff = 0 then
           (case cas_weak False pos (pos + 1) (mp_tail q) of (ok, pos', tail') \<Rightarrow>
              if ok then Some (True, set_cell_seq i (pos + 1) (set_cell_data i item (q\<lparr>mp_tail := tail'\<rparr>)))
              else mpmc_push_loop C item pos' q)
         else if diff < 0 then Some (False, q)
         else mpmc_push_loop C item (mp_tail q) q)"

definition mpmc_Push :: "size_t \<Rightarrow> 'a \<Rightarrow> 'a mpmc \<Rightarrow> (bool \<times> 'a mpmc) option" where
  "mpmc_Push C item q = mpmc_push_loop C item (mp_tail q) q"

partial_function (option) mpmc_pop_loop ::
  "size_t \<Rightarrow> size_t \<Rightarrow> 'a mpmc \<Rightarrow> ('a option \<times> 'a mpmc) option" where
  "mpmc_pop_loop C pos q =
     (let i = cell_index C pos;
          diff = intptr_diff (cell_seq (mp_buffer q ! i)) (pos + 1)
      in if diff = 0 then
           (case cas_weak False pos (pos + 1) (mp_head q) of (ok, pos', head') \<Rightarrow>
              if ok then Some (Some (cell_data (mp_buffer q ! i)),
                               set_cell_seq i (pos + C) (q\<lparr>mp_head := head'\<rparr>))
              else mpmc_pop_loop C pos' q)
         else if diff < 0 then Some (None, q)
         else mpmc_pop_loop C (mp_head q) q)"

definition mpmc_Pop :: "size_t \<Rightarrow> 'a mpmc \<Rightarrow> ('a option \<times> 'a mpmc) option" where
  "mpmc_Pop C q = mpmc_pop_loop C (mp_head q) q"

definition mpmc_Empty :: "'a mpmc \<Rightarrow> bool" where
  "mpmc_Empty q \<longleftrightarrow> mp_head q = mp_tail q"

definition mpmc_Size :: "'a mpmc \<Rightarrow> size_t" where
  "mpmc_Size q = mp_tail q - mp_head q"

section \<open>Reading the queue over natural numbers\<close>

definition seq_at :: "'a mpmc \<Rightarrow> nat \<Rightarrow> nat" where
  "seq_at q i = unat (cell_seq (mp_buffer q ! i))"

definition data_at :: "'a mpmc \<Rightarrow> nat \<Rightarrow> 'a" where
  "data_at q i = cell_data (mp_buffer q ! i)"

lemma cell_index_mod: "pow2_capacity C \<Longrightarrow> cell_index C pos = unat pos mod unat C"
  by (simp only: cell_index_def unat_and_pred_capacity)

lemma set_cell_simps [simp]:
  "mp_head (set_cell_data i x q) = mp_head q" "mp_tail (set_cell_data i x q) = mp_tail q"
  "mp_head (set_cell_seq i n q) = mp_head q" "mp_tail (set_cell_seq i n q) = mp_tail q"
  "length (mp_buffer (set_cell_data i x q)) = length (mp_buffer q)"
  "length (mp_buffer (set_cell_seq i n q)) = length (mp_buffer q)"
  by (simp_all add: set_cell_data_def set_cell_seq_def)

lemma cell_at_update:
  assumes "i < length (mp_buffer q)"
  shows "seq_at (set_cell_data i x q) = seq_at q" "data_at (set_cell_data i x q) = (data_at q)(i := x)"
    and "seq_at (set_cell_seq i n q) = (seq_at q)(i := unat n)" "data_at (set_cell_seq i n q) = data_at q"
  using assms by (auto simp: seq_at_def data_at_def set_cell_data_def set_cell_seq_def nth_list_update)

lemma cell_at_ends [simp]:
  "seq_at (q\<lparr>mp_tail := t\<rparr>) = seq_at q" "data_at (q\<lparr>mp_tail := t\<rparr>) = data_at q"
  "seq_at (q\<lparr>mp_head := t\<rparr>) = seq_at q" "data_at (q\<lparr>mp_head := t\<rparr>) = data_at q"
  by (auto simp: seq_at_def data_at_def)

lemma intptr_diff_0: "intptr_diff a b = 0 \<longleftrightarrow> a = b"
  by (auto simp: intptr_diff_def signed_word_eqI)

lemma intptr_diff_less:
  assumes "unat a < 2 ^ 63" and "unat b < 2 ^ 63"
  shows "intptr_diff a b < 0 \<longleftrightarrow> unat a < unat b"
proof -
  have "sint w = uint w" if "unat w < 2 ^ 63" for w :: size_t
  proof -
    from that have "int (unat w) < int (2 ^ 63)" by (simp only: of_nat_less_iff)
    then have "uint w < 2 ^ 63" by simp
    moreover have "- (2 ^ 63) \<le> uint w" by (rule order_trans [OF _ uint_ge_0]) simp
    ultimately have "signed_take_bit 63 (uint w) = uint w"
      by (intro signed_take_bit_int_eq_self)
    then show ?thesis by (simp add: sint_uint)
  qed
  with assms show ?thesis
    by (simp add: intptr_diff_def word_less_nat_alt [symmetric] word_less_def [symmetric])
qed

section \<open>The calls run alone\<close>

text \<open>
  A queue at rest: no position is claimed. Its positions stay below \<open>2 ^ 63\<close>, so that
  no addition wraps and no signed subtraction overflows.
\<close>

definition mpmc_rest :: "size_t \<Rightarrow> 'a list \<Rightarrow> 'a mpmc \<Rightarrow> bool" where
  "mpmc_rest C cl q \<longleftrightarrow> pow2_capacity C \<and> length (mp_buffer q) = unat C \<and>
     unat (mp_tail q) = length cl \<and> length cl + unat C < 2 ^ 63 \<and>
     cells_ok (unat C) (unat (mp_head q)) (seq_at q) (data_at q) cl {} {}"

definition mpmc_wf :: "size_t \<Rightarrow> 'a mpmc \<Rightarrow> bool" where
  "mpmc_wf C q \<longleftrightarrow> (\<exists>cl. mpmc_rest C cl q)"

definition mpmc_live :: "size_t \<Rightarrow> nat \<Rightarrow> 'a mpmc \<Rightarrow> bool" where
  "mpmc_live C n q \<longleftrightarrow> unat (mp_tail q) + unat C + n < 2 ^ 63"

definition mpmc_contents :: "size_t \<Rightarrow> 'a mpmc \<Rightarrow> 'a list" where
  "mpmc_contents C q =
     map (\<lambda>p. data_at q (p mod unat C)) [unat (mp_head q)..<unat (mp_tail q)]"

lemma mpmc_rest_contents:
  assumes "mpmc_rest C cl q"
  shows "mpmc_contents C q = drop (unat (mp_head q)) cl"
proof (rule nth_equalityI)
  show "length (mpmc_contents C q) = length (drop (unat (mp_head q)) cl)"
    using assms by (simp add: mpmc_contents_def mpmc_rest_def)
  fix i assume "i < length (mpmc_contents C q)"
  then have i: "unat (mp_head q) + i < length cl"
    using assms by (simp add: mpmc_contents_def mpmc_rest_def)
  then have "filled_ok (unat C) (seq_at q) (data_at q) cl {} (unat (mp_head q) + i)"
    using assms by (intro cells_ok_filled) (auto simp: mpmc_rest_def)
  moreover have "[unat (mp_head q)..<length cl] ! i = unat (mp_head q) + i"
    using i by (rule nth_upt)
  ultimately show "mpmc_contents C q ! i = drop (unat (mp_head q)) cl ! i"
    using i assms by (simp add: mpmc_contents_def mpmc_rest_def filled_ok_def)
qed

lemma mpmc_restD:
  assumes "mpmc_rest C cl q"
  shows "2 \<le> unat C" "unat (mp_head q) \<le> length cl" "length cl \<le> unat (mp_head q) + unat C"
    "\<And>p. p mod unat C < length (mp_buffer q)"
  using assms by (auto simp: mpmc_rest_def cells_ok_def)

lemma mpmc_rest_new:
  assumes "pow2_capacity C" and "2 \<le> unat C" and "unat C < 2 ^ 63"
  shows "mpmc_rest C [] (mpmc_new C d)"
proof -
  have "seq_at (mpmc_new C d) i = i" if "i < unat C" for i
    using that assms(3) by (simp add: seq_at_def mpmc_new_def unat_of_nat)
  with assms show ?thesis by (simp add: mpmc_rest_def mpmc_new_def cells_ok_init)
qed

lemma mpmc_Push_room:
  assumes rest: "mpmc_rest C cl q" and live: "mpmc_live C 1 q"
    and room: "length cl < unat (mp_head q) + unat C"
  shows "\<exists>q'. mpmc_Push C x q = Some (True, q') \<and> mpmc_rest C (cl @ [x]) q' \<and>
    mp_head q' = mp_head q"
proof -
  let ?i = "length cl mod unat C" and ?pos = "mp_tail q"
  let ?q1 = "q\<lparr>mp_tail := ?pos + 1\<rparr>"
  let ?q2 = "set_cell_seq ?i (?pos + 1) (set_cell_data ?i x ?q1)"
  have pos: "unat ?pos = length cl" "unat (?pos + 1) = Suc (length cl)"
    using rest live by (auto simp: mpmc_rest_def mpmc_live_def unat_inc)
  have ok: "cells_ok (unat C) (unat (mp_head q)) (seq_at q) (data_at q) cl {} {}"
    and idx: "cell_index C ?pos = ?i" and buf: "?i < length (mp_buffer q)"
    using rest pos mpmc_restD(4) [OF rest] by (auto simp: mpmc_rest_def cell_index_mod)
  have seq: "seq_at q ?i = length cl"
    using cells_ok_free [OF ok, of "length cl"] room by (simp add: free_ok_def)
  then have "cell_seq (mp_buffer q ! ?i) = ?pos" using pos by (simp add: seq_at_def word_unat_eq_iff)
  then have "mpmc_Push C x q = Some (True, ?q2)"
    by (simp add: mpmc_Push_def mpmc_push_loop.simps [of C x ?pos] Let_def idx intptr_diff_0
        cas_weak_def)
  moreover have "cells_ok (unat C) (unat (mp_head q)) (seq_at ?q2) (data_at ?q2) (cl @ [x]) {} {}"
  proof -
    have "cells_ok (unat C) (unat (mp_head q)) (seq_at q) ((data_at q)(?i := x))
        (cl @ [x]) {length cl} {}"
      by (rule cells_write [OF cells_claim_push [OF ok seq]]) simp
    from cells_publish [OF this, of "length cl"] show ?thesis
      using buf pos by (simp add: cell_at_update)
  qed
  ultimately show ?thesis
    using rest live pos by (auto simp: mpmc_rest_def mpmc_live_def)
qed

lemma mpmc_Push_full:
  assumes rest: "mpmc_rest C cl q" and full: "length cl = unat (mp_head q) + unat C"
  shows "mpmc_Push C x q = Some (False, q)"
proof -
  let ?pos = "mp_tail q"
  have ok: "cells_ok (unat C) (unat (mp_head q)) (seq_at q) (data_at q) cl {} {}"
    and idx: "cell_index C ?pos = unat (mp_head q) mod unat C" and C: "2 \<le> unat C"
    and pos: "unat ?pos = unat (mp_head q) + unat C" "unat ?pos < 2 ^ 63"
    using rest full mpmc_restD(1) [OF rest] by (auto simp: mpmc_rest_def cell_index_mod)
  then have "seq_at q (cell_index C ?pos) = Suc (unat (mp_head q))"
    using cells_ok_filled [OF ok, of "unat (mp_head q)"] full by (simp add: filled_ok_def)
  then have "intptr_diff (cell_seq (mp_buffer q ! cell_index C ?pos)) ?pos < 0"
    using pos C by (subst intptr_diff_less) (auto simp: seq_at_def)
  then show ?thesis
    by (simp add: mpmc_Push_def mpmc_push_loop.simps [of C x ?pos] Let_def)
qed

lemma mpmc_Pop_item:
  assumes rest: "mpmc_rest C cl q" and item: "unat (mp_head q) < length cl"
  shows "\<exists>q'. mpmc_Pop C q = Some (Some (cl ! unat (mp_head q)), q') \<and> mpmc_rest C cl q' \<and>
    unat (mp_head q') = Suc (unat (mp_head q)) \<and> mp_tail q' = mp_tail q"
proof -
  let ?H = "unat (mp_head q)" and ?pos = "mp_head q"
  let ?i = "?H mod unat C"
  let ?q2 = "set_cell_seq ?i (?pos + C) (q\<lparr>mp_head := ?pos + 1\<rparr>)"
  have ok: "cells_ok (unat C) ?H (seq_at q) (data_at q) cl {} {}"
    and idx: "cell_index C ?pos = ?i" and buf: "?i < length (mp_buffer q)"
    and b: "length cl + unat C < 2 ^ 63"
    using rest mpmc_restD(4) [OF rest] by (auto simp: mpmc_rest_def cell_index_mod)
  have pos: "unat (?pos + 1) = Suc ?H" "unat (?pos + C) = ?H + unat C"
    using item b by (auto simp: unat_inc unat_add_no_wrap)
  have seq: "seq_at q ?i = Suc ?H" and data: "data_at q ?i = cl ! ?H"
    using cells_ok_filled [OF ok order_refl item] by (auto simp: filled_ok_def)
  then have "cell_seq (mp_buffer q ! ?i) = ?pos + 1" using pos by (simp add: seq_at_def word_unat_eq_iff)
  with data have "mpmc_Pop C q = Some (Some (cl ! ?H), ?q2)"
    by (simp add: mpmc_Pop_def mpmc_pop_loop.simps [of C ?pos] Let_def idx intptr_diff_0
        cas_weak_def data_at_def)
  moreover have "cells_ok (unat C) (Suc ?H) (seq_at ?q2) (data_at ?q2) cl {} {}"
    using cells_release [OF cells_claim_pop [OF ok seq], of ?H] buf pos
    by (simp add: cell_at_update)
  ultimately show ?thesis using rest pos by (auto simp: mpmc_rest_def)
qed

lemma mpmc_Pop_none:
  assumes rest: "mpmc_rest C cl q" and none: "unat (mp_head q) = length cl"
  shows "mpmc_Pop C q = Some (None, q)"
proof -
  let ?H = "unat (mp_head q)" and ?pos = "mp_head q"
  have ok: "cells_ok (unat C) ?H (seq_at q) (data_at q) cl {} {}"
    and idx: "cell_index C ?pos = ?H mod unat C" and b: "length cl + unat C < 2 ^ 63"
    and C: "2 \<le> unat C"
    using rest mpmc_restD(1) [OF rest] by (auto simp: mpmc_rest_def cell_index_mod)
  have pos: "unat (?pos + 1) = Suc ?H" using none b by (simp add: unat_inc)
  have "seq_at q (cell_index C ?pos) = ?H"
    using cells_ok_free [OF ok, of ?H] none C idx by (simp add: free_ok_def)
  then have "intptr_diff (cell_seq (mp_buffer q ! cell_index C ?pos)) (?pos + 1) < 0"
    using pos none b C by (subst intptr_diff_less) (auto simp: seq_at_def)
  then show ?thesis
    by (simp add: mpmc_Pop_def mpmc_pop_loop.simps [of C ?pos] Let_def)
qed

lemma mpmc_contents_length:
  "mpmc_rest C cl q \<Longrightarrow> length (mpmc_contents C q) = length cl - unat (mp_head q)"
  by (simp add: mpmc_rest_contents)

lemma mpmc_wf_cases:
  assumes "mpmc_wf C q"
  obtains cl where "mpmc_rest C cl q" and "mpmc_contents C q = drop (unat (mp_head q)) cl"
    and "unat (mp_head q) \<le> length cl" and "length cl \<le> unat (mp_head q) + unat C"
    and "unat (mp_tail q) = length cl"
  using assms mpmc_rest_contents mpmc_restD(2,3) by (fastforce simp: mpmc_wf_def mpmc_rest_def)

lemma mpmc_live_tail:
  "mpmc_live C (Suc n) q \<Longrightarrow> unat (mp_tail q') \<le> Suc (unat (mp_tail q)) \<Longrightarrow> mpmc_live C n q'"
  by (simp add: mpmc_live_def)

lemma mpmc_live_mono: "mpmc_live C n q \<Longrightarrow> m \<le> n \<Longrightarrow> mpmc_live C m q"
  by (simp add: mpmc_live_def)

lemma mpmc_Push_spec:
  assumes "mpmc_wf C q" and "mpmc_live C 1 q"
  shows "\<exists>b q'. mpmc_Push C x q = Some (b, q') \<and> mpmc_wf C q' \<and>
    (b \<longleftrightarrow> length (mpmc_contents C q) < unat C) \<and>
    mpmc_contents C q' = mpmc_contents C q @ (if b then [x] else []) \<and>
    (\<not> b \<longrightarrow> q' = q) \<and> unat (mp_tail q') \<le> Suc (unat (mp_tail q))"
proof -
  obtain cl where cl: "mpmc_rest C cl q" "mpmc_contents C q = drop (unat (mp_head q)) cl"
    "unat (mp_head q) \<le> length cl" "length cl \<le> unat (mp_head q) + unat C"
    "unat (mp_tail q) = length cl"
    using assms(1) by (rule mpmc_wf_cases)
  show ?thesis
  proof (cases "length cl < unat (mp_head q) + unat C")
    case True
    then obtain q' where q': "mpmc_Push C x q = Some (True, q')" "mpmc_rest C (cl @ [x]) q'"
      "mp_head q' = mp_head q"
      using mpmc_Push_room [OF cl(1) assms(2)] by blast
    have "mpmc_contents C q' = mpmc_contents C q @ [x]"
      using q' cl by (simp add: mpmc_rest_contents)
    moreover have "unat (mp_tail q') = Suc (length cl)" using q'(2) by (simp add: mpmc_rest_def)
    moreover have "mpmc_wf C q'" using q'(2) by (auto simp: mpmc_wf_def)
    ultimately show ?thesis using q'(1) cl True by auto
  next
    case False
    then have "mpmc_Push C x q = Some (False, q)" using cl by (intro mpmc_Push_full) auto
    with assms cl False show ?thesis by auto
  qed
qed

lemma mpmc_Pop_spec:
  assumes "mpmc_wf C q"
  shows "\<exists>q'. mpmc_Pop C q = Some (case mpmc_contents C q of [] \<Rightarrow> None | y # _ \<Rightarrow> Some y, q') \<and>
    mpmc_wf C q' \<and> mpmc_contents C q' = tl (mpmc_contents C q) \<and> mp_tail q' = mp_tail q \<and>
    (mpmc_contents C q = [] \<longrightarrow> q' = q)"
proof -
  obtain cl where cl: "mpmc_rest C cl q" "mpmc_contents C q = drop (unat (mp_head q)) cl"
    "unat (mp_head q) \<le> length cl"
    using assms(1) by (rule mpmc_wf_cases)
  show ?thesis
  proof (cases "unat (mp_head q) < length cl")
    case True
    then obtain q' where q': "mpmc_Pop C q = Some (Some (cl ! unat (mp_head q)), q')"
      "mpmc_rest C cl q'" "unat (mp_head q') = Suc (unat (mp_head q))" "mp_tail q' = mp_tail q"
      using mpmc_Pop_item [OF cl(1)] by blast
    have "mpmc_contents C q = cl ! unat (mp_head q) # mpmc_contents C q'"
      using q' cl(2) True by (simp add: mpmc_rest_contents Cons_nth_drop_Suc)
    with q' show ?thesis by (auto simp: mpmc_wf_def)
  next
    case False
    then have "mpmc_Pop C q = Some (None, q)" using cl by (intro mpmc_Pop_none) auto
    with assms cl False show ?thesis by auto
  qed
qed

lemma mpmc_ends_spec:
  assumes "mpmc_wf C q"
  shows "mpmc_Empty q \<longleftrightarrow> mpmc_contents C q = []"
    and "unat (mpmc_Size q) = length (mpmc_contents C q)"
    and "length (mpmc_contents C q) \<le> unat C"
proof -
  obtain cl where cl: "mpmc_contents C q = drop (unat (mp_head q)) cl"
    "unat (mp_head q) \<le> length cl" "length cl \<le> unat (mp_head q) + unat C"
    "unat (mp_tail q) = length cl"
    using assms(1) by (rule mpmc_wf_cases)
  then show "mpmc_Empty q \<longleftrightarrow> mpmc_contents C q = []"
    by (auto simp: mpmc_Empty_def word_unat_eq_iff)
  have "mp_head q \<le> mp_tail q" using cl by (simp add: word_le_nat_alt)
  with cl show "unat (mpmc_Size q) = length (mpmc_contents C q)"
    by (simp add: mpmc_Size_def unat_sub)
  show "length (mpmc_contents C q) \<le> unat C" using cl by simp
qed

text \<open>A queue of at least two cells has the interface of a bounded queue, of room \<open>Capacity\<close>.\<close>

interpretation mpmc_queue: bounded_queue "\<lambda>x q. the (mpmc_Push C x q)" "\<lambda>q. the (mpmc_Pop C q)"
  mpmc_Empty "\<lambda>q. unat (mpmc_Size q)" "mpmc_contents C" "mpmc_wf C" "mpmc_live C" "unat C"
  for C :: size_t
proof unfold_locales
  fix q :: "'a mpmc" and x :: 'a and n :: nat assume wf: "mpmc_wf C q"
  show "mpmc_live C n (snd (the (mpmc_Push C x q)))" if "mpmc_live C (Suc n) q"
    using mpmc_Push_spec [OF wf, of x] that mpmc_live_mono [OF that, of 1]
    by (auto intro: mpmc_live_tail)
  show "the (mpmc_Push C x q) = (False, q)"
    if "mpmc_live C 1 q" "length (mpmc_contents C q) = unat C"
    using mpmc_Push_spec [OF wf that(1), of x] that(2) by auto
  show "fst (the (mpmc_Push C x q)) \<and> mpmc_wf C (snd (the (mpmc_Push C x q))) \<and>
      mpmc_contents C (snd (the (mpmc_Push C x q))) = mpmc_contents C q @ [x]"
    if "mpmc_live C 1 q" "length (mpmc_contents C q) < unat C"
    using mpmc_Push_spec [OF wf that(1), of x] that(2) by auto
qed (use mpmc_Pop_spec in \<open>fastforce simp: mpmc_ends_spec intro: mpmc_live_mono\<close>)+

lemma mpmc_wf_new:
  "pow2_capacity C \<Longrightarrow> 2 \<le> unat C \<Longrightarrow> unat C < 2 ^ 63 \<Longrightarrow> mpmc_wf C (mpmc_new C d)"
  unfolding mpmc_wf_def by (intro exI [of _ "[]"] mpmc_rest_new)

lemma mpmc_contents_new [simp]: "mpmc_contents C (mpmc_new C d) = []"
  by (simp add: mpmc_contents_def mpmc_new_def)

text \<open>
  C39. A call of \<open>MPMCQueue::Push\<close> or \<open>Pop\<close> that runs alone on a queue of at least two
  cells always returns, and refines the queue as a list: \<open>Push\<close> appends the item exactly
  when fewer than \<open>Capacity\<close> items are queued and otherwise returns \<open>false\<close> with the queue
  unchanged, \<open>Pop\<close> removes the first item or returns \<open>false\<close> on an empty queue.
\<close>

theorem mpmc_refines_list:
  assumes "mpmc_wf C q" and "mpmc_live C 1 q"
  shows "\<exists>b q1 q2. mpmc_Push C x q = Some (b, q1) \<and> mpmc_wf C q1 \<and>
    (b \<longleftrightarrow> length (mpmc_contents C q) < unat C) \<and> (b \<or> q1 = q) \<and>
    mpmc_contents C q1 = mpmc_contents C q @ (if b then [x] else []) \<and>
    mpmc_Pop C q = Some (if mpmc_contents C q = [] then None else Some (hd (mpmc_contents C q)), q2) \<and>
    mpmc_wf C q2 \<and> mpmc_contents C q2 = tl (mpmc_contents C q)"
  using mpmc_Push_spec [OF assms, of x] mpmc_Pop_spec [OF assms(1)]
  by (fastforce split: list.splits)

theorem mpmc_refines_list_witness:
  "\<exists>b q1. mpmc_Push 2 (5 :: nat) (mpmc_new 2 0) = Some (b, q1) \<and> b \<and> mpmc_contents 2 q1 = [5]"
proof -
  have "mpmc_wf 2 (mpmc_new 2 (0 :: nat))"
    by (rule mpmc_wf_new) (simp_all add: pow2_capacity_def)
  moreover have "mpmc_live 2 1 (mpmc_new 2 (0 :: nat))"
    by (simp add: mpmc_live_def mpmc_new_def)
  ultimately have "\<exists>b q1 q2. mpmc_Push 2 5 (mpmc_new 2 (0 :: nat)) = Some (b, q1) \<and> mpmc_wf 2 q1 \<and>
    (b \<longleftrightarrow> length (mpmc_contents 2 (mpmc_new 2 (0 :: nat))) < unat (2 :: size_t)) \<and>
    (b \<or> q1 = mpmc_new 2 (0 :: nat)) \<and>
    mpmc_contents 2 q1 = mpmc_contents 2 (mpmc_new 2 (0 :: nat)) @ (if b then [5] else []) \<and>
    mpmc_Pop 2 (mpmc_new 2 (0 :: nat)) = Some (if mpmc_contents 2 (mpmc_new 2 (0 :: nat)) = [] then None
      else Some (hd (mpmc_contents 2 (mpmc_new 2 (0 :: nat)))), q2) \<and>
    mpmc_wf 2 q2 \<and> mpmc_contents 2 q2 = tl (mpmc_contents 2 (mpmc_new 2 (0 :: nat)))"
    by (rule mpmc_refines_list)
  then show ?thesis by auto
qed

text \<open>
  Pushing at most \<open>Capacity\<close> items into an empty \<open>MPMCQueue\<close> of at least two cells and
  popping as many times gives the same items in the same order and leaves the queue empty.
\<close>

theorem mpmc_roundtrip:
  assumes "mpmc_wf C q" and "mpmc_contents C q = []" and "mpmc_live C (length xs) q"
    and "length xs \<le> unat C"
  shows "fst (pop_all (\<lambda>q. the (mpmc_Pop C q)) (length xs)
      (snd (push_all (\<lambda>x q. the (mpmc_Push C x q)) xs q))) = map Some xs \<and>
    mpmc_Empty (snd (pop_all (\<lambda>q. the (mpmc_Pop C q)) (length xs)
      (snd (push_all (\<lambda>x q. the (mpmc_Push C x q)) xs q))))"
  using assms by (rule mpmc_queue.fifo_roundtrip)

theorem mpmc_roundtrip_witness:
  "fst (pop_all (\<lambda>q. the (mpmc_Pop 4 q)) (length [5, 6, 7, 8 :: nat])
    (snd (push_all (\<lambda>x q. the (mpmc_Push 4 x q)) [5, 6, 7, 8 :: nat] (mpmc_new 4 0)))) =
    map Some [5, 6, 7, 8]"
proof -
  have "mpmc_wf 4 (mpmc_new 4 (0 :: nat))"
    by (rule mpmc_wf_new) (simp_all add: pow2_capacity_def)
  then show ?thesis
    by (rule mpmc_roundtrip [THEN conjunct1]) (simp_all, simp add: mpmc_live_def mpmc_new_def)
qed

text \<open>
  A queue of capacity 1, which the \<open>static_assert\<close>s admit: the sequence number that a push
  leaves in the only cell is also the one that the next push waits for.
\<close>

definition mpmc_stuck :: "'a \<Rightarrow> 'a mpmc" where
  "mpmc_stuck y = \<lparr>mp_buffer = [\<lparr>cell_data = y, cell_seq = 2\<rparr>], mp_head = 0, mp_tail = 2\<rparr>"

lemma mpmc_pop_loop_stuck: "mpmc_pop_loop 1 0 (mpmc_stuck y) = None"
proof (rule ccontr)
  let ?P = "\<lambda>(C :: size_t) (pos :: size_t) q r. \<not> (C = 1 \<and> pos = 0 \<and> q = mpmc_stuck y)"
  assume "mpmc_pop_loop 1 0 (mpmc_stuck y) \<noteq> None"
  then obtain r where "mpmc_pop_loop 1 0 (mpmc_stuck y) = Some r" by blast
  then have "?P 1 0 (mpmc_stuck y) r"
  proof (rule mpmc_pop_loop.raw_induct [of ?P, rotated])
    fix loop :: "size_t \<Rightarrow> size_t \<Rightarrow> 'a mpmc \<Rightarrow> ('a option \<times> 'a mpmc) option" and C pos q r
    assume IH: "\<And>C pos q r. loop C pos q = Some r \<Longrightarrow> ?P C pos q r"
      and body: "(let i = cell_index C pos;
          diff = intptr_diff (cell_seq (mp_buffer q ! i)) (pos + 1)
        in if diff = 0 then
           (case cas_weak False pos (pos + 1) (mp_head q) of (ok, pos', head') \<Rightarrow>
              if ok then Some (Some (cell_data (mp_buffer q ! i)),
                               set_cell_seq i (pos + C) (q\<lparr>mp_head := head'\<rparr>))
              else loop C pos' q)
           else if diff < 0 then Some (None, q) else loop C (mp_head q) q) = Some r"
    show "?P C pos q r"
    proof
      assume "C = 1 \<and> pos = 0 \<and> q = mpmc_stuck y"
      with body have "loop 1 0 (mpmc_stuck y) = Some r"
        by (simp add: mpmc_stuck_def cell_index_def intptr_diff_def)
      then show False using IH by blast
    qed
  qed
  then show False by simp
qed

text \<open>
  An \<open>MPMCQueue\<close> of capacity 1, which the \<open>static_assert\<close>s of the class admit, accepts
  a second item while the first is still queued: both calls of \<open>Push\<close> return \<open>true\<close>, the
  first item is overwritten, \<open>Size\<close> is 2, and \<open>Pop\<close> then never returns.
\<close>

theorem mpmc_capacity_1:
  "pow2_capacity 1 \<and>
   (\<exists>q1. mpmc_Push 1 x (mpmc_new 1 d) = Some (True, q1) \<and>
      mpmc_Push 1 y q1 = Some (True, mpmc_stuck y) \<and>
      mpmc_Size (mpmc_stuck y) = 2 \<and> mpmc_Pop 1 (mpmc_stuck y) = None)"
proof -
  let ?q1 = "\<lparr>mp_buffer = [\<lparr>cell_data = x, cell_seq = 1\<rparr>], mp_head = 0, mp_tail = 1\<rparr>"
  have "mpmc_Push 1 x (mpmc_new 1 d) = Some (True, ?q1)"
    by (simp add: mpmc_Push_def mpmc_push_loop.simps [of 1 x] mpmc_new_def Let_def cell_index_def
        intptr_diff_def cas_weak_def set_cell_data_def set_cell_seq_def)
  moreover have "mpmc_Push 1 y ?q1 = Some (True, mpmc_stuck y)"
    by (simp add: mpmc_Push_def mpmc_push_loop.simps [of 1 y] mpmc_stuck_def Let_def cell_index_def
        intptr_diff_def cas_weak_def set_cell_data_def set_cell_seq_def)
  moreover have "mpmc_Size (mpmc_stuck y) = 2" "mp_head (mpmc_stuck y) = 0"
    by (simp_all add: mpmc_Size_def mpmc_stuck_def)
  ultimately show ?thesis
    using mpmc_pop_loop_stuck [of y] by (simp add: pow2_capacity_def mpmc_Pop_def)
qed

end
