(* ===== verification/MPMC_System.thy ===== *)
theory MPMC_System
  imports MPMC_Queue
begin

text \<open>
  Class \<open>MPMCQueue\<close> of \<open>src/src/ezthread/atomic.hpp\<close> with any number of producers and
  consumers, interleaved at every access to shared memory, under sequential consistency.
\<close>

section \<open>Calls as steps\<close>

text \<open>
  The program points of a call, one before each access to shared memory, with the local
  variables that are live there: the item and \<open>pos\<close>.
\<close>

datatype 'a mpmc_pc =
    MP_Out
  | MPush_Load 'a
  | MPush_Seq 'a size_t
  | MPush_Cas 'a size_t
  | MPush_Write 'a size_t
  | MPush_Publish 'a size_t
  | MPush_Ret bool
  | MPop_Load
  | MPop_Seq size_t
  | MPop_Cas size_t
  | MPop_Read size_t
  | MPop_Release 'a size_t
  | MPop_Ret "'a option"

text \<open>
  One access. \<open>sp\<close> says whether a weak exchange fails spuriously; it then leaves the
  value found in \<open>pos\<close> and the loop goes on with the cell of that position.
\<close>

fun mpmc_push_step ::
  "size_t \<Rightarrow> bool \<Rightarrow> 'a mpmc_pc \<Rightarrow> 'a mpmc \<Rightarrow> ('a mpmc_pc \<times> 'a mpmc) option" where
  "mpmc_push_step C sp (MPush_Load x) q = Some (MPush_Seq x (mp_tail q), q)"
| "mpmc_push_step C sp (MPush_Seq x pos) q =
     (let diff = intptr_diff (cell_seq (mp_buffer q ! cell_index C pos)) pos
      in if diff = 0 then Some (MPush_Cas x pos, q)
         else if diff < 0 then Some (MPush_Ret False, q)
         else Some (MPush_Load x, q))"
| "mpmc_push_step C sp (MPush_Cas x pos) q =
     (case cas_weak sp pos (pos + 1) (mp_tail q) of (ok, pos', tail') \<Rightarrow>
        if ok then Some (MPush_Write x pos, q\<lparr>mp_tail := tail'\<rparr>)
        else Some (MPush_Seq x pos', q))"
| "mpmc_push_step C sp (MPush_Write x pos) q =
     Some (MPush_Publish x pos, set_cell_data (cell_index C pos) x q)"
| "mpmc_push_step C sp (MPush_Publish x pos) q =
     Some (MPush_Ret True, set_cell_seq (cell_index C pos) (pos + 1) q)"
| "mpmc_push_step C sp _ q = None"

fun mpmc_pop_step ::
  "size_t \<Rightarrow> bool \<Rightarrow> 'a mpmc_pc \<Rightarrow> 'a mpmc \<Rightarrow> ('a mpmc_pc \<times> 'a mpmc) option" where
  "mpmc_pop_step C sp MPop_Load q = Some (MPop_Seq (mp_head q), q)"
| "mpmc_pop_step C sp (MPop_Seq pos) q =
     (let diff = intptr_diff (cell_seq (mp_buffer q ! cell_index C pos)) (pos + 1)
      in if diff = 0 then Some (MPop_Cas pos, q)
         else if diff < 0 then Some (MPop_Ret None, q)
         else Some (MPop_Load, q))"
| "mpmc_pop_step C sp (MPop_Cas pos) q =
     (case cas_weak sp pos (pos + 1) (mp_head q) of (ok, pos', head') \<Rightarrow>
        if ok then Some (MPop_Read pos, q\<lparr>mp_head := head'\<rparr>)
        else Some (MPop_Seq pos', q))"
| "mpmc_pop_step C sp (MPop_Read pos) q =
     Some (MPop_Release (cell_data (mp_buffer q ! cell_index C pos)) pos, q)"
| "mpmc_pop_step C sp (MPop_Release y pos) q =
     Some (MPop_Ret (Some y), set_cell_seq (cell_index C pos) (pos + C) q)"
| "mpmc_pop_step C sp _ q = None"

text \<open>
  The whole system. \<open>mq_claimed\<close> and \<open>mq_popped\<close> are history: the items in the order in
  which their push has moved the tail, and the items handed out, each with the position
  that its pop has claimed at the head.
\<close>

record 'a mpmc_sys =
  mq_q :: "'a mpmc"
  mq_pcs :: "tid \<Rightarrow> 'a mpmc_pc"
  mq_claimed :: "'a list"
  mq_popped :: "(nat \<times> 'a) list"

datatype 'a mpmc_label =
    MP_Call_Push tid 'a
  | MP_Call_Pop tid
  | MP_Push_Step tid bool
  | MP_Pop_Step tid bool
  | MP_Return tid

definition newly_claimed :: "'a mpmc_pc \<Rightarrow> 'a mpmc_pc \<Rightarrow> 'a list" where
  "newly_claimed pc pc' =
     (case pc of MPush_Cas x _ \<Rightarrow> (case pc' of MPush_Write _ _ \<Rightarrow> [x] | _ \<Rightarrow> []) | _ \<Rightarrow> [])"

definition newly_popped :: "'a mpmc_pc \<Rightarrow> (nat \<times> 'a) list" where
  "newly_popped pc = (case pc of MPop_Release y pos \<Rightarrow> [(unat pos, y)] | _ \<Rightarrow> [])"

definition mpmc_moved ::
  "tid \<Rightarrow> 'a mpmc_sys \<Rightarrow> 'a mpmc_pc \<times> 'a mpmc \<Rightarrow> 'a mpmc_sys" where
  "mpmc_moved t s r =
     \<lparr>mq_q = snd r, mq_pcs = (mq_pcs s)(t := fst r),
      mq_claimed = mq_claimed s @ newly_claimed (mq_pcs s t) (fst r),
      mq_popped = mq_popped s @ newly_popped (mq_pcs s t)\<rparr>"

fun mpmc_step :: "size_t \<Rightarrow> 'a mpmc_label \<Rightarrow> 'a mpmc_sys \<Rightarrow> 'a mpmc_sys option" where
  "mpmc_step C (MP_Call_Push t x) s =
     (case mq_pcs s t of MP_Out \<Rightarrow> Some (mpmc_moved t s (MPush_Load x, mq_q s)) | _ \<Rightarrow> None)"
| "mpmc_step C (MP_Call_Pop t) s =
     (case mq_pcs s t of MP_Out \<Rightarrow> Some (mpmc_moved t s (MPop_Load, mq_q s)) | _ \<Rightarrow> None)"
| "mpmc_step C (MP_Push_Step t sp) s =
     map_option (mpmc_moved t s) (mpmc_push_step C sp (mq_pcs s t) (mq_q s))"
| "mpmc_step C (MP_Pop_Step t sp) s =
     map_option (mpmc_moved t s) (mpmc_pop_step C sp (mq_pcs s t) (mq_q s))"
| "mpmc_step C (MP_Return t) s =
     (case mq_pcs s t of
        MPush_Ret _ \<Rightarrow> Some (mpmc_moved t s (MP_Out, mq_q s))
      | MPop_Ret _ \<Rightarrow> Some (mpmc_moved t s (MP_Out, mq_q s))
      | _ \<Rightarrow> None)"

definition mpmc_init :: "size_t \<Rightarrow> 'a \<Rightarrow> 'a mpmc_sys" where
  "mpmc_init C d = \<lparr>mq_q = mpmc_new C d, mq_pcs = (\<lambda>_. MP_Out), mq_claimed = [], mq_popped = []\<rparr>"

section \<open>The claims of the threads\<close>

fun push_claim :: "'a mpmc_pc \<Rightarrow> nat option" where
  "push_claim (MPush_Write x w) = Some (unat w)"
| "push_claim (MPush_Publish x w) = Some (unat w)"
| "push_claim _ = None"

fun pop_claim :: "'a mpmc_pc \<Rightarrow> nat option" where
  "pop_claim (MPop_Read w) = Some (unat w)"
| "pop_claim (MPop_Release y w) = Some (unat w)"
| "pop_claim _ = None"

section \<open>The invariant\<close>

abbreviation pushing :: "'a mpmc_sys \<Rightarrow> nat set" where
  "pushing s \<equiv> claims push_claim (mq_pcs s)"

abbreviation popping :: "'a mpmc_sys \<Rightarrow> nat set" where
  "popping s \<equiv> claims pop_claim (mq_pcs s)"

text \<open>
  What a thread knows: a position it has read is not beyond the end; if that end is still
  there when the exchange runs, the cell is free, or filled; the item it carries is the one
  of its position.
\<close>

fun mpmc_pc_ok :: "size_t \<Rightarrow> 'a mpmc \<Rightarrow> 'a list \<Rightarrow> 'a mpmc_pc \<Rightarrow> bool" where
  "mpmc_pc_ok C q cl (MPush_Seq x w) \<longleftrightarrow> unat w \<le> length cl"
| "mpmc_pc_ok C q cl (MPush_Cas x w) \<longleftrightarrow> unat w \<le> length cl \<and>
     (unat w = length cl \<longrightarrow> seq_at q (length cl mod unat C) = length cl)"
| "mpmc_pc_ok C q cl (MPush_Write x w) \<longleftrightarrow> cl ! unat w = x"
| "mpmc_pc_ok C q cl (MPush_Publish x w) \<longleftrightarrow> cl ! unat w = x \<and> data_at q (unat w mod unat C) = x"
| "mpmc_pc_ok C q cl (MPop_Seq w) \<longleftrightarrow> unat w \<le> unat (mp_head q)"
| "mpmc_pc_ok C q cl (MPop_Cas w) \<longleftrightarrow> unat w \<le> unat (mp_head q) \<and>
     (unat w = unat (mp_head q) \<longrightarrow>
       seq_at q (unat (mp_head q) mod unat C) = Suc (unat (mp_head q)))"
| "mpmc_pc_ok C q cl (MPop_Release y w) \<longleftrightarrow> y = cl ! unat w"
| "mpmc_pc_ok C q cl _ \<longleftrightarrow> True"

definition popped_ok :: "nat \<Rightarrow> 'a list \<Rightarrow> nat set \<Rightarrow> (nat \<times> 'a) list \<Rightarrow> bool" where
  "popped_ok H cl Qc out \<longleftrightarrow> distinct (map fst out) \<and> (\<forall>z\<in>set out. snd z = cl ! fst z) \<and>
     fst ` set out \<union> Qc = {..<H} \<and> fst ` set out \<inter> Qc = {}"

abbreviation mpmc_cells :: "size_t \<Rightarrow> 'a mpmc \<Rightarrow> 'a list \<Rightarrow> nat set \<Rightarrow> nat set \<Rightarrow> bool" where
  "mpmc_cells C q \<equiv> cells_ok (unat C) (unat (mp_head q)) (seq_at q) (data_at q)"

definition mpmc_core :: "size_t \<Rightarrow> 'a mpmc_sys \<Rightarrow> bool" where
  "mpmc_core C s \<longleftrightarrow> pow2_capacity C \<and> length (mp_buffer (mq_q s)) = unat C \<and>
     unat (mp_tail (mq_q s)) = length (mq_claimed s) \<and>
     mpmc_cells C (mq_q s) (mq_claimed s) (pushing s) (popping s) \<and>
     claims_unique push_claim (mq_pcs s) \<and> claims_unique pop_claim (mq_pcs s) \<and>
     (\<forall>t. mpmc_pc_ok C (mq_q s) (mq_claimed s) (mq_pcs s t)) \<and>
     popped_ok (unat (mp_head (mq_q s))) (mq_claimed s) (popping s) (mq_popped s)"

definition mpmc_inv :: "size_t \<Rightarrow> 'a mpmc_sys \<Rightarrow> bool" where
  "mpmc_inv C s \<longleftrightarrow> (length (mq_claimed s) + unat C < 2 ^ 63 \<longrightarrow> mpmc_core C s)"

lemma mpmc_coreD:
  assumes "mpmc_core C s"
  shows "pow2_capacity C" "length (mp_buffer (mq_q s)) = unat C"
    "unat (mp_tail (mq_q s)) = length (mq_claimed s)"
    "mpmc_cells C (mq_q s) (mq_claimed s) (pushing s) (popping s)"
    "claims_unique push_claim (mq_pcs s)" "claims_unique pop_claim (mq_pcs s)"
    "mpmc_pc_ok C (mq_q s) (mq_claimed s) (mq_pcs s t)"
    "popped_ok (unat (mp_head (mq_q s))) (mq_claimed s) (popping s) (mq_popped s)"
    "unat (mp_head (mq_q s)) \<le> length (mq_claimed s)"
    "p mod unat C < length (mp_buffer (mq_q s))"
    "cell_index C w = unat w mod unat C"
  using assms by (auto simp: mpmc_core_def cells_ok_def cell_index_mod)

text \<open>A step that changes nothing but the program point of a thread without a claim.\<close>

lemma mpmc_core_local:
  assumes "mpmc_core C s" and "push_claim pc = push_claim (mq_pcs s t)"
    and "pop_claim pc = pop_claim (mq_pcs s t)" and "mpmc_pc_ok C (mq_q s) (mq_claimed s) pc"
    and "newly_claimed (mq_pcs s t) pc = []" and "newly_popped (mq_pcs s t) = []"
  shows "mpmc_core C (mpmc_moved t s (pc, mq_q s))"
  using assms by (auto simp: mpmc_core_def mpmc_moved_def claims_same)

text \<open>What the other threads know survives each change of the queue.\<close>

lemma pc_ok_claim_push:
  assumes core: "mpmc_core C s" and pc: "mq_pcs s u = pc"
  shows "mpmc_pc_ok C ((mq_q s)\<lparr>mp_tail := t'\<rparr>) (mq_claimed s @ [x]) pc"
proof -
  let ?cl = "mq_claimed s"
  have ok: "mpmc_pc_ok C (mq_q s) ?cl pc" using mpmc_coreD(7) [OF core] pc by blast
  have push: "p < length ?cl" if "push_claim pc = Some p" for p
    using cells_ok_pusher [OF mpmc_coreD(4) [OF core]] claimsI [of push_claim "mq_pcs s" u] that pc
    by blast
  have pop: "p < length ?cl" if "pop_claim pc = Some p" for p
    using cells_ok_popper [OF mpmc_coreD(4) [OF core]] claimsI [of pop_claim "mq_pcs s" u] that pc
      mpmc_coreD(9) [OF core] by (meson less_le_trans)
  show ?thesis using ok push pop by (cases pc) (auto simp: nth_append)
qed

lemma pc_ok_claim_pop:
  assumes core: "mpmc_core C s" and pc: "mq_pcs s u = pc" and h: "unat h = Suc (unat (mp_head (mq_q s)))"
  shows "mpmc_pc_ok C ((mq_q s)\<lparr>mp_head := h\<rparr>) (mq_claimed s) pc"
  using mpmc_coreD(7) [OF core, of u] pc h by (cases pc) auto

lemma pc_ok_write:
  assumes core: "mpmc_core C s" and pc: "mq_pcs s u = pc" and ut: "u \<noteq> t"
    and t: "push_claim (mq_pcs s t) = Some p"
  shows "mpmc_pc_ok C (set_cell_data (p mod unat C) x (mq_q s)) (mq_claimed s) pc"
proof -
  have ok: "mpmc_pc_ok C (mq_q s) (mq_claimed s) pc" using mpmc_coreD(7) [OF core] pc by blast
  have "p' mod unat C \<noteq> p mod unat C" if "push_claim pc = Some p'" for p'
  proof -
    have "p' \<noteq> p"
      using mpmc_coreD(5) [OF core] that t ut pc by (metis claims_unique_def)
    moreover have "p \<in> pushing s" "p' \<in> pushing s" using t that pc by (auto intro: claimsI)
    ultimately show ?thesis
      using cells_ok_pusher [OF mpmc_coreD(4) [OF core]] by metis
  qed
  with ok show ?thesis
    by (cases pc) (auto simp: cell_at_update [OF mpmc_coreD(10) [OF core]])
qed

lemma pc_ok_seq:
  assumes core: "mpmc_core C s" and pc: "mq_pcs s u = pc"
    and p: "p \<in> pushing s \<or> p \<in> popping s"
  shows "mpmc_pc_ok C (set_cell_seq (p mod unat C) n (mq_q s)) (mq_claimed s) pc"
proof -
  have ok: "mpmc_pc_ok C (mq_q s) (mq_claimed s) pc" using mpmc_coreD(7) [OF core] pc by blast
  note cells = mpmc_coreD(4) [OF core]
  have "length (mq_claimed s) mod unat C \<noteq> p mod unat C"
    if "seq_at (mq_q s) (length (mq_claimed s) mod unat C) = length (mq_claimed s)"
    using cells_tail_stable [OF cells that] p by metis
  moreover have "unat (mp_head (mq_q s)) mod unat C \<noteq> p mod unat C"
    if "seq_at (mq_q s) (unat (mp_head (mq_q s)) mod unat C) = Suc (unat (mp_head (mq_q s)))"
    using cells_head_stable [OF cells that] p by metis
  ultimately show ?thesis
    using ok by (cases pc) (auto simp: cell_at_update [OF mpmc_coreD(10) [OF core]])
qed

text \<open>The five changes of the queue.\<close>

lemma popped_ok_claim_push:
  assumes "popped_ok H cl Qc out" and "H \<le> length cl"
  shows "popped_ok H (cl @ [x]) Qc out"
proof -
  have "fst z < length cl" if "z \<in> set out" for z
  proof -
    have "fst z \<in> {..<H}" using assms(1) that by (auto simp: popped_ok_def)
    with assms(2) show ?thesis by simp
  qed
  with assms show ?thesis by (simp add: popped_ok_def nth_append)
qed

lemma popped_ok_claim_pop:
  assumes "popped_ok H cl Qc out"
  shows "popped_ok (Suc H) cl (insert H Qc) out"
proof -
  have "H \<notin> fst ` set out" using assms unfolding popped_ok_def by blast
  with assms show ?thesis by (auto simp: popped_ok_def lessThan_Suc)
qed

lemma popped_ok_release:
  assumes "popped_ok H cl Qc out" and "r \<in> Qc" and "y = cl ! r"
  shows "popped_ok H cl (Qc - {r}) (out @ [(r, y)])"
  using assms by (auto simp: popped_ok_def)

lemma mpmc_core_claim_push:
  assumes core: "mpmc_core C s" and pc: "mq_pcs s t = MPush_Cas x w"
    and w: "mp_tail (mq_q s) = w" and b: "Suc (length (mq_claimed s)) + unat C < 2 ^ 63"
  shows "mpmc_core C (mpmc_moved t s (MPush_Write x w, (mq_q s)\<lparr>mp_tail := w + 1\<rparr>))"
proof -
  let ?T = "length (mq_claimed s)" and ?pcs' = "(mq_pcs s)(t := MPush_Write x w)"
  have T: "unat w = ?T" and T': "unat (w + 1) = Suc ?T"
    using mpmc_coreD(3) [OF core] w b by (auto simp: unat_inc)
  have seq: "seq_at (mq_q s) (?T mod unat C) = ?T"
    using mpmc_coreD(7) [OF core, of t] pc T by simp
  have T_new: "?T \<notin> pushing s"
    using cells_ok_pusher [OF mpmc_coreD(4) [OF core]] by blast
  have cl: "claims push_claim ?pcs' = insert ?T (pushing s)" "claims pop_claim ?pcs' = popping s"
    using pc T by (simp_all add: claims_add claims_same)
  have un: "claims_unique push_claim ?pcs'" "claims_unique pop_claim ?pcs'"
    using mpmc_coreD(5,6) [OF core] pc T T_new
    by (auto intro!: claims_unique_add [where p = ?T] simp: claims_same)
  have "mpmc_cells C ((mq_q s)\<lparr>mp_tail := w + 1\<rparr>) (mq_claimed s @ [x]) (insert ?T (pushing s)) (popping s)"
    using cells_claim_push [OF mpmc_coreD(4) [OF core] seq] by simp
  moreover have "mpmc_pc_ok C ((mq_q s)\<lparr>mp_tail := w + 1\<rparr>) (mq_claimed s @ [x]) (?pcs' u)" for u
    using pc_ok_claim_push [OF core] T by (cases "u = t") (auto simp: nth_append)
  moreover have "newly_claimed (mq_pcs s t) (MPush_Write x w) = [x]" "newly_popped (mq_pcs s t) = []"
    using pc by (simp_all add: newly_claimed_def newly_popped_def)
  ultimately show ?thesis
    using mpmc_coreD [OF core] T' cl un
    by (simp add: mpmc_core_def mpmc_moved_def popped_ok_claim_push)
qed

lemma mpmc_core_claim_pop:
  assumes core: "mpmc_core C s" and pc: "mq_pcs s t = MPop_Cas w"
    and w: "mp_head (mq_q s) = w" and b: "length (mq_claimed s) + unat C < 2 ^ 63"
  shows "mpmc_core C (mpmc_moved t s (MPop_Read w, (mq_q s)\<lparr>mp_head := w + 1\<rparr>))"
proof -
  let ?H = "unat w" and ?pcs' = "(mq_pcs s)(t := MPop_Read w)"
  have H': "unat (w + 1) = Suc ?H"
    using mpmc_coreD(9) [OF core] w b by (simp add: unat_inc)
  have seq: "seq_at (mq_q s) (unat (mp_head (mq_q s)) mod unat C) = Suc (unat (mp_head (mq_q s)))"
    using mpmc_coreD(7) [OF core, of t] pc w by simp
  have H_new: "?H \<notin> popping s"
    using cells_ok_popper [OF mpmc_coreD(4) [OF core]] w by blast
  have cl: "claims pop_claim ?pcs' = insert ?H (popping s)" "claims push_claim ?pcs' = pushing s"
    using pc by (simp_all add: claims_add claims_same)
  have un: "claims_unique push_claim ?pcs'" "claims_unique pop_claim ?pcs'"
    using mpmc_coreD(5,6) [OF core] pc H_new
    by (auto intro!: claims_unique_add [where p = ?H] simp: claims_same)
  have "mpmc_cells C ((mq_q s)\<lparr>mp_head := w + 1\<rparr>) (mq_claimed s) (pushing s) (insert ?H (popping s))"
    using cells_claim_pop [OF mpmc_coreD(4) [OF core] seq] w H' by simp
  moreover have "mpmc_pc_ok C ((mq_q s)\<lparr>mp_head := w + 1\<rparr>) (mq_claimed s) (?pcs' u)" for u
    using pc_ok_claim_pop [OF core, of u _ "w + 1"] H' w by (cases "u = t") auto
  moreover have "newly_claimed (mq_pcs s t) (MPop_Read w) = []" "newly_popped (mq_pcs s t) = []"
    using pc by (simp_all add: newly_claimed_def newly_popped_def)
  moreover have "popped_ok (Suc ?H) (mq_claimed s) (insert ?H (popping s)) (mq_popped s)"
    using mpmc_coreD(8) [OF core] w by (simp add: popped_ok_claim_pop)
  ultimately show ?thesis
    using mpmc_coreD [OF core] H' cl un by (simp add: mpmc_core_def mpmc_moved_def)
qed

lemma mpmc_core_write:
  assumes core: "mpmc_core C s" and pc: "mq_pcs s t = MPush_Write x w"
  shows "mpmc_core C (mpmc_moved t s (MPush_Publish x w, set_cell_data (cell_index C w) x (mq_q s)))"
proof -
  let ?pcs' = "(mq_pcs s)(t := MPush_Publish x w)" and ?i = "unat w mod unat C"
  note upd = cell_at_update [OF mpmc_coreD(10) [OF core, of "unat w"]]
  have claim: "unat w \<in> pushing s" "push_claim (mq_pcs s t) = Some (unat w)"
    using claimsI [of push_claim "mq_pcs s" t "unat w"] pc by auto
  have cl: "claims push_claim ?pcs' = pushing s" "claims pop_claim ?pcs' = popping s"
    "claims_unique push_claim ?pcs'" "claims_unique pop_claim ?pcs'"
    using pc mpmc_coreD(5,6) [OF core] by (simp_all add: claims_same)
  have "mpmc_pc_ok C (set_cell_data ?i x (mq_q s)) (mq_claimed s) (?pcs' u)" for u
    using pc_ok_write [OF core refl, of u t "unat w" x] claim mpmc_coreD(7) [OF core, of t] pc
    by (cases "u = t") (auto simp: upd)
  moreover have "mpmc_cells C (set_cell_data ?i x (mq_q s)) (mq_claimed s) (pushing s) (popping s)"
    using cells_write [OF mpmc_coreD(4) [OF core] claim(1)] by (simp add: upd)
  moreover have "newly_claimed (mq_pcs s t) (MPush_Publish x w) = []" "newly_popped (mq_pcs s t) = []"
    using pc by (simp_all add: newly_claimed_def newly_popped_def)
  ultimately show ?thesis
    using mpmc_coreD [OF core] cl by (simp add: mpmc_core_def mpmc_moved_def)
qed

lemma mpmc_core_publish:
  assumes core: "mpmc_core C s" and pc: "mq_pcs s t = MPush_Publish x w"
    and b: "length (mq_claimed s) + unat C < 2 ^ 63"
  shows "mpmc_core C (mpmc_moved t s (MPush_Ret True, set_cell_seq (cell_index C w) (w + 1) (mq_q s)))"
proof -
  let ?pcs' = "(mq_pcs s)(t := MPush_Ret True)" and ?i = "unat w mod unat C"
  note upd = cell_at_update [OF mpmc_coreD(10) [OF core, of "unat w"]]
  have claim: "unat w \<in> pushing s" "push_claim (mq_pcs s t) = Some (unat w)"
    using claimsI [of push_claim "mq_pcs s" t "unat w"] pc by auto
  have w': "unat (w + 1) = Suc (unat w)"
    using cells_ok_pusher [OF mpmc_coreD(4) [OF core] claim(1)] b by (simp add: unat_inc)
  have data: "data_at (mq_q s) ?i = mq_claimed s ! unat w"
    using mpmc_coreD(7) [OF core, of t] pc by simp
  have cl: "claims push_claim ?pcs' = pushing s - {unat w}" "claims pop_claim ?pcs' = popping s"
    "claims_unique push_claim ?pcs'" "claims_unique pop_claim ?pcs'"
    using pc mpmc_coreD(5,6) [OF core] claim by (simp_all add: claims_same claims_remove)
  have "mpmc_pc_ok C (set_cell_seq ?i (w + 1) (mq_q s)) (mq_claimed s) (?pcs' u)" for u
    using pc_ok_seq [OF core refl, of "unat w"] claim by (cases "u = t") auto
  moreover have "mpmc_cells C (set_cell_seq ?i (w + 1) (mq_q s)) (mq_claimed s)
      (pushing s - {unat w}) (popping s)"
    using cells_publish [OF mpmc_coreD(4) [OF core] claim(1) data] w' by (simp add: upd)
  moreover have "newly_claimed (mq_pcs s t) (MPush_Ret True) = []" "newly_popped (mq_pcs s t) = []"
    using pc by (simp_all add: newly_claimed_def newly_popped_def)
  ultimately show ?thesis
    using mpmc_coreD [OF core] cl by (simp add: mpmc_core_def mpmc_moved_def)
qed

lemma mpmc_core_release:
  assumes core: "mpmc_core C s" and pc: "mq_pcs s t = MPop_Release y w"
    and b: "length (mq_claimed s) + unat C < 2 ^ 63"
  shows "mpmc_core C (mpmc_moved t s
    (MPop_Ret (Some y), set_cell_seq (cell_index C w) (w + C) (mq_q s)))"
proof -
  let ?pcs' = "(mq_pcs s)(t := MPop_Ret (Some y))" and ?i = "unat w mod unat C"
  note upd = cell_at_update [OF mpmc_coreD(10) [OF core, of "unat w"]]
  have claim: "unat w \<in> popping s" "pop_claim (mq_pcs s t) = Some (unat w)"
    using claimsI [of pop_claim "mq_pcs s" t "unat w"] pc by auto
  have "unat w < unat (mp_head (mq_q s))"
    using cells_ok_popper [OF mpmc_coreD(4) [OF core] claim(1)] by simp
  then have w': "unat (w + C) = unat w + unat C"
    using mpmc_coreD(9) [OF core] b by (intro unat_add_no_wrap) simp
  have y: "y = mq_claimed s ! unat w" using mpmc_coreD(7) [OF core, of t] pc by simp
  have cl: "claims pop_claim ?pcs' = popping s - {unat w}" "claims push_claim ?pcs' = pushing s"
    "claims_unique push_claim ?pcs'" "claims_unique pop_claim ?pcs'"
    using pc mpmc_coreD(5,6) [OF core] claim by (simp_all add: claims_same claims_remove)
  have "mpmc_pc_ok C (set_cell_seq ?i (w + C) (mq_q s)) (mq_claimed s) (?pcs' u)" for u
    using pc_ok_seq [OF core refl, of "unat w"] claim by (cases "u = t") auto
  moreover have "mpmc_cells C (set_cell_seq ?i (w + C) (mq_q s)) (mq_claimed s)
      (pushing s) (popping s - {unat w})"
    using cells_release [OF mpmc_coreD(4) [OF core] claim(1)] w' by (simp add: upd)
  moreover have "newly_claimed (mq_pcs s t) (MPop_Ret (Some y)) = []"
    "newly_popped (mq_pcs s t) = [(unat w, y)]"
    using pc by (simp_all add: newly_claimed_def newly_popped_def)
  ultimately show ?thesis
    using mpmc_coreD [OF core] cl claim y
    by (simp add: mpmc_core_def mpmc_moved_def popped_ok_release)
qed

lemma mpmc_core_push_step:
  assumes core: "mpmc_core C s" and step: "mpmc_push_step C sp (mq_pcs s t) (mq_q s) = Some r"
    and b: "length (mq_claimed (mpmc_moved t s r)) + unat C < 2 ^ 63"
  shows "mpmc_core C (mpmc_moved t s r)"
proof -
  note T = mpmc_coreD(3) [OF core] and idx = mpmc_coreD(11) [OF core]
  note simps = newly_claimed_def newly_popped_def
  from b have b0: "length (mq_claimed s) + unat C < 2 ^ 63" by (simp add: mpmc_moved_def)
  show ?thesis
  proof (cases "mq_pcs s t")
    case (MPush_Load x)
    with step have "r = (MPush_Seq x (mp_tail (mq_q s)), mq_q s)" by simp
    then show ?thesis
      using MPush_Load T by (auto intro: mpmc_core_local [OF core] simp: simps)
  next
    case (MPush_Seq x w)
    have w: "unat w \<le> length (mq_claimed s)" using mpmc_coreD(7) [OF core, of t] MPush_Seq by simp
    consider "unat (cell_seq (mp_buffer (mq_q s) ! cell_index C w)) = unat w" "r = (MPush_Cas x w, mq_q s)"
      | "r = (MPush_Ret False, mq_q s)" | "r = (MPush_Load x, mq_q s)"
      using step MPush_Seq by (auto simp: Let_def intptr_diff_0 split: if_splits)
    then show ?thesis
    proof cases
      case 1
      then have "seq_at (mq_q s) (unat w mod unat C) = unat w" by (simp add: seq_at_def idx)
      with w 1(2) MPush_Seq show ?thesis
        by (auto intro!: mpmc_core_local [OF core] simp: simps)
    qed (use MPush_Seq in \<open>auto intro!: mpmc_core_local [OF core] simp: simps\<close>)
  next
    case (MPush_Cas x w)
    consider "mp_tail (mq_q s) = w" "r = (MPush_Write x w, (mq_q s)\<lparr>mp_tail := w + 1\<rparr>)"
      | "r = (MPush_Seq x (mp_tail (mq_q s)), mq_q s)"
      using step MPush_Cas by (auto simp: cas_weak_def split: if_splits)
    then show ?thesis
    proof cases
      case 1
      with b MPush_Cas have "Suc (length (mq_claimed s)) + unat C < 2 ^ 63"
        by (simp add: mpmc_moved_def simps)
      with 1 MPush_Cas show ?thesis by (auto intro: mpmc_core_claim_push [OF core])
    next
      case 2
      then show ?thesis
        using MPush_Cas T by (auto intro: mpmc_core_local [OF core] simp: simps)
    qed
  next
    case (MPush_Write x w)
    with step show ?thesis by (auto intro: mpmc_core_write [OF core])
  next
    case (MPush_Publish x w)
    with step b0 show ?thesis by (auto intro: mpmc_core_publish [OF core])
  qed (use step in simp_all)
qed

lemma mpmc_core_pop_step:
  assumes core: "mpmc_core C s" and step: "mpmc_pop_step C sp (mq_pcs s t) (mq_q s) = Some r"
    and b: "length (mq_claimed s) + unat C < 2 ^ 63"
  shows "mpmc_core C (mpmc_moved t s r)"
proof -
  note idx = mpmc_coreD(11) [OF core]
  note simps = newly_claimed_def newly_popped_def
  show ?thesis
  proof (cases "mq_pcs s t")
    case MPop_Load
    with step have "r = (MPop_Seq (mp_head (mq_q s)), mq_q s)" by simp
    then show ?thesis
      using MPop_Load by (auto intro: mpmc_core_local [OF core] simp: simps)
  next
    case (MPop_Seq w)
    have w: "unat w \<le> unat (mp_head (mq_q s))" using mpmc_coreD(7) [OF core, of t] MPop_Seq by simp
    then have w': "unat (w + 1) = Suc (unat w)"
      using mpmc_coreD(9) [OF core] b by (simp add: unat_inc)
    consider "unat (cell_seq (mp_buffer (mq_q s) ! cell_index C w)) = unat (w + 1)"
        "r = (MPop_Cas w, mq_q s)"
      | "r = (MPop_Ret None, mq_q s)" | "r = (MPop_Load, mq_q s)"
      using step MPop_Seq by (auto simp: Let_def intptr_diff_0 split: if_splits)
    then show ?thesis
    proof cases
      case 1
      then have "seq_at (mq_q s) (unat w mod unat C) = Suc (unat w)"
        using w' by (simp add: seq_at_def idx)
      with w 1(2) MPop_Seq show ?thesis
        by (auto intro!: mpmc_core_local [OF core] simp: simps)
    qed (use MPop_Seq in \<open>auto intro!: mpmc_core_local [OF core] simp: simps\<close>)
  next
    case (MPop_Cas w)
    consider "mp_head (mq_q s) = w" "r = (MPop_Read w, (mq_q s)\<lparr>mp_head := w + 1\<rparr>)"
      | "r = (MPop_Seq (mp_head (mq_q s)), mq_q s)"
      using step MPop_Cas by (auto simp: cas_weak_def split: if_splits)
    then show ?thesis
      using MPop_Cas b
      by cases (auto intro: mpmc_core_claim_pop [OF core] mpmc_core_local [OF core] simp: simps)
  next
    case (MPop_Read w)
    then have "data_at (mq_q s) (unat w mod unat C) = mq_claimed s ! unat w"
      using cells_ok_popper [OF mpmc_coreD(4) [OF core]] claimsI [of pop_claim "mq_pcs s" t] by simp
    with MPop_Read step show ?thesis
      by (auto intro!: mpmc_core_local [OF core] simp: simps data_at_def idx)
  next
    case (MPop_Release y w)
    with step b show ?thesis by (auto intro: mpmc_core_release [OF core])
  qed (use step in simp_all)
qed

lemma mpmc_moved_claimed: "length (mq_claimed s) \<le> length (mq_claimed (mpmc_moved t s r))"
  by (simp add: mpmc_moved_def)

lemma mpmc_inv_step:
  assumes "mpmc_inv C s" and "mpmc_step C l s = Some s'"
  shows "mpmc_inv C s'"
  unfolding mpmc_inv_def
proof
  assume b: "length (mq_claimed s') + unat C < 2 ^ 63"
  obtain t r where s': "s' = mpmc_moved t s r"
    using assms(2) by (cases l) (auto split: mpmc_pc.splits)
  then have b0: "length (mq_claimed s) + unat C < 2 ^ 63"
    using b mpmc_moved_claimed [of s t r] by simp
  with assms(1) have core: "mpmc_core C s" by (simp add: mpmc_inv_def)
  show "mpmc_core C s'"
  proof (cases l)
    case (MP_Push_Step u sp)
    with assms(2) b show ?thesis by (auto intro: mpmc_core_push_step [OF core])
  next
    case (MP_Pop_Step u sp)
    with assms(2) b0 show ?thesis by (auto intro: mpmc_core_pop_step [OF core])
  qed (use assms(2) in \<open>auto intro!: mpmc_core_local [OF core] split: mpmc_pc.splits
        simp: newly_claimed_def newly_popped_def\<close>)
qed

lemma claims_init [simp]: "claims push_claim (\<lambda>_. MP_Out) = {}" "claims pop_claim (\<lambda>_. MP_Out) = {}"
  by (simp_all add: claims_def)

lemma mpmc_inv_init:
  assumes "pow2_capacity C" and "2 \<le> unat C"
  shows "mpmc_inv C (mpmc_init C d)"
  unfolding mpmc_inv_def
proof
  assume "length (mq_claimed (mpmc_init C d)) + unat C < 2 ^ 63"
  then have "mpmc_rest C [] (mpmc_new C d)"
    using assms by (intro mpmc_rest_new) (simp_all add: mpmc_init_def)
  then show "mpmc_core C (mpmc_init C d)"
    by (simp add: mpmc_core_def mpmc_rest_def mpmc_init_def claims_unique_def popped_ok_def
        mpmc_new_def)
qed

interpretation mpmc_system: inductive_invariant "mpmc_step C" "mpmc_init C d"
  "\<lambda>s. pow2_capacity C \<and> 2 \<le> unat C \<longrightarrow> mpmc_inv C s"
  for C :: size_t and d :: 'a
  by unfold_locales (auto intro: mpmc_inv_init mpmc_inv_step)

lemma mpmc_reach_core:
  assumes "pow2_capacity C" and "2 \<le> unat C" and "reach (mpmc_step C) (mpmc_init C d) s"
    and "length (mq_claimed s) + unat C < 2 ^ 63"
  shows "mpmc_core C s"
  using mpmc_system.inv_reach [OF assms(3)] assms by (simp add: mpmc_inv_def)

section \<open>Properties\<close>

text \<open>
  C1. Under every interleaving of any number of producers and consumers of an \<open>MPMCQueue\<close>
  of at least two cells, fewer than \<open>2 ^ 63\<close> positions in, the item that a \<open>Pop\<close> hands out
  at the position it claimed is the item whose \<open>Push\<close> claimed that position; no position
  is popped twice, none is skipped, and at most \<open>Capacity\<close> claimed items are not yet
  claimed by a \<open>Pop\<close>. The queue is linearizable: both kinds of calls take effect in the
  order of their exchanges.
\<close>

theorem mpmc_fifo:
  assumes "pow2_capacity C" and "2 \<le> unat C" and "reach (mpmc_step C) (mpmc_init C d) s"
    and "length (mq_claimed s) + unat C < 2 ^ 63"
  shows "(\<forall>(p, y)\<in>set (mq_popped s). p < length (mq_claimed s) \<and> y = mq_claimed s ! p) \<and>
    distinct (map fst (mq_popped s)) \<and>
    fst ` set (mq_popped s) \<union> claims pop_claim (mq_pcs s) = {..<unat (mp_head (mq_q s))} \<and>
    length (mq_claimed s) \<le> unat (mp_head (mq_q s)) + unat C"
proof -
  have core: "mpmc_core C s" using assms by (rule mpmc_reach_core)
  note out = mpmc_coreD(8) [OF core, unfolded popped_ok_def] and H = mpmc_coreD(9) [OF core]
  have "p < length (mq_claimed s)" if "(p, y) \<in> set (mq_popped s)" for p y
  proof -
    have "p \<in> {..<unat (mp_head (mq_q s))}" using that out by force
    with H show ?thesis by simp
  qed
  then show ?thesis
    using out mpmc_coreD(4) [OF core] by (auto simp: cells_ok_def)
qed

text \<open>
  Two producers and a consumer on two cells. The second producer overtakes the first one,
  whose exchange fails, once spuriously, before it claims the second cell.
\<close>

definition mpmc_demo :: "nat mpmc_label list" where
  "mpmc_demo = [MP_Call_Push 1 10, MP_Call_Push 2 20, MP_Push_Step 1 False, MP_Push_Step 1 False,
    MP_Push_Step 2 False, MP_Push_Step 2 False, MP_Push_Step 2 False, MP_Push_Step 2 False,
    MP_Push_Step 2 False, MP_Push_Step 1 True, MP_Push_Step 1 False, MP_Push_Step 1 False,
    MP_Call_Pop 3, MP_Pop_Step 3 False, MP_Pop_Step 3 False, MP_Pop_Step 3 False]"

lemma mpmc_demo_run:
  "\<exists>s s' :: nat mpmc_sys. run (mpmc_step 2) mpmc_demo (mpmc_init 2 0) = Some s \<and>
     mq_claimed s = [20, 10] \<and> mq_pcs s 1 = MPush_Write 10 1 \<and> mq_pcs s 3 = MPop_Read 0 \<and>
     run (mpmc_step 2) [MP_Pop_Step 3 False, MP_Pop_Step 3 False] s = Some s' \<and>
     mq_popped s' = [(0, 20)] \<and> mq_claimed s' = [20, 10]"
  by (simp add: mpmc_demo_def mpmc_init_def mpmc_new_def mpmc_moved_def newly_claimed_def
      newly_popped_def Let_def cell_index_def intptr_diff_def cas_weak_def set_cell_data_def
      set_cell_seq_def)

lemma mpmc_demo_reach:
  obtains s s' :: "nat mpmc_sys" where "reach (mpmc_step 2) (mpmc_init 2 0) s"
    "mq_claimed s = [20, 10]" "mq_pcs s 1 = MPush_Write 10 1" "mq_pcs s 3 = MPop_Read 0"
    "reach (mpmc_step 2) (mpmc_init 2 0) s'" "mq_popped s' = [(0, 20)]" "mq_claimed s' = [20, 10]"
  using mpmc_demo_run run_reach reach_trans by (metis (no_types, lifting))

theorem mpmc_fifo_witness:
  "\<exists>s :: nat mpmc_sys. mq_popped s = [(0, 20)] \<and>
     (\<forall>(p, y)\<in>set (mq_popped s). p < length (mq_claimed s) \<and> y = mq_claimed s ! p)"
proof -
  obtain s :: "nat mpmc_sys" where s: "reach (mpmc_step 2) (mpmc_init 2 0) s"
    "mq_popped s = [(0, 20)]" "mq_claimed s = [20, 10]"
    by (rule mpmc_demo_reach)
  from s(1) have "\<forall>(p, y)\<in>set (mq_popped s). p < length (mq_claimed s) \<and> y = mq_claimed s ! p"
    by (rule mpmc_fifo [THEN conjunct1, rotated 2]) (simp_all add: pow2_capacity_def s(3))
  with s(2) show ?thesis by blast
qed

text \<open>The position whose cell a thread is about to write, or about to read.\<close>

fun writes_at :: "'a mpmc_pc \<Rightarrow> 64 word option" where
  "writes_at (MPush_Write x w) = Some w"
| "writes_at _ = None"

fun reads_at :: "'a mpmc_pc \<Rightarrow> 64 word option" where
  "reads_at (MPop_Read w) = Some w"
| "reads_at _ = None"

lemma writes_at_pushing: "writes_at (mq_pcs s t) = Some w \<Longrightarrow> push_claim (mq_pcs s t) = Some (unat w) \<and> unat w \<in> pushing s"
  using claimsI [of push_claim "mq_pcs s" t] by (cases "mq_pcs s t") auto

lemma reads_at_popping: "reads_at (mq_pcs s t) = Some w \<Longrightarrow> pop_claim (mq_pcs s t) = Some (unat w) \<and> unat w \<in> popping s"
  using claimsI [of pop_claim "mq_pcs s" t] by (cases "mq_pcs s t") auto

text \<open>
  C38. Under every interleaving of any number of producers and consumers of an \<open>MPMCQueue\<close>
  of at least two cells, fewer than \<open>2 ^ 63\<close> positions in, the items themselves are free of data
  races: a cell that a thread is about to write or to read is inside the array, and no other
  thread is about to write or to read the same cell.
\<close>

theorem mpmc_no_race:
  assumes "pow2_capacity C" and "2 \<le> unat C" and "reach (mpmc_step C) (mpmc_init C d) s"
    and "length (mq_claimed s) + unat C < 2 ^ 63"
    and "writes_at (mq_pcs s t) = Some w \<or> reads_at (mq_pcs s t) = Some w"
  shows "cell_index C w < length (mp_buffer (mq_q s)) \<and>
    (\<forall>u v. u \<noteq> t \<longrightarrow> writes_at (mq_pcs s u) = Some v \<or> reads_at (mq_pcs s u) = Some v \<longrightarrow>
      cell_index C v \<noteq> cell_index C w)"
proof (intro conjI allI impI)
  have core: "mpmc_core C s" using assms(1-4) by (rule mpmc_reach_core)
  note cells = mpmc_coreD(4) [OF core]
  show "cell_index C w < length (mp_buffer (mq_q s))" using mpmc_coreD(10,11) [OF core] by simp
  have mixed: "unat v mod unat C \<noteq> unat w mod unat C" if "unat w \<in> pushing s" "unat v \<in> popping s" for v w :: "64 word"
  proof
    assume eq: "unat v mod unat C = unat w mod unat C"
    then have "unat w = Suc (unat v)"
      using cells_ok_pusher [OF cells that(1)] cells_ok_popper [OF cells that(2)] by simp
    with eq assms(2) show False by (simp add: mod_Suc split: if_splits)
  qed
  fix u v assume u: "u \<noteq> t" "writes_at (mq_pcs s u) = Some v \<or> reads_at (mq_pcs s u) = Some v"
  note at = writes_at_pushing [of s] reads_at_popping [of s]
  have "unat v mod unat C \<noteq> unat w mod unat C"
    using assms(5) u(2)
  proof (elim disjE)
    assume rw: "writes_at (mq_pcs s t) = Some w" "writes_at (mq_pcs s u) = Some v"
    have "unat v \<noteq> unat w" using at(1) [OF rw(1)] at(1) [OF rw(2)] mpmc_coreD(5) [OF core] u(1) unfolding claims_unique_def by metis
    then show ?thesis using cells_ok_pusher [OF cells] at(1) [OF rw(1)] at(1) [OF rw(2)] by metis
  next
    assume rw: "reads_at (mq_pcs s t) = Some w" "reads_at (mq_pcs s u) = Some v"
    have "unat v \<noteq> unat w" using at(2) [OF rw(1)] at(2) [OF rw(2)] mpmc_coreD(6) [OF core] u(1) unfolding claims_unique_def by metis
    then show ?thesis using cells_ok_popper [OF cells] at(2) [OF rw(1)] at(2) [OF rw(2)] by (metis nat.inject)
  next
    assume "writes_at (mq_pcs s t) = Some w" "reads_at (mq_pcs s u) = Some v"
    then show ?thesis using mixed at by metis
  next
    assume "reads_at (mq_pcs s t) = Some w" "writes_at (mq_pcs s u) = Some v"
    then show ?thesis using mixed at by metis
  qed
  then show "cell_index C v \<noteq> cell_index C w" using mpmc_coreD(11) [OF core] by simp
qed

theorem mpmc_no_race_witness:
  "\<exists>s :: nat mpmc_sys. mq_pcs s 1 = MPush_Write 10 1 \<and> mq_pcs s 3 = MPop_Read 0 \<and>
     cell_index 2 1 < length (mp_buffer (mq_q s)) \<and> cell_index 2 0 \<noteq> cell_index 2 1"
proof -
  obtain s :: "nat mpmc_sys" where s: "reach (mpmc_step 2) (mpmc_init 2 0) s"
    "mq_claimed s = [20, 10]" "mq_pcs s 1 = MPush_Write 10 1" "mq_pcs s 3 = MPop_Read 0"
    by (rule mpmc_demo_reach)
  have w: "writes_at (mq_pcs s 1) = Some 1" using s(3) by simp
  have "cell_index 2 1 < length (mp_buffer (mq_q s)) \<and> (\<forall>u v. u \<noteq> 1 \<longrightarrow>
      writes_at (mq_pcs s u) = Some v \<or> reads_at (mq_pcs s u) = Some v \<longrightarrow> cell_index 2 v \<noteq> cell_index 2 1)"
    by (rule mpmc_no_race [OF _ _ s(1) _ disjI1 [OF w]]) (simp_all add: pow2_capacity_def s(2))
  moreover have "reads_at (mq_pcs s 3) = Some 0" using s(4) by simp
  ultimately have "cell_index 2 1 < length (mp_buffer (mq_q s)) \<and> cell_index 2 0 \<noteq> cell_index 2 1"
    by (metis numeral_eq_one_iff semiring_norm(86))
  with s(3,4) show ?thesis by blast
qed

end
