(* ===== verification/Monitor.thy ===== *)
theory Monitor
  imports Prelude
begin

text \<open>
  Critical sections and condition variables: the part of the Windows API that the classes
  \<open>CriticalSection\<close> (\<open>src/src/ezthread/mutex.cpp\<close>) and \<open>ConditionVariable\<close>
  (\<open>src/src/ezthread/condition.cpp\<close>) call, these classes, and threads that run methods
  which synchronise through them, interleaved at every statement.
\<close>

section \<open>The API as a parameter\<close>

definition ERROR_TIMEOUT :: dword where "ERROR_TIMEOUT = 1460"
definition INFINITE :: dword where "INFINITE = 0xFFFFFFFF"

text \<open>What \<open>SleepConditionVariableCS\<close> returns: \<open>TRUE\<close>, or \<open>FALSE\<close> with the last error.\<close>

datatype cv_result = Cv_True | Cv_False dword

text \<open>
  \<open>'c\<close> is the state of a \<open>CRITICAL_SECTION\<close> and \<open>'v\<close> the state of a
  \<open>CONDITION_VARIABLE\<close>. \<open>api_enter\<close> is \<open>None\<close> while the call blocks. \<open>api_owner\<close> observes
  the owning thread with the number of its further entries, \<open>api_asleep\<close> the threads that
  no wake has reached; \<open>api_returns\<close> says what a sleep with a time-out may return.
\<close>

record ('c, 'v) win_sync =
  api_init_cs :: 'c
  api_enter :: "tid \<Rightarrow> 'c \<Rightarrow> 'c option"
  api_try_enter :: "tid \<Rightarrow> 'c \<Rightarrow> bool \<times> 'c"
  api_leave :: "tid \<Rightarrow> 'c \<Rightarrow> 'c"
  api_owner :: "'c \<Rightarrow> (tid \<times> nat) option"
  api_init_cv :: 'v
  api_sleep :: "tid \<Rightarrow> 'v \<Rightarrow> 'v"
  api_awake :: "tid \<Rightarrow> 'v \<Rightarrow> 'v"
  api_wake_one :: "'v \<Rightarrow> 'v"
  api_wake_all :: "'v \<Rightarrow> 'v"
  api_asleep :: "'v \<Rightarrow> tid \<Rightarrow> bool"
  api_returns :: "dword \<Rightarrow> cv_result \<Rightarrow> bool"

text \<open>The documented behaviour of these calls.\<close>

definition entered :: "tid \<Rightarrow> (tid \<times> nat) option \<Rightarrow> (tid \<times> nat) option" where
  "entered t ow =
     (case ow of None \<Rightarrow> Some (t, 0) | Some (u, n) \<Rightarrow> if u = t then Some (t, Suc n) else None)"

definition left :: "(tid \<times> nat) option \<Rightarrow> (tid \<times> nat) option" where
  "left ow = (case ow of Some (t, Suc n) \<Rightarrow> Some (t, n) | _ \<Rightarrow> None)"

definition win_sync_ok :: "('c, 'v) win_sync \<Rightarrow> bool" where
  "win_sync_ok api \<longleftrightarrow>
     api_owner api (api_init_cs api) = None \<and>
     (\<forall>t c. map_option (api_owner api) (api_enter api t c) =
        (case entered t (api_owner api c) of None \<Rightarrow> None | Some ow \<Rightarrow> Some (Some ow))) \<and>
     (\<forall>t c. api_try_enter api t c =
        (case api_enter api t c of None \<Rightarrow> (False, c) | Some c' \<Rightarrow> (True, c'))) \<and>
     (\<forall>t n c. api_owner api c = Some (t, n) \<longrightarrow>
        api_owner api (api_leave api t c) = left (api_owner api c)) \<and>
     (\<forall>t. \<not> api_asleep api (api_init_cv api) t) \<and>
     (\<forall>t v. api_asleep api (api_sleep api t v) = (api_asleep api v)(t := True)) \<and>
     (\<forall>t v. api_asleep api (api_awake api t v) = (api_asleep api v)(t := False)) \<and>
     (\<forall>v t. \<not> api_asleep api (api_wake_all api v) t) \<and>
     (\<forall>v. (\<forall>t. \<not> api_asleep api v t) \<and> api_asleep api (api_wake_one api v) = api_asleep api v \<or>
        (\<exists>t. api_asleep api v t \<and> api_asleep api (api_wake_one api v) = (api_asleep api v)(t := False))) \<and>
     (\<forall>e. api_returns api INFINITE (Cv_False e) \<longrightarrow> e \<noteq> ERROR_TIMEOUT)"

text \<open>
  What the sleeps of a run return: \<open>ret ms r\<close> bounds the result \<open>r\<close> of a sleep with the
  time-out \<open>ms\<close>. In a run without time-outs and failures every sleep returns \<open>TRUE\<close>.
\<close>

definition sleeps_within :: "('c, 'v) win_sync \<Rightarrow> (dword \<Rightarrow> cv_result \<Rightarrow> bool) \<Rightarrow> bool" where
  "sleeps_within api ret \<longleftrightarrow> (\<forall>ms r. api_returns api ms r \<longrightarrow> ret ms r)"

definition only_wakes :: "dword \<Rightarrow> cv_result \<Rightarrow> bool" where
  "only_wakes ms r \<longleftrightarrow> r = Cv_True"

definition any_return :: "dword \<Rightarrow> cv_result \<Rightarrow> bool" where
  "any_return ms r \<longleftrightarrow> True"

lemma sleeps_within_any [simp]: "sleeps_within api any_return"
  by (simp add: sleeps_within_def any_return_def)

text \<open>An instance: an owner with its count, and a first-in-first-out list of sleepers.\<close>

definition fifo_sync :: "((tid \<times> nat) option, tid list) win_sync" where
  "fifo_sync = \<lparr>
     api_init_cs = None,
     api_enter = (\<lambda>t c. case entered t c of None \<Rightarrow> None | Some ow \<Rightarrow> Some (Some ow)),
     api_try_enter = (\<lambda>t c. case entered t c of None \<Rightarrow> (False, c) | Some ow \<Rightarrow> (True, Some ow)),
     api_leave = (\<lambda>t c. left c),
     api_owner = (\<lambda>c. c),
     api_init_cv = [],
     api_sleep = (\<lambda>t v. removeAll t v @ [t]),
     api_awake = (\<lambda>t v. removeAll t v),
     api_wake_one = (\<lambda>v. case v of [] \<Rightarrow> [] | t # _ \<Rightarrow> removeAll t v),
     api_wake_all = (\<lambda>v. []),
     api_asleep = (\<lambda>v t. t \<in> set v),
     api_returns = (\<lambda>ms r. r = Cv_True \<or> ms \<noteq> INFINITE \<and> r = Cv_False ERROR_TIMEOUT)\<rparr>"

lemma fifo_sync_ok [simp]: "win_sync_ok fifo_sync"
proof -
  have "(\<forall>t. t \<notin> set v) \<and> (\<lambda>t. t \<in> set (case v of [] \<Rightarrow> [] | t # _ \<Rightarrow> removeAll t v)) = (\<lambda>t. t \<in> set v) \<or>
      (\<exists>t. t \<in> set v \<and> (\<lambda>u. u \<in> set (case v of [] \<Rightarrow> [] | t # _ \<Rightarrow> removeAll t v)) =
        (\<lambda>u. u \<in> set v)(t := False))" for v :: "tid list"
    by (cases v) (auto simp: fun_eq_iff)
  then show ?thesis
    by (auto simp: win_sync_ok_def fifo_sync_def fun_eq_iff split: option.splits)
qed

text \<open>The same instance for runs without time-outs and failures.\<close>

definition patient_sync :: "((tid \<times> nat) option, tid list) win_sync" where
  "patient_sync = fifo_sync\<lparr>api_returns := only_wakes\<rparr>"

lemma patient_sync_ok [simp]: "win_sync_ok patient_sync" "sleeps_within patient_sync only_wakes"
  using fifo_sync_ok unfolding win_sync_ok_def patient_sync_def
  by (simp_all add: sleeps_within_def only_wakes_def)

section \<open>The classes\<close>

text \<open>\<open>CriticalSection::Lock\<close>, \<open>TryLock\<close> and \<open>Unlock\<close>, and the two ends of a \<open>ScopedLock\<close>.\<close>

definition cs_Lock :: "('c, 'v) win_sync \<Rightarrow> tid \<Rightarrow> 'c \<Rightarrow> 'c option" where
  "cs_Lock api t c = api_enter api t c"

definition cs_TryLock :: "('c, 'v) win_sync \<Rightarrow> tid \<Rightarrow> 'c \<Rightarrow> bool \<times> 'c" where
  "cs_TryLock api t c = api_try_enter api t c"

definition cs_Unlock :: "('c, 'v) win_sync \<Rightarrow> tid \<Rightarrow> 'c \<Rightarrow> 'c" where
  "cs_Unlock api t c = api_leave api t c"

definition scoped_lock :: "('c, 'v) win_sync \<Rightarrow> tid \<Rightarrow> 'c \<Rightarrow> 'c option" where
  "scoped_lock api t c = cs_Lock api t c"

definition scoped_unlock :: "('c, 'v) win_sync \<Rightarrow> tid \<Rightarrow> 'c \<Rightarrow> 'c" where
  "scoped_unlock api t c = cs_Unlock api t c"

text \<open>
  What the two waiting methods of \<open>ConditionVariable\<close> make of the result of the API call.
  \<open>fmt\<close> stands for the message that \<open>snprintf\<close> builds from the error number.
\<close>

definition cv_Wait :: "(dword \<Rightarrow> string) \<Rightarrow> cv_result \<Rightarrow> ('x, unit) result" where
  "cv_Wait fmt r = (case r of Cv_True \<Rightarrow> Inr () | Cv_False e \<Rightarrow> Inl (Thread_Exn (fmt e) e))"

definition cv_WaitFor :: "cv_result \<Rightarrow> ('x, bool) result" where
  "cv_WaitFor r =
     (case r of
        Cv_True \<Rightarrow> Inr True
      | Cv_False e \<Rightarrow> if e = ERROR_TIMEOUT then Inr False
          else Inl (Thread_Exn ''SleepConditionVariableCS failed'' e))"

text \<open>
  The classes above wait in two ways: \<open>Wait\<close> without limit, and \<open>WaitFor\<close>. The result is
  an exception, or whether the sleep ended by a wake.
\<close>

datatype wait_mode = Forever | Within dword

fun wait_timeout :: "wait_mode \<Rightarrow> dword" where
  "wait_timeout Forever = INFINITE"
| "wait_timeout (Within ms) = ms"

fun cv_waited :: "(dword \<Rightarrow> string) \<Rightarrow> wait_mode \<Rightarrow> cv_result \<Rightarrow> ('x, bool) result" where
  "cv_waited fmt Forever r = (case cv_Wait fmt r of Inl e \<Rightarrow> Inl e | Inr u \<Rightarrow> Inr True)"
| "cv_waited fmt (Within ms) r = cv_WaitFor r"

lemma cv_waited_True [simp]: "cv_waited fmt md Cv_True = Inr True"
  by (cases md) (simp_all add: cv_Wait_def cv_WaitFor_def)

lemma cv_waited_wake: "cv_waited fmt md r = Inr True \<longleftrightarrow> r = Cv_True"
  by (cases md) (auto simp: cv_Wait_def cv_WaitFor_def split: cv_result.splits)

text \<open>What a call gives back: nothing, a flag, or an exception.\<close>

datatype 'x call_result = Ret_Void | Ret_Bool bool | Ret_Throw "'x exn"

fun wait_success :: "wait_mode \<Rightarrow> 'x call_result" where
  "wait_success Forever = Ret_Void"
| "wait_success (Within ms) = Ret_Bool True"

definition cv_NotifyOne :: "('c, 'v) win_sync \<Rightarrow> 'v \<Rightarrow> 'v" where
  "cv_NotifyOne api v = api_wake_one api v"

definition cv_NotifyAll :: "('c, 'v) win_sync \<Rightarrow> 'v \<Rightarrow> 'v" where
  "cv_NotifyAll api v = api_wake_all api v"

section \<open>Threads\<close>

text \<open>
  A method is a set of program points \<open>'k\<close>, which hold its local variables. At a point it
  reads and writes the shared data once and then goes on: to another point, into or out of
  the critical section of the object \<open>'m\<close>, to sleep on its condition variable, past a wake
  of that variable, or out of the method.
\<close>

datatype ('m, 'k) instr =
    I_Goto 'k
  | I_Enter 'm 'k
  | I_Leave 'm 'k
  | I_Sleep 'm dword "cv_result \<Rightarrow> 'k"
  | I_Wake_One 'm 'k
  | I_Wake_All 'm 'k
  | I_Finish 'k

datatype ('m, 'k) thread_pc =
    T_Idle
  | T_At 'k
  | T_Entering 'm 'k
  | T_Asleep 'm dword "cv_result \<Rightarrow> 'k"
  | T_Ended 'k

fun pc_after :: "('m, 'k) instr \<Rightarrow> ('m, 'k) thread_pc" where
  "pc_after (I_Goto k) = T_At k"
| "pc_after (I_Enter m k) = T_Entering m k"
| "pc_after (I_Leave m k) = T_At k"
| "pc_after (I_Sleep m ms f) = T_Asleep m ms f"
| "pc_after (I_Wake_One m k) = T_At k"
| "pc_after (I_Wake_All m k) = T_At k"
| "pc_after (I_Finish k) = T_Ended k"

text \<open>The state; \<open>mon_log\<close> is history, the program points executed so far.\<close>

record ('c, 'v, 'm, 'k, 's) mon =
  mon_cs :: "'m \<Rightarrow> 'c"
  mon_cv :: "'m \<Rightarrow> 'v"
  mon_data :: 's
  mon_pcs :: "tid \<Rightarrow> ('m, 'k) thread_pc"
  mon_log :: "(tid \<times> 'k) list"

type_synonym ('m, 'k, 's) fifo_mon = "((tid \<times> nat) option, tid list, 'm, 'k, 's) mon"

datatype 'k mon_label =
    M_Call tid 'k
  | M_Enter tid
  | M_Run tid
  | M_Woken tid cv_result

text \<open>
  \<open>SleepConditionVariableCS\<close> releases the critical section and sleeps in one step, and
  returns only once it owns the critical section again.
\<close>

fun instr_effect ::
  "('c, 'v) win_sync \<Rightarrow> tid \<Rightarrow> ('m, 'k) instr \<Rightarrow> ('c, 'v, 'm, 'k, 's) mon \<Rightarrow> ('c, 'v, 'm, 'k, 's) mon" where
  "instr_effect api t (I_Leave m k) s = s\<lparr>mon_cs := (mon_cs s)(m := scoped_unlock api t (mon_cs s m))\<rparr>"
| "instr_effect api t (I_Sleep m ms f) s =
     s\<lparr>mon_cs := (mon_cs s)(m := api_leave api t (mon_cs s m)),
       mon_cv := (mon_cv s)(m := api_sleep api t (mon_cv s m))\<rparr>"
| "instr_effect api t (I_Wake_One m k) s = s\<lparr>mon_cv := (mon_cv s)(m := cv_NotifyOne api (mon_cv s m))\<rparr>"
| "instr_effect api t (I_Wake_All m k) s = s\<lparr>mon_cv := (mon_cv s)(m := cv_NotifyAll api (mon_cv s m))\<rparr>"
| "instr_effect api t _ s = s"

fun mon_step ::
  "('c, 'v) win_sync \<Rightarrow> ('k \<Rightarrow> bool) \<Rightarrow> ('k \<Rightarrow> 's \<Rightarrow> 's \<times> ('m, 'k) instr) \<Rightarrow> 'k mon_label \<Rightarrow>
   ('c, 'v, 'm, 'k, 's) mon \<Rightarrow> ('c, 'v, 'm, 'k, 's) mon option" where
  "mon_step api start prog (M_Call t k) s =
     (case mon_pcs s t of
        T_Idle \<Rightarrow> if start k then Some (s\<lparr>mon_pcs := (mon_pcs s)(t := T_At k)\<rparr>) else None
      | T_Ended k' \<Rightarrow> if start k then Some (s\<lparr>mon_pcs := (mon_pcs s)(t := T_At k)\<rparr>) else None
      | _ \<Rightarrow> None)"
| "mon_step api start prog (M_Enter t) s =
     (case mon_pcs s t of
        T_Entering m k \<Rightarrow>
          (case scoped_lock api t (mon_cs s m) of
             None \<Rightarrow> None
           | Some c \<Rightarrow> Some (s\<lparr>mon_cs := (mon_cs s)(m := c), mon_pcs := (mon_pcs s)(t := T_At k)\<rparr>))
      | _ \<Rightarrow> None)"
| "mon_step api start prog (M_Run t) s =
     (case mon_pcs s t of
        T_At k \<Rightarrow>
          (case prog k (mon_data s) of
             (d, i) \<Rightarrow> Some ((instr_effect api t i s)\<lparr>mon_data := d,
               mon_pcs := (mon_pcs s)(t := pc_after i), mon_log := mon_log s @ [(t, k)]\<rparr>))
      | _ \<Rightarrow> None)"
| "mon_step api start prog (M_Woken t r) s =
     (case mon_pcs s t of
        T_Asleep m ms f \<Rightarrow>
          if api_returns api ms r
          then Some (s\<lparr>mon_cv := (mon_cv s)(m := api_awake api t (mon_cv s m)),
                 mon_pcs := (mon_pcs s)(t := T_Entering m (f r))\<rparr>)
          else None
      | _ \<Rightarrow> None)"

definition mon_init :: "('c, 'v) win_sync \<Rightarrow> 's \<Rightarrow> ('c, 'v, 'm, 'k, 's) mon" where
  "mon_init api s0 = \<lparr>mon_cs = (\<lambda>_. api_init_cs api), mon_cv = (\<lambda>_. api_init_cv api), mon_data = s0,
     mon_pcs = (\<lambda>_. T_Idle), mon_log = []\<rparr>"

lemmas sync_run_simps = patient_sync_def fifo_sync_def only_wakes_def entered_def left_def
  scoped_lock_def scoped_unlock_def cs_Lock_def cs_Unlock_def cv_NotifyOne_def cv_NotifyAll_def
  cv_Wait_def cv_WaitFor_def mon_init_def INFINITE_def ERROR_TIMEOUT_def

text \<open>A property of each executed statement and the history before it.\<close>

definition log_ok :: "((tid \<times> 'k) list \<Rightarrow> 'k \<Rightarrow> bool) \<Rightarrow> (tid \<times> 'k) list \<Rightarrow> bool" where
  "log_ok P lg \<longleftrightarrow> (\<forall>i < length lg. P (take i lg) (snd (lg ! i)))"

lemma log_ok_simps [simp]:
  "log_ok P []"
  "log_ok P (lg @ [x]) \<longleftrightarrow> log_ok P lg \<and> P lg (snd x)"
  by (auto simp: log_ok_def nth_append less_Suc_eq)

text \<open>Only a statement extends the history, by its program point.\<close>

lemma mon_step_log:
  assumes "mon_step api start prog l s = Some s'"
  obtains "mon_log s' = mon_log s"
    | t k where "l = M_Run t" "mon_pcs s t = T_At k" "mon_log s' = mon_log s @ [(t, k)]"
  using assms by (cases l) (auto split: thread_pc.splits option.splits prod.splits if_splits)

text \<open>
  A property of the point that each thread is at, or goes on from, and of the history: it is kept
  when every statement hands it on to the next point of its thread and leaves it to the others.
\<close>

fun at_points :: "('k \<Rightarrow> bool) \<Rightarrow> ('m, 'k) thread_pc \<Rightarrow> bool" where
  "at_points P (T_At k) \<longleftrightarrow> P k"
| "at_points P (T_Entering m k) \<longleftrightarrow> P k"
| "at_points P (T_Asleep m ms f) \<longleftrightarrow> (\<forall>r. P (f r))"
| "at_points P _ \<longleftrightarrow> True"

lemma at_points_mono: "at_points P pc \<Longrightarrow> (\<And>k. P k \<Longrightarrow> P' k) \<Longrightarrow> at_points P' pc"
  by (cases pc) auto

lemma mon_step_points:
  assumes step: "mon_step api start prog l s = Some s'"
    and old: "\<And>t. at_points (P (mon_log s) t) (mon_pcs s t)"
    and start: "\<And>t k. start k \<Longrightarrow> P (mon_log s) t k"
    and run: "\<And>t k. mon_pcs s t = T_At k \<Longrightarrow> mon_log s' = mon_log s @ [(t, k)] \<Longrightarrow>
      mon_data s' = fst (prog k (mon_data s)) \<Longrightarrow> P (mon_log s) t k \<Longrightarrow>
      at_points (P (mon_log s') t) (pc_after (snd (prog k (mon_data s))))"
    and others: "\<And>t u k k'. u \<noteq> t \<Longrightarrow> mon_pcs s t = T_At k \<Longrightarrow> mon_log s' = mon_log s @ [(t, k)] \<Longrightarrow>
      P (mon_log s) u k' \<Longrightarrow> P (mon_log s') u k'"
  shows "at_points (P (mon_log s') t) (mon_pcs s' t)"
proof (cases l)
  case (M_Run u)
  then obtain k d i where k: "mon_pcs s u = T_At k" "prog k (mon_data s) = (d, i)"
    and s': "mon_pcs s' = (mon_pcs s)(u := pc_after i)" "mon_data s' = d" "mon_log s' = mon_log s @ [(u, k)]"
    using step by (cases "mon_pcs s u") (auto split: prod.splits)
  show ?thesis
  proof (cases "t = u")
    case True
    have "P (mon_log s) u k" using old [of u] k(1) by simp
    with run [of u k] k s' True show ?thesis by simp
  next
    case False
    with s'(1) have "mon_pcs s' t = mon_pcs s t" by simp
    with old [of t] others [OF False k(1) s'(3)] show ?thesis by (metis at_points_mono)
  qed
next
  case (M_Call u k)
  then have "mon_pcs s' = (mon_pcs s)(u := T_At k)" "mon_log s' = mon_log s" "start k"
    using step by (auto split: thread_pc.splits if_splits)
  with old start show ?thesis by simp
next
  case (M_Enter u)
  then obtain m k where "mon_pcs s u = T_Entering m k" "mon_pcs s' = (mon_pcs s)(u := T_At k)"
    "mon_log s' = mon_log s"
    using step by (auto split: thread_pc.splits option.splits)
  with old [of t] old [of u] show ?thesis by simp
next
  case (M_Woken u r)
  then obtain m ms f where "mon_pcs s u = T_Asleep m ms f" "mon_pcs s' = (mon_pcs s)(u := T_Entering m (f r))"
    "mon_log s' = mon_log s"
    using step by (auto split: thread_pc.splits if_splits)
  with old [of t] old [of u] show ?thesis by simp
qed

section \<open>The contract of a program of threads\<close>

text \<open>
  \<open>holds k\<close> is the critical section that a thread at \<open>k\<close> is in; a program that keeps the
  lock discipline enters, leaves and sleeps accordingly.
\<close>

fun disciplined :: "('k \<Rightarrow> 'm option) \<Rightarrow> 'k \<Rightarrow> ('m, 'k) instr \<Rightarrow> bool" where
  "disciplined holds k (I_Goto k') \<longleftrightarrow> holds k' = holds k"
| "disciplined holds k (I_Enter m k') \<longleftrightarrow> holds k = None \<and> holds k' = Some m"
| "disciplined holds k (I_Leave m k') \<longleftrightarrow> holds k = Some m \<and> holds k' = None"
| "disciplined holds k (I_Sleep m ms f) \<longleftrightarrow> holds k = Some m \<and> (\<forall>r. holds (f r) = Some m)"
| "disciplined holds k (I_Wake_One m k') \<longleftrightarrow> holds k' = holds k"
| "disciplined holds k (I_Wake_All m k') \<longleftrightarrow> holds k' = holds k"
| "disciplined holds k (I_Finish k') \<longleftrightarrow> holds k = None"

definition inside :: "('k \<Rightarrow> 'm option) \<Rightarrow> 'm \<Rightarrow> ('m, 'k) thread_pc \<Rightarrow> bool" where
  "inside holds m pc \<longleftrightarrow> (\<exists>k. pc = T_At k \<and> holds k = Some m)"

lemma inside_simps [simp]:
  "\<not> inside holds m T_Idle" "inside holds m (T_At k) \<longleftrightarrow> holds k = Some m"
  "\<not> inside holds m (T_Entering m' k)" "\<not> inside holds m (T_Asleep m' ms f)"
  "\<not> inside holds m (T_Ended k)"
  by (simp_all add: inside_def)

lemma not_Some_unit [simp]: "x \<noteq> Some () \<longleftrightarrow> x = None"
  by (cases x) auto

text \<open>The sleepers of each variable after an instruction, with any choice of a wake of one.\<close>

fun sleepers_after ::
  "tid \<Rightarrow> ('m, 'k) instr \<Rightarrow> ('m \<Rightarrow> tid \<Rightarrow> bool) \<Rightarrow> ('m \<Rightarrow> tid \<Rightarrow> bool) \<Rightarrow> bool" where
  "sleepers_after t (I_Sleep m ms f) A A' \<longleftrightarrow> A' = A(m := (A m)(t := True))"
| "sleepers_after t (I_Wake_One m k) A A' \<longleftrightarrow>
     (\<forall>u. \<not> A m u) \<and> A' = A \<or> (\<exists>u. A m u \<and> A' = A(m := (A m)(u := False)))"
| "sleepers_after t (I_Wake_All m k) A A' \<longleftrightarrow> A' = A(m := \<lambda>_. False)"
| "sleepers_after t _ A A' \<longleftrightarrow> A' = A"

definition mon_asleep :: "('c, 'v) win_sync \<Rightarrow> ('c, 'v, 'm, 'k, 's) mon \<Rightarrow> 'm \<Rightarrow> tid \<Rightarrow> bool" where
  "mon_asleep api s m t \<longleftrightarrow> api_asleep api (mon_cv s m) t"

definition mon_locks ::
  "('c, 'v) win_sync \<Rightarrow> ('k \<Rightarrow> 'm option) \<Rightarrow> ('c, 'v, 'm, 'k, 's) mon \<Rightarrow> bool" where
  "mon_locks api holds s \<longleftrightarrow>
     (\<forall>m u. inside holds m (mon_pcs s u) \<longleftrightarrow> api_owner api (mon_cs s m) = Some (u, 0)) \<and>
     (\<forall>m u n. api_owner api (mon_cs s m) = Some (u, n) \<longrightarrow> n = 0) \<and>
     (\<forall>t m k. mon_pcs s t = T_Entering m k \<longrightarrow> holds k = Some m) \<and>
     (\<forall>t m ms f r. mon_pcs s t = T_Asleep m ms f \<longrightarrow> holds (f r) = Some m)"

lemma mon_init_asleep: "win_sync_ok api \<Longrightarrow> mon_asleep api (mon_init api s0) = (\<lambda>_ _. False)"
  by (auto simp: mon_asleep_def fun_eq_iff mon_init_def win_sync_ok_def)

lemma mon_init_locks: "win_sync_ok api \<Longrightarrow> mon_locks api holds (mon_init api s0)"
proof -
  assume "win_sync_ok api"
  then have "api_owner api (api_init_cs api) = None" by (simp add: win_sync_ok_def)
  then show ?thesis by (simp add: mon_locks_def mon_init_def)
qed

text \<open>
  A program: the points where a call may start, its statements, the lock discipline, what a
  sleep may return, the initial data, and an invariant \<open>J\<close> of the data, the threads, the
  history and the sleepers. A statement inside a critical section may rely on being alone
  there, an entry on finding it free.
\<close>

locale thread_program =
  fixes start :: "'k \<Rightarrow> bool"
    and prog :: "'k \<Rightarrow> 's \<Rightarrow> 's \<times> ('m, 'k) instr"
    and holds :: "'k \<Rightarrow> 'm option"
    and ret :: "dword \<Rightarrow> cv_result \<Rightarrow> bool"
    and s0 :: 's
    and J :: "'s \<Rightarrow> (tid \<Rightarrow> ('m, 'k) thread_pc) \<Rightarrow> (tid \<times> 'k) list \<Rightarrow> ('m \<Rightarrow> tid \<Rightarrow> bool) \<Rightarrow> bool"
  assumes start_free: "start k \<Longrightarrow> holds k = None"
    and prog_disciplined: "disciplined holds k (snd (prog k d))"
    and J_init: "J s0 (\<lambda>_. T_Idle) [] (\<lambda>_ _. False)"
    and J_call: "J d pcs lg A \<Longrightarrow> pcs t = T_Idle \<or> pcs t = T_Ended k' \<Longrightarrow> start k \<Longrightarrow>
      J d (pcs(t := T_At k)) lg A"
    and J_enter: "J d pcs lg A \<Longrightarrow> pcs t = T_Entering m k \<Longrightarrow> holds k = Some m \<Longrightarrow>
      (\<And>u. \<not> inside holds m (pcs u)) \<Longrightarrow> J d (pcs(t := T_At k)) lg A"
    and J_run: "J d pcs lg A \<Longrightarrow> pcs t = T_At k \<Longrightarrow>
      (\<And>m u. holds k = Some m \<Longrightarrow> u \<noteq> t \<Longrightarrow> \<not> inside holds m (pcs u)) \<Longrightarrow>
      prog k d = (d', i) \<Longrightarrow> sleepers_after t i A A' \<Longrightarrow>
      J d' (pcs(t := pc_after i)) (lg @ [(t, k)]) A'"
    and J_woken: "J d pcs lg A \<Longrightarrow> pcs t = T_Asleep m ms f \<Longrightarrow> ret ms r \<Longrightarrow>
      J d (pcs(t := T_Entering m (f r))) lg (A(m := (A m)(t := False)))"
begin

definition mon_inv :: "('c, 'v) win_sync \<Rightarrow> ('c, 'v, 'm, 'k, 's) mon \<Rightarrow> bool" where
  "mon_inv api s \<longleftrightarrow> mon_locks api holds s \<and>
     J (mon_data s) (mon_pcs s) (mon_log s) (mon_asleep api s)"

text \<open>The critical sections are owned by the threads that are inside them, each entered once.\<close>

lemma locks_free:
  assumes "mon_locks api holds s" and "win_sync_ok api" and "scoped_lock api t (mon_cs s m) = Some c"
    and "\<not> inside holds m (mon_pcs s t)"
  shows "(\<forall>u. \<not> inside holds m (mon_pcs s u)) \<and> api_owner api c = Some (t, 0)"
proof -
  have acq: "Some (api_owner api c) = (case entered t (api_owner api (mon_cs s m)) of
      None \<Rightarrow> None | Some ow \<Rightarrow> Some (Some ow))"
    using assms(2,3) unfolding win_sync_ok_def scoped_lock_def cs_Lock_def by (metis option.map(2))
  have locks: "\<And>u. inside holds m (mon_pcs s u) \<longleftrightarrow> api_owner api (mon_cs s m) = Some (u, 0)"
    "\<And>u n. api_owner api (mon_cs s m) = Some (u, n) \<Longrightarrow> n = 0"
    using assms(1) unfolding mon_locks_def by blast+
  have "api_owner api (mon_cs s m) = None"
  proof (rule ccontr)
    assume "api_owner api (mon_cs s m) \<noteq> None"
    then obtain u n where ow: "api_owner api (mon_cs s m) = Some (u, n)" by auto
    with locks assms(4) have "u \<noteq> t" by blast
    with acq ow show False by (simp add: entered_def)
  qed
  with locks(1) acq show ?thesis by (simp add: entered_def)
qed

lemma locks_owner:
  assumes "mon_locks api holds s" and "inside holds m (mon_pcs s t)"
  shows "api_owner api (mon_cs s m) = Some (t, 0)" and "inside holds m (mon_pcs s u) \<Longrightarrow> u = t"
proof -
  have "\<forall>u. inside holds m (mon_pcs s u) \<longleftrightarrow> api_owner api (mon_cs s m) = Some (u, 0)"
    using assms(1) unfolding mon_locks_def by blast
  with assms(2) show "api_owner api (mon_cs s m) = Some (t, 0)"
    and "inside holds m (mon_pcs s u) \<Longrightarrow> u = t"
    by auto
qed

lemma locks_leave:
  assumes "mon_locks api holds s" and "win_sync_ok api" and "inside holds m (mon_pcs s t)"
  shows "api_owner api (api_leave api t (mon_cs s m)) = None"
proof -
  note own = locks_owner(1) [OF assms(1,3)]
  then have "api_owner api (api_leave api t (mon_cs s m)) = left (api_owner api (mon_cs s m))"
    using assms(2) unfolding win_sync_ok_def by blast
  with own show ?thesis by (simp add: left_def)
qed

text \<open>A thread goes on without changing what it holds.\<close>

lemma locks_same:
  assumes "mon_locks api holds s" and "mon_cs s' = mon_cs s" and "mon_pcs s' = (mon_pcs s)(t := pc)"
    and "\<And>m. inside holds m pc \<longleftrightarrow> inside holds m (mon_pcs s t)"
    and "\<And>m k. pc = T_Entering m k \<Longrightarrow> holds k = Some m"
    and "\<And>m ms f r. pc = T_Asleep m ms f \<Longrightarrow> holds (f r) = Some m"
  shows "mon_locks api holds s'"
proof -
  have "inside holds m (mon_pcs s' u) \<longleftrightarrow> inside holds m (mon_pcs s u)" for m u
    using assms(3,4) by simp
  moreover have "\<forall>t m k. mon_pcs s' t = T_Entering m k \<longrightarrow> holds k = Some m"
    "\<forall>t m ms f r. mon_pcs s' t = T_Asleep m ms f \<longrightarrow> holds (f r) = Some m"
    using assms(1,3,5,6) by (simp_all add: mon_locks_def)
  ultimately show ?thesis
    using assms(1,2) by (simp add: mon_locks_def)
qed

text \<open>A thread enters, or leaves, a critical section.\<close>

lemma locks_change:
  assumes "mon_locks api holds s" and "mon_cs s' = (mon_cs s)(m := c)"
    and "mon_pcs s' = (mon_pcs s)(t := pc)"
    and "\<And>m'. m' \<noteq> m \<Longrightarrow> \<not> inside holds m' pc \<and> \<not> inside holds m' (mon_pcs s t)"
    and "\<And>u. u \<noteq> t \<Longrightarrow> \<not> inside holds m (mon_pcs s u)"
    and "api_owner api c = (if inside holds m pc then Some (t, 0) else None)"
    and "\<And>m k. pc = T_Entering m k \<Longrightarrow> holds k = Some m"
    and "\<And>m ms f r. pc = T_Asleep m ms f \<Longrightarrow> holds (f r) = Some m"
  shows "mon_locks api holds s'"
proof -
  have other: "inside holds m' (mon_pcs s' u) \<longleftrightarrow> inside holds m' (mon_pcs s u)" if "m' \<noteq> m" for m' u
    using assms(3,4) that by simp
  have this_m: "inside holds m (mon_pcs s' u) \<longleftrightarrow> u = t \<and> inside holds m pc" for u
    using assms(3,5) by simp
  have "(inside holds m' (mon_pcs s' u) \<longleftrightarrow> api_owner api (mon_cs s' m') = Some (u, 0)) \<and>
      (\<forall>n. api_owner api (mon_cs s' m') = Some (u, n) \<longrightarrow> n = 0)" for m' u
  proof (cases "m' = m")
    case True
    then show ?thesis using assms(2,6) this_m by auto
  next
    case False
    then show ?thesis using assms(1,2) other [OF False] by (simp add: mon_locks_def)
  qed
  moreover have "\<forall>t m k. mon_pcs s' t = T_Entering m k \<longrightarrow> holds k = Some m"
    "\<forall>t m ms f r. mon_pcs s' t = T_Asleep m ms f \<longrightarrow> holds (f r) = Some m"
    using assms(1,3,7,8) by (simp_all add: mon_locks_def)
  ultimately show ?thesis by (simp add: mon_locks_def)
qed

lemma mon_inv_call:
  assumes inv: "mon_inv api s" and step: "mon_step api start prog (M_Call t k) s = Some s'"
  shows "mon_inv api s'"
proof -
  have pc: "mon_pcs s t = T_Idle \<or> (\<exists>k'. mon_pcs s t = T_Ended k')" and k: "start k"
    and s': "s' = s\<lparr>mon_pcs := (mon_pcs s)(t := T_At k)\<rparr>"
    using step by (auto split: thread_pc.splits if_splits)
  have "mon_locks api holds s'"
    by (rule locks_same [of api s _ t "T_At k"])
      (use inv pc s' start_free [OF k] in \<open>auto simp: mon_inv_def\<close>)
  moreover have "J (mon_data s) ((mon_pcs s)(t := T_At k)) (mon_log s) (mon_asleep api s)"
    using inv pc k J_call by (auto simp: mon_inv_def)
  moreover have "mon_asleep api s' = mon_asleep api s" by (auto simp: s' mon_asleep_def fun_eq_iff)
  ultimately show ?thesis by (simp add: mon_inv_def s')
qed

lemma mon_inv_enter:
  assumes inv: "mon_inv api s" and api: "win_sync_ok api"
    and step: "mon_step api start prog (M_Enter t) s = Some s'"
  shows "mon_inv api s'"
proof -
  obtain m k c where pc: "mon_pcs s t = T_Entering m k" and c: "scoped_lock api t (mon_cs s m) = Some c"
    and s': "s' = s\<lparr>mon_cs := (mon_cs s)(m := c), mon_pcs := (mon_pcs s)(t := T_At k)\<rparr>"
    using step by (auto split: thread_pc.splits option.splits)
  have locks: "mon_locks api holds s" using inv by (simp add: mon_inv_def)
  then have k: "holds k = Some m" using pc unfolding mon_locks_def by blast
  have free: "\<forall>u. \<not> inside holds m (mon_pcs s u)" "api_owner api c = Some (t, 0)"
    using locks_free [OF locks api c] pc by simp_all
  have "mon_locks api holds s'"
    by (rule locks_change [OF locks, of _ m c t "T_At k"]) (use s' k free pc in auto)
  moreover have "J (mon_data s) ((mon_pcs s)(t := T_At k)) (mon_log s) (mon_asleep api s)"
    using inv J_enter [where pcs = "mon_pcs s", OF _ pc k] free(1) by (simp add: mon_inv_def)
  moreover have "mon_asleep api s' = mon_asleep api s" by (auto simp: s' mon_asleep_def fun_eq_iff)
  ultimately show ?thesis by (simp add: mon_inv_def s')
qed

lemma mon_inv_woken:
  assumes inv: "mon_inv api s" and api: "win_sync_ok api"
    and ret: "sleeps_within api ret"
    and step: "mon_step api start prog (M_Woken t r) s = Some s'"
  shows "mon_inv api s'"
proof -
  obtain m ms f where pc: "mon_pcs s t = T_Asleep m ms f" and r: "api_returns api ms r"
    and s': "s' = s\<lparr>mon_cv := (mon_cv s)(m := api_awake api t (mon_cv s m)),
      mon_pcs := (mon_pcs s)(t := T_Entering m (f r))\<rparr>"
    using step by (auto split: thread_pc.splits if_splits)
  have locks: "mon_locks api holds s" using inv by (simp add: mon_inv_def)
  then have "holds (f r) = Some m" using pc unfolding mon_locks_def by blast
  then have "mon_locks api holds s'"
    by (intro locks_same [OF locks, of _ t "T_Entering m (f r)"]) (use s' pc in auto)
  moreover have "mon_asleep api s' = (mon_asleep api s)(m := (mon_asleep api s m)(t := False))"
    using api by (auto simp: s' mon_asleep_def fun_eq_iff win_sync_ok_def)
  moreover have "J (mon_data s) ((mon_pcs s)(t := T_Entering m (f r))) (mon_log s)
      ((mon_asleep api s)(m := (mon_asleep api s m)(t := False)))"
    using inv J_woken [where pcs = "mon_pcs s" and f = f, OF _ pc] r ret
    by (simp add: mon_inv_def sleeps_within_def)
  ultimately show ?thesis by (simp add: mon_inv_def s')
qed

lemma instr_effect_same [simp]:
  "mon_data (instr_effect api t i s) = mon_data s" "mon_pcs (instr_effect api t i s) = mon_pcs s"
  "mon_log (instr_effect api t i s) = mon_log s"
  by (cases i; simp)+

lemma instr_effect_asleep:
  assumes "win_sync_ok api"
  shows "sleepers_after t i (mon_asleep api s)
    (mon_asleep api ((instr_effect api t i s)\<lparr>mon_data := d, mon_pcs := p, mon_log := l\<rparr>))"
proof (cases i)
  case (I_Wake_One m k)
  have "(\<forall>u. \<not> api_asleep api (mon_cv s m) u) \<and>
        api_asleep api (api_wake_one api (mon_cv s m)) = api_asleep api (mon_cv s m) \<or>
      (\<exists>u. api_asleep api (mon_cv s m) u \<and> api_asleep api (api_wake_one api (mon_cv s m))
        = (api_asleep api (mon_cv s m))(u := False))"
    using assms unfolding win_sync_ok_def by blast
  moreover have "mon_asleep api ((instr_effect api t i s)\<lparr>mon_data := d, mon_pcs := p, mon_log := l\<rparr>) =
      (mon_asleep api s)(m := api_asleep api (api_wake_one api (mon_cv s m)))"
    using I_Wake_One by (auto simp: mon_asleep_def fun_eq_iff cv_NotifyOne_def)
  moreover have "mon_asleep api s m = api_asleep api (mon_cv s m)"
    by (auto simp: mon_asleep_def fun_eq_iff)
  ultimately show ?thesis using I_Wake_One by (auto simp: fun_upd_idem)
qed (use assms in \<open>auto simp: mon_asleep_def fun_eq_iff win_sync_ok_def cv_NotifyAll_def\<close>)

lemma instr_effect_locks:
  assumes locks: "mon_locks api holds s" and api: "win_sync_ok api" and pc: "mon_pcs s t = T_At k"
    and i: "disciplined holds k i"
  shows "mon_locks api holds ((instr_effect api t i s)\<lparr>mon_data := d,
    mon_pcs := (mon_pcs s)(t := pc_after i), mon_log := l\<rparr>)" (is "mon_locks api holds ?s'")
proof -
  have alone: "\<not> inside holds m (mon_pcs s u)" if "holds k = Some m" "u \<noteq> t" for m u
    using locks_owner(2) [OF locks, of m t u] pc that by auto
  have leave: "api_owner api (api_leave api t (mon_cs s m)) = None" if "holds k = Some m" for m
    using locks_leave [OF locks api, of m t] pc that by simp
  show ?thesis
  proof (cases i)
    case (I_Leave m k')
    show ?thesis
      by (rule locks_change [OF locks, of _ m "api_leave api t (mon_cs s m)" t "pc_after i"])
        (use I_Leave i alone leave pc in \<open>auto simp: scoped_unlock_def cs_Unlock_def\<close>)
  next
    case (I_Sleep m ms f)
    show ?thesis
      by (rule locks_change [OF locks, of _ m "api_leave api t (mon_cs s m)" t "pc_after i"])
        (use I_Sleep i alone leave pc in auto)
  qed (rule locks_same [OF locks, of _ t "pc_after i"]; use i pc in auto)+
qed

lemma mon_inv_run:
  assumes inv: "mon_inv api s" and api: "win_sync_ok api"
    and step: "mon_step api start prog (M_Run t) s = Some s'"
  shows "mon_inv api s'"
proof -
  obtain k d i where pc: "mon_pcs s t = T_At k" and p: "prog k (mon_data s) = (d, i)"
    and s': "s' = (instr_effect api t i s)\<lparr>mon_data := d, mon_pcs := (mon_pcs s)(t := pc_after i),
      mon_log := mon_log s @ [(t, k)]\<rparr>"
    using step by (auto split: thread_pc.splits prod.splits)
  have locks: "mon_locks api holds s" and J: "J (mon_data s) (mon_pcs s) (mon_log s) (mon_asleep api s)"
    using inv by (simp_all add: mon_inv_def)
  have "mon_locks api holds s'"
    unfolding s' by (rule instr_effect_locks [OF locks api pc]) (use prog_disciplined [of k] p in \<open>metis snd_conv\<close>)
  moreover have "\<not> inside holds m (mon_pcs s u)" if "holds k = Some m" "u \<noteq> t" for m u
    using locks_owner(2) [OF locks, of m t u] pc that by auto
  then have "J d ((mon_pcs s)(t := pc_after i)) (mon_log s @ [(t, k)]) (mon_asleep api s')"
    unfolding s' by (intro J_run [OF J pc _ p] instr_effect_asleep [OF api]) auto
  ultimately show ?thesis by (simp add: mon_inv_def s')
qed

lemma mon_inv_init: "win_sync_ok api \<Longrightarrow> mon_inv api (mon_init api s0)"
  using J_init by (simp add: mon_inv_def mon_init_asleep mon_init_locks) (simp add: mon_init_def)

text \<open>The invariant holds in every reachable state, whatever the API does within its contract.\<close>

theorem mon_inv_reach:
  assumes api: "win_sync_ok api" and ret: "sleeps_within api ret"
    and "reach (mon_step api start prog) (mon_init api s0) s"
  shows "mon_inv api s"
  using assms(3)
proof (induction rule: reach.induct)
  case reach_init
  from api show ?case by (rule mon_inv_init)
next
  case (reach_step s l s')
  then show ?case
    using mon_inv_call mon_inv_enter [OF _ api] mon_inv_run [OF _ api] mon_inv_woken [OF _ api ret]
    by (cases l) blast+
qed

lemma reach_J:
  assumes "win_sync_ok api" and "sleeps_within api ret"
    and "reach (mon_step api start prog) (mon_init api s0) s"
  shows "J (mon_data s) (mon_pcs s) (mon_log s) (mon_asleep api s)"
  using mon_inv_reach [OF assms] by (simp add: mon_inv_def)

text \<open>At most one thread is in a critical section.\<close>

lemma mutual_exclusion:
  assumes "win_sync_ok api" and "sleeps_within api ret"
    and "reach (mon_step api start prog) (mon_init api s0) s"
    and "inside holds m (mon_pcs s t)" and "inside holds m (mon_pcs s u)"
  shows "u = t"
proof -
  have "mon_locks api holds s" using mon_inv_reach [OF assms(1-3)] by (simp add: mon_inv_def)
  from locks_owner(2) [OF this assms(4,5)] show ?thesis .
qed

end

section \<open>Critical sections that are left again\<close>

fun next_inside :: "('m, 'k) instr \<Rightarrow> 'k option" where
  "next_inside (I_Goto k) = Some k"
| "next_inside (I_Wake_One m k) = Some k"
| "next_inside (I_Wake_All m k) = Some k"
| "next_inside _ = None"

lemma next_inside_map [simp]: "next_inside (map_instr id f i) = map_option f (next_inside i)"
  by (cases i) auto

text \<open>
  A thread that waits to enter gets the critical section after some steps of one thread, the one
  that is inside.
\<close>

definition gets_section :: "('k mon_label \<Rightarrow> ('c, 'v, 'm, 'k, 's) mon \<Rightarrow> ('c, 'v, 'm, 'k, 's) mon option) \<Rightarrow>
    ('c, 'v, 'm, 'k, 's) mon \<Rightarrow> tid \<Rightarrow> bool" where
  "gets_section stp s t \<longleftrightarrow> (\<exists>u n s'. run stp (replicate n (M_Run u)) s = Some s' \<and> stp (M_Enter t) s' \<noteq> None)"

text \<open>
  A program whose critical sections are finite: \<open>rank\<close> bounds the statements that a thread still
  executes before it leaves, or sleeps, which leaves as well. The lock discipline makes it a
  program of threads with the trivial invariant.
\<close>

locale bounded_sections =
  fixes start :: "'k \<Rightarrow> bool" and prog :: "'k \<Rightarrow> 's \<Rightarrow> 's \<times> ('m, 'k) instr" and holds :: "'k \<Rightarrow> 'm option"
    and rank :: "'k \<Rightarrow> 's \<Rightarrow> nat"
  assumes free_start: "start k \<Longrightarrow> holds k = None"
    and keeps_discipline: "disciplined holds k (snd (prog k d))"
    and rank_less: "holds k = Some m \<Longrightarrow> next_inside (snd (prog k d)) = Some k' \<Longrightarrow>
      rank k' (fst (prog k d)) < rank k d"

sublocale bounded_sections \<subseteq> locked: thread_program start prog holds any_return s0 "\<lambda>_ _ _ _. True" for s0
  by unfold_locales (use free_start keeps_discipline in auto)

context bounded_sections
begin

lemma enter_free:
  assumes "mon_locks api holds s" and "win_sync_ok api" and "\<And>u. \<not> inside holds m (mon_pcs s u)"
    and "mon_pcs s t = T_Entering m k"
  shows "mon_step api start prog (M_Enter t) s \<noteq> None"
proof -
  have "api_owner api (mon_cs s m) = None"
  proof (rule ccontr)
    assume "api_owner api (mon_cs s m) \<noteq> None"
    then obtain u n where ow: "api_owner api (mon_cs s m) = Some (u, n)" by auto
    moreover have "n = 0" using assms(1) ow unfolding mon_locks_def by blast
    ultimately have "inside holds m (mon_pcs s u)" using assms(1) unfolding mon_locks_def by blast
    with assms(3) show False by blast
  qed
  moreover have "map_option (api_owner api) (api_enter api t (mon_cs s m)) =
      (case entered t (api_owner api (mon_cs s m)) of None \<Rightarrow> None | Some ow \<Rightarrow> Some (Some ow))"
    using assms(2) unfolding win_sync_ok_def by blast
  ultimately have "api_enter api t (mon_cs s m) \<noteq> None" by (auto simp: entered_def)
  with assms(4) show ?thesis by (auto simp: scoped_lock_def cs_Lock_def)
qed

text \<open>The thread inside leaves by its own steps alone.\<close>

lemma owner_step:
  assumes "locked.mon_inv api s" and "win_sync_ok api" and "mon_pcs s u = T_At k"
  obtains s1 where "mon_step api start prog (M_Run u) s = Some s1" "locked.mon_inv api s1"
    "mon_pcs s1 = (mon_pcs s)(u := pc_after (snd (prog k (mon_data s))))" "mon_data s1 = fst (prog k (mon_data s))"
proof -
  obtain d i where p: "prog k (mon_data s) = (d, i)" by (cases "prog k (mon_data s)")
  define s1 where "s1 = (instr_effect api u i s)\<lparr>mon_data := d, mon_pcs := (mon_pcs s)(u := pc_after i),
    mon_log := mon_log s @ [(u, k)]\<rparr>"
  have st: "mon_step api start prog (M_Run u) s = Some s1" using assms(3) p by (simp add: s1_def)
  show ?thesis by (rule that [OF st locked.mon_inv_run [OF assms(1,2) st]]) (simp_all add: s1_def p)
qed

lemma owner_leaves:
  assumes "locked.mon_inv api s" and "win_sync_ok api" and "mon_pcs s u = T_At k" and "holds k = Some m"
  shows "\<exists>n s'. n \<le> Suc (rank k (mon_data s)) \<and> run (mon_step api start prog) (replicate n (M_Run u)) s = Some s' \<and>
    locked.mon_inv api s' \<and> (\<forall>v. \<not> inside holds m (mon_pcs s' v)) \<and> (\<forall>v. v \<noteq> u \<longrightarrow> mon_pcs s' v = mon_pcs s v)"
  using assms(1,3,4)
proof (induction "rank k (mon_data s)" arbitrary: s k rule: less_induct)
  case less
  let ?i = "snd (prog k (mon_data s))"
  obtain s1 where s1: "mon_step api start prog (M_Run u) s = Some s1" "locked.mon_inv api s1"
    "mon_pcs s1 = (mon_pcs s)(u := pc_after ?i)" "mon_data s1 = fst (prog k (mon_data s))"
    by (rule owner_step [OF less.prems(1) assms(2) less.prems(2)])
  have disc: "disciplined holds k ?i" by (rule keeps_discipline)
  show ?case
  proof (cases "next_inside ?i")
    case (Some k')
    then have k': "mon_pcs s1 u = T_At k'" "holds k' = Some m" using disc less.prems(3) s1(3) by (cases ?i; simp)+
    have lt: "rank k' (mon_data s1) < rank k (mon_data s)" using rank_less [OF less.prems(3) Some] s1(4) by simp
    from less.hyps [OF this s1(2) k'] obtain n s' where
      "n \<le> Suc (rank k' (mon_data s1))" "run (mon_step api start prog) (replicate n (M_Run u)) s1 = Some s'" "locked.mon_inv api s'"
      "\<forall>v. \<not> inside holds m (mon_pcs s' v)" "\<forall>v. v \<noteq> u \<longrightarrow> mon_pcs s' v = mon_pcs s1 v" by blast
    then show ?thesis using lt s1(1,3)
      by (intro exI [of _ "Suc n"] exI [of _ s']) (simp del: mon_step.simps)
  next
    case None
    have locks: "mon_locks api holds s" using less.prems(1) by (simp add: locked.mon_inv_def)
    have "\<not> inside holds m (mon_pcs s v)" if "v \<noteq> u" for v
      using locked.locks_owner(2) [OF locks, of m u v] less.prems(2,3) that by auto
    moreover have "\<not> inside holds m (pc_after ?i)" using None disc less.prems(3) by (cases ?i) auto
    ultimately have "\<forall>v. \<not> inside holds m (mon_pcs s1 v)" using s1(3) by simp
    then show ?thesis using s1 by (intro exI [of _ "Suc 0"] exI [of _ s1]) (simp del: mon_step.simps)
  qed
qed

text \<open>
  Nobody is locked out: a thread that waits to enter finds the critical section free after steps
  of the thread inside alone, if there is one.
\<close>

lemma can_enter:
  assumes "win_sync_ok api" and "reach (mon_step api start prog) (mon_init api s0) s"
    and pc: "mon_pcs s t = T_Entering m k"
  shows "gets_section (mon_step api start prog) s t"
proof -
  have inv: "locked.mon_inv api s" by (rule locked.mon_inv_reach [OF assms(1) _ assms(2)]) simp
  show ?thesis
  proof (cases "\<exists>u. inside holds m (mon_pcs s u)")
    case False
    have "mon_locks api holds s" using inv by (simp add: locked.mon_inv_def)
    then have "mon_step api start prog (M_Enter t) s \<noteq> None" by (rule enter_free [OF _ assms(1) _ pc]) (use False in blast)
    then show ?thesis unfolding gets_section_def by (intro exI [of _ t] exI [of _ 0] exI [of _ s]) simp
  next
    case True
    then obtain u k' where u: "mon_pcs s u = T_At k'" "holds k' = Some m" by (auto simp: inside_def)
    from owner_leaves [OF inv assms(1) u] obtain n s' where
      s': "run (mon_step api start prog) (replicate n (M_Run u)) s = Some s'" "locked.mon_inv api s'"
        "\<forall>v. \<not> inside holds m (mon_pcs s' v)" "\<forall>v. v \<noteq> u \<longrightarrow> mon_pcs s' v = mon_pcs s v" by blast
    have "t \<noteq> u" using u pc by auto
    then have pc': "mon_pcs s' t = T_Entering m k" using s'(4) pc by simp
    have "mon_locks api holds s'" using s'(2) by (simp add: locked.mon_inv_def)
    then have "mon_step api start prog (M_Enter t) s' \<noteq> None"
      by (rule enter_free [OF _ assms(1) _ pc']) (use s'(3) in blast)
    then show ?thesis unfolding gets_section_def using s'(1) by blast
  qed
qed

end

end
