(* ===== verification/Barrier.thy ===== *)
theory Barrier
  imports Monitor
begin

text \<open>Class \<open>Barrier\<close> of \<open>src/src/ezthread/sync.cpp\<close>.\<close>

section \<open>State and methods\<close>

record barrier =
  bar_count :: size_t
  bar_generation :: size_t
  bar_waiting :: size_t

text \<open>The constructor; \<open>le\<close> is the last error of the calling thread.\<close>

definition barrier_new :: "dword \<Rightarrow> size_t \<Rightarrow> ('x, barrier) result" where
  "barrier_new le cnt =
     (if cnt = 0 then Inl (Thread_Exn ''Barrier count must be greater than 0'' le)
      else Inr \<lparr>bar_count = cnt, bar_generation = 0, bar_waiting = 0\<rparr>)"

text \<open>
  The program points. The second argument is the local variable \<open>currentGeneration\<close>, which
  the last two keep as history.
\<close>

datatype bar_pc =
    Bar_Call wait_mode
  | Bar_Gen wait_mode
  | Bar_Inc wait_mode size_t
  | Bar_Cmp wait_mode size_t
  | Bar_Reset wait_mode size_t
  | Bar_Next wait_mode size_t
  | Bar_Notify wait_mode size_t
  | Bar_Test wait_mode size_t
  | Bar_Woken wait_mode size_t cv_result
  | Bar_Undo size_t
  | Bar_Unlock size_t "unit call_result"
  | Bar_End size_t "unit call_result"

fun bar_start :: "bar_pc \<Rightarrow> bool" where
  "bar_start (Bar_Call md) \<longleftrightarrow> True"
| "bar_start _ \<longleftrightarrow> False"

fun bar_prog :: "(dword \<Rightarrow> string) \<Rightarrow> bar_pc \<Rightarrow> barrier \<Rightarrow> barrier \<times> (unit, bar_pc) instr" where
  "bar_prog fmt (Bar_Call md) b = (b, I_Enter () (Bar_Gen md))"
| "bar_prog fmt (Bar_Gen md) b = (b, I_Goto (Bar_Inc md (bar_generation b)))"
| "bar_prog fmt (Bar_Inc md g) b =
     (b\<lparr>bar_waiting := bar_waiting b + 1\<rparr>, I_Goto (Bar_Cmp md g))"
| "bar_prog fmt (Bar_Cmp md g) b =
     (b, I_Goto (if bar_waiting b = bar_count b then Bar_Reset md g else Bar_Test md g))"
| "bar_prog fmt (Bar_Reset md g) b = (b\<lparr>bar_waiting := 0\<rparr>, I_Goto (Bar_Next md g))"
| "bar_prog fmt (Bar_Next md g) b =
     (b\<lparr>bar_generation := bar_generation b + 1\<rparr>, I_Goto (Bar_Notify md g))"
| "bar_prog fmt (Bar_Notify md g) b = (b, I_Wake_All () (Bar_Unlock g (wait_success md)))"
| "bar_prog fmt (Bar_Test md g) b =
     (b, if bar_generation b = g then I_Sleep () (wait_timeout md) (Bar_Woken md g)
         else I_Goto (Bar_Unlock g (wait_success md)))"
| "bar_prog fmt (Bar_Woken md g r) b =
     (b, I_Goto
       (case cv_waited fmt md r of
          Inl e \<Rightarrow> Bar_Unlock g (Ret_Throw e)
        | Inr ok \<Rightarrow> if ok then Bar_Test md g else Bar_Undo g))"
| "bar_prog fmt (Bar_Undo g) b =
     (b\<lparr>bar_waiting := bar_waiting b - 1\<rparr>, I_Goto (Bar_Unlock g (Ret_Bool False)))"
| "bar_prog fmt (Bar_Unlock g r) b = (b, I_Leave () (Bar_End g r))"
| "bar_prog fmt (Bar_End g r) b = (b, I_Finish (Bar_End g r))"

fun bar_holds :: "bar_pc \<Rightarrow> unit option" where
  "bar_holds (Bar_Call md) = None"
| "bar_holds (Bar_End g r) = None"
| "bar_holds _ = Some ()"

abbreviation bar_step ::
  "('c, 'v) win_sync \<Rightarrow> (dword \<Rightarrow> string) \<Rightarrow> bar_pc mon_label \<Rightarrow>
   ('c, 'v, unit, bar_pc, barrier) mon \<Rightarrow> ('c, 'v, unit, bar_pc, barrier) mon option" where
  "bar_step api fmt \<equiv> mon_step api bar_start (bar_prog fmt)"

lemma bar_woken_eq [simp]: "Bar_Woken md g = Bar_Woken md' g' \<longleftrightarrow> md = md' \<and> g = g'"
  by (auto simp: fun_eq_iff)

section \<open>The invariant\<close>

text \<open>The arrivals so far: the executions of \<open>m_waiting++\<close>.\<close>

fun bar_arrival :: "tid \<times> bar_pc \<Rightarrow> bool" where
  "bar_arrival (t, Bar_Inc md g) \<longleftrightarrow> True"
| "bar_arrival _ \<longleftrightarrow> False"

definition arrivals :: "(tid \<times> bar_pc) list \<Rightarrow> nat" where
  "arrivals lg = length (filter bar_arrival lg)"

lemma arrivals_simps [simp]:
  "arrivals [] = 0" "arrivals (lg @ lg') = arrivals lg + arrivals lg'"
  "arrivals (x # lg) = (if bar_arrival x then 1 else 0) + arrivals lg"
  by (simp_all add: arrivals_def)

text \<open>
  The counters, for \<open>n\<close> arrivals at a barrier of \<open>c\<close>: at rest, and while the thread in the
  critical section is at the point \<open>k\<close>.
\<close>

definition bar_rest :: "nat \<Rightarrow> nat \<Rightarrow> barrier \<Rightarrow> bool" where
  "bar_rest c n b \<longleftrightarrow> unat (bar_generation b) = n div c \<and> unat (bar_waiting b) = n mod c"

definition bar_arrived :: "nat \<Rightarrow> nat \<Rightarrow> size_t \<Rightarrow> barrier \<Rightarrow> bool" where
  "bar_arrived c n g b \<longleftrightarrow> 0 < n \<and> g = bar_generation b \<and> unat (bar_generation b) = (n - 1) div c"

fun bar_counts :: "nat \<Rightarrow> nat \<Rightarrow> barrier \<Rightarrow> bar_pc \<Rightarrow> bool" where
  "bar_counts c n b (Bar_Inc md g) \<longleftrightarrow> bar_rest c n b \<and> g = bar_generation b"
| "bar_counts c n b (Bar_Cmp md g) \<longleftrightarrow>
     bar_arrived c n g b \<and> unat (bar_waiting b) = Suc ((n - 1) mod c)"
| "bar_counts c n b (Bar_Reset md g) \<longleftrightarrow> bar_arrived c n g b \<and> n mod c = 0"
| "bar_counts c n b (Bar_Next md g) \<longleftrightarrow> bar_arrived c n g b \<and> n mod c = 0 \<and> bar_waiting b = 0"
| "bar_counts c n b _ \<longleftrightarrow> bar_rest c n b"

text \<open>What a thread knows: its generation is over when it leaves.\<close>

fun bar_local :: "nat \<Rightarrow> nat \<Rightarrow> bar_pc \<Rightarrow> bool" where
  "bar_local c n (Bar_Notify md g) \<longleftrightarrow> unat g < n div c"
| "bar_local c n (Bar_Test md g) \<longleftrightarrow> unat g \<le> n div c"
| "bar_local c n (Bar_Woken md g r) \<longleftrightarrow> unat g \<le> n div c \<and> r = Cv_True"
| "bar_local c n (Bar_Undo g) \<longleftrightarrow> False"
| "bar_local c n (Bar_Unlock g r) \<longleftrightarrow> unat g < n div c"
| "bar_local c n (Bar_End g r) \<longleftrightarrow> unat g < n div c"
| "bar_local c n _ \<longleftrightarrow> True"

fun bar_thread :: "nat \<Rightarrow> nat \<Rightarrow> (unit, bar_pc) thread_pc \<Rightarrow> bool" where
  "bar_thread c n T_Idle \<longleftrightarrow> True"
| "bar_thread c n (T_At k) \<longleftrightarrow> bar_local c n k"
| "bar_thread c n (T_Entering m k) \<longleftrightarrow> bar_local c n k \<and>
     ((\<exists>md. k = Bar_Gen md) \<or> (\<exists>md g. k = Bar_Woken md g Cv_True))"
| "bar_thread c n (T_Asleep m ms f) \<longleftrightarrow> (\<exists>md g. f = Bar_Woken md g \<and> unat g \<le> n div c)"
| "bar_thread c n (T_Ended k) \<longleftrightarrow> bar_local c n k"

text \<open>
  The history: a thread that arrives reads the generation of its arrival, a thread that has
  returned had its generation completed. A thread that no wake has reached waits for the
  current generation, unless \<open>NotifyAll\<close> is about to be called.
\<close>

fun bar_event :: "nat \<Rightarrow> nat \<Rightarrow> bar_pc \<Rightarrow> bool" where
  "bar_event c n (Bar_Inc md g) \<longleftrightarrow> unat g = n div c"
| "bar_event c n (Bar_End g r) \<longleftrightarrow> unat g < n div c"
| "bar_event c n _ \<longleftrightarrow> True"

abbreviation bar_history :: "nat \<Rightarrow> (tid \<times> bar_pc) list \<Rightarrow> bool" where
  "bar_history c \<equiv> log_ok (\<lambda>lg. bar_event c (arrivals lg))"

definition bar_notifying :: "(tid \<Rightarrow> (unit, bar_pc) thread_pc) \<Rightarrow> bool" where
  "bar_notifying pcs \<longleftrightarrow> (\<exists>u md g. pcs u = T_At (Bar_Notify md g))"

definition bar_sleepers ::
  "barrier \<Rightarrow> (tid \<Rightarrow> (unit, bar_pc) thread_pc) \<Rightarrow> (unit \<Rightarrow> tid \<Rightarrow> bool) \<Rightarrow> bool" where
  "bar_sleepers b pcs A \<longleftrightarrow>
     (\<forall>t. A () t \<longrightarrow> (\<exists>md g ms. pcs t = T_Asleep () ms (Bar_Woken md g) \<and>
        (g = bar_generation b \<or> bar_notifying pcs)))"

lemma bar_notifying_upd:
  "bar_notifying pcs \<Longrightarrow> (\<And>md g. pcs t \<noteq> T_At (Bar_Notify md g)) \<Longrightarrow> bar_notifying (pcs(t := pc))"
  unfolding bar_notifying_def by (metis fun_upd_apply)

lemma bar_notifying_new: "bar_notifying (pcs(t := T_At (Bar_Notify md g)))"
  unfolding bar_notifying_def by (metis fun_upd_same)

definition bar_core ::
  "size_t \<Rightarrow> barrier \<Rightarrow> (tid \<Rightarrow> (unit, bar_pc) thread_pc) \<Rightarrow> (tid \<times> bar_pc) list \<Rightarrow>
   (unit \<Rightarrow> tid \<Rightarrow> bool) \<Rightarrow> bool" where
  "bar_core C b pcs lg A \<longleftrightarrow>
     bar_count b = C \<and> 0 < C \<and>
     (\<forall>t k. pcs t = T_At k \<and> bar_holds k = Some () \<longrightarrow> bar_counts (unat C) (arrivals lg) b k) \<and>
     ((\<forall>t. \<not> inside bar_holds () (pcs t)) \<longrightarrow> bar_rest (unat C) (arrivals lg) b) \<and>
     (\<forall>t. bar_thread (unat C) (arrivals lg) (pcs t)) \<and>
     bar_history (unat C) lg \<and> bar_sleepers b pcs A"

definition bar_J ::
  "size_t \<Rightarrow> barrier \<Rightarrow> (tid \<Rightarrow> (unit, bar_pc) thread_pc) \<Rightarrow> (tid \<times> bar_pc) list \<Rightarrow>
   (unit \<Rightarrow> tid \<Rightarrow> bool) \<Rightarrow> bool" where
  "bar_J C b pcs lg A \<longleftrightarrow> (0 < C \<and> arrivals lg < 2 ^ 64 \<longrightarrow> bar_core C b pcs lg A)"

lemma bar_local_mono: "bar_local c n k \<Longrightarrow> n \<le> n' \<Longrightarrow> bar_local c n' k"
  by (cases k) (auto intro: less_le_trans order_trans div_le_mono)

lemma bar_thread_mono: "bar_thread c n pc \<Longrightarrow> n \<le> n' \<Longrightarrow> bar_thread c n' pc"
proof (cases pc)
  case (T_Asleep m ms f)
  assume "bar_thread c n pc" and n: "n \<le> n'"
  with T_Asleep obtain md g where "f = Bar_Woken md g" "unat g \<le> n div c" by auto
  moreover from n have "n div c \<le> n' div c" by (rule div_le_mono)
  ultimately show ?thesis using T_Asleep by auto
qed (auto intro: bar_local_mono)

text \<open>Steps of a thread that is alone in the critical section, and steps outside it.\<close>

lemma bar_core_alone:
  assumes core: "bar_core C b pcs lg A" and alone: "\<And>u. u \<noteq> t \<Longrightarrow> \<not> inside bar_holds () (pcs u)"
    and b': "bar_count b' = C"
    and lg': "arrivals lg \<le> arrivals lg'" "bar_history (unat C) lg'"
    and inside: "\<And>k'. pc = T_At k' \<Longrightarrow> bar_holds k' = Some () \<Longrightarrow> bar_counts (unat C) (arrivals lg') b' k'"
    and rest: "\<not> inside bar_holds () pc \<Longrightarrow> bar_rest (unat C) (arrivals lg') b'"
    and thread: "bar_thread (unat C) (arrivals lg') pc"
    and sleepers: "bar_sleepers b' (pcs(t := pc)) A'"
  shows "bar_core C b' (pcs(t := pc)) lg' A'"
proof -
  have "bar_thread (unat C) (arrivals lg) (pcs u)" for u
    using core by (simp add: bar_core_def)
  then have "bar_thread (unat C) (arrivals lg') ((pcs(t := pc)) u)" for u
    using thread by (simp add: bar_thread_mono [OF _ lg'(1)])
  moreover have "bar_counts (unat C) (arrivals lg') b' k'"
    if "(pcs(t := pc)) u = T_At k'" "bar_holds k' = Some ()" for u k'
    using that alone [of u] inside by (cases "u = t") auto
  moreover have "bar_rest (unat C) (arrivals lg') b'"
    if "\<forall>u. \<not> inside bar_holds () ((pcs(t := pc)) u)"
    using that [rule_format, of t] rest by simp
  ultimately show ?thesis
    using core b' lg'(2) sleepers unfolding bar_core_def by blast
qed

lemma bar_core_outside:
  assumes core: "bar_core C b pcs lg A" and pc: "\<not> inside bar_holds () pc" "\<not> inside bar_holds () (pcs t)"
    and "arrivals lg' = arrivals lg" and "bar_history (unat C) lg'"
    and "bar_thread (unat C) (arrivals lg) pc" and "bar_sleepers b (pcs(t := pc)) A'"
  shows "bar_core C b (pcs(t := pc)) lg' A'"
proof -
  have "inside bar_holds () ((pcs(t := pc)) u) \<longleftrightarrow> inside bar_holds () (pcs u)" for u
    using pc by simp
  with assms show ?thesis by (auto simp: bar_core_def)
qed

lemma bar_sleepers_upd:
  assumes "bar_sleepers b pcs A" and "\<And>m ms f. pcs t \<noteq> T_Asleep m ms f"
    and "bar_generation b' = bar_generation b \<or> (\<exists>md g. pc = T_At (Bar_Notify md g))"
    and "\<And>md g. pcs t \<noteq> T_At (Bar_Notify md g)"
  shows "bar_sleepers b' (pcs(t := pc)) A"
  unfolding bar_sleepers_def
proof (intro allI impI)
  fix u assume "A () u"
  then obtain md g ms where u: "pcs u = T_Asleep () ms (Bar_Woken md g)"
    "g = bar_generation b \<or> bar_notifying pcs"
    using assms(1) unfolding bar_sleepers_def by blast
  have "u \<noteq> t" using u(1) assms(2) by metis
  moreover have "g = bar_generation b' \<or> bar_notifying (pcs(t := pc))"
    using u(2) assms(3,4) bar_notifying_upd bar_notifying_new by metis
  ultimately show "\<exists>md g ms. (pcs(t := pc)) u = T_Asleep () ms (Bar_Woken md g) \<and>
      (g = bar_generation b' \<or> bar_notifying (pcs(t := pc)))"
    using u(1) by auto
qed

lemma bar_J_call:
  assumes "bar_J C b pcs lg A" and "pcs t = T_Idle \<or> pcs t = T_Ended k'" and "bar_start k"
  shows "bar_J C b (pcs(t := T_At k)) lg A"
proof -
  obtain md where k: "k = Bar_Call md" using assms(3) by (cases k) auto
  have "bar_core C b (pcs(t := T_At k)) lg A" if core: "bar_core C b pcs lg A"
    by (rule bar_core_outside [OF core])
      (use assms(2) k core in \<open>auto simp: bar_core_def intro!: bar_sleepers_upd\<close>)
  with assms(1) show ?thesis by (simp add: bar_J_def)
qed

lemma bar_J_enter:
  assumes "bar_J C b pcs lg A" and "pcs t = T_Entering m k" and "bar_holds k = Some m"
    and "\<And>u. \<not> inside bar_holds m (pcs u)"
  shows "bar_J C b (pcs(t := T_At k)) lg A"
proof -
  have "bar_core C b (pcs(t := T_At k)) lg A" if core: "bar_core C b pcs lg A"
  proof (rule bar_core_alone [OF core])
    have "bar_thread (unat C) (arrivals lg) (T_Entering m k)"
      using core assms(2) by (metis bar_core_def)
    then show "bar_thread (unat C) (arrivals lg) (T_At k)"
      and "\<And>k'. T_At k = T_At k' \<Longrightarrow> bar_holds k' = Some () \<Longrightarrow> bar_counts (unat C) (arrivals lg) b k'"
      using core assms(4) by (auto simp: bar_core_def)
  qed (use assms(2-4) core in \<open>auto simp: bar_core_def intro!: bar_sleepers_upd\<close>)
  with assms(1) show ?thesis by (simp add: bar_J_def)
qed

lemma bar_J_woken:
  assumes "bar_J C b pcs lg A" and pc: "pcs t = T_Asleep m ms f" and "only_wakes ms r"
  shows "bar_J C b (pcs(t := T_Entering m (f r))) lg (A(m := (A m)(t := False)))"
proof -
  have "bar_core C b (pcs(t := T_Entering m (f r))) lg (A(m := (A m)(t := False)))"
    if core: "bar_core C b pcs lg A"
  proof (rule bar_core_outside [OF core])
    have "bar_thread (unat C) (arrivals lg) (pcs t)" using core by (simp add: bar_core_def)
    then obtain md g where "f = Bar_Woken md g" "unat g \<le> arrivals lg div unat C"
      using pc by auto
    with assms(3) [unfolded only_wakes_def] show "bar_thread (unat C) (arrivals lg) (T_Entering m (f r))" by auto
    show "bar_sleepers b (pcs(t := T_Entering m (f r))) (A(m := (A m)(t := False)))"
      unfolding bar_sleepers_def
    proof (intro allI impI)
      fix u assume "(A(m := (A m)(t := False))) () u"
      then have u: "A () u" "u \<noteq> t" by (auto split: if_splits)
      then obtain md g ms where "pcs u = T_Asleep () ms (Bar_Woken md g)"
          "g = bar_generation b \<or> bar_notifying pcs"
        using core unfolding bar_core_def bar_sleepers_def by blast
      with u(2) pc show "\<exists>md g ms. (pcs(t := T_Entering m (f r))) u = T_Asleep () ms (Bar_Woken md g) \<and>
        (g = bar_generation b \<or> bar_notifying (pcs(t := T_Entering m (f r))))"
        by (auto intro: bar_notifying_upd)
    qed
  qed (use pc core in \<open>auto simp: bar_core_def\<close>)
  with assms(1) show ?thesis by (simp add: bar_J_def)
qed

lemma bar_rest_cmp:
  assumes "bar_arrived c n g b" and "unat (bar_waiting b) = Suc ((n - 1) mod c)" and "0 < c"
  shows "unat (bar_waiting b) = c \<longleftrightarrow> n mod c = 0" and "n mod c \<noteq> 0 \<Longrightarrow> bar_rest c n b"
proof -
  obtain m where n: "n = Suc m" using assms(1) by (cases n) (auto simp: bar_arrived_def)
  with assms show "unat (bar_waiting b) = c \<longleftrightarrow> n mod c = 0"
    by (auto simp: mod_Suc)
  assume "n mod c \<noteq> 0"
  with n assms show "bar_rest c n b"
    by (auto simp: bar_rest_def bar_arrived_def mod_Suc div_Suc split: if_splits)
qed

lemma bar_rest_next:
  assumes "bar_arrived c n g b" and "n mod c = 0" and "bar_waiting b = 0" and "n < 2 ^ 64" and "0 < c"
  shows "bar_rest c n (b\<lparr>bar_generation := bar_generation b + 1\<rparr>)" and "unat g < n div c"
proof -
  obtain m where n: "n = Suc m" using assms(1) by (cases n) (auto simp: bar_arrived_def)
  then have m: "m < 2 ^ 64 - 1" using assms(4) by simp
  have "Suc (m div c) = n div c" using n assms(2,5) by (simp add: div_Suc)
  moreover have "m div c < 2 ^ 64 - 1" using m by (rule order_le_less_trans [OF div_le_dividend])
  then have "unat (bar_generation b + 1) = Suc (m div c)"
    using assms(1) n by (subst unat_inc) (auto simp: bar_arrived_def)
  ultimately show "bar_rest c n (b\<lparr>bar_generation := bar_generation b + 1\<rparr>)" and "unat g < n div c"
    using assms(1-3) n by (auto simp: bar_rest_def bar_arrived_def)
qed

lemma bar_rest_inc:
  fixes C :: size_t
  assumes "bar_rest (unat C) n b" and "0 < C"
  shows "unat (bar_waiting b + 1) = Suc (n mod unat C)"
proof -
  have "unat (bar_waiting b) < unat C"
    using assms by (simp add: bar_rest_def word_gt_0 unat_gt_0)
  moreover have "unat C < 2 ^ 64" using unsigned_less [where 'a = nat, of C] by simp
  ultimately show ?thesis using assms(1) by (subst unat_inc) (auto simp: bar_rest_def)
qed

lemma bar_core_run:
  assumes core: "bar_core C b pcs lg A" and pc: "pcs t = T_At k"
    and alone: "\<And>m u. bar_holds k = Some m \<Longrightarrow> u \<noteq> t \<Longrightarrow> \<not> inside bar_holds m (pcs u)"
    and step: "bar_prog fmt k b = (b', i)" and A': "sleepers_after t i A A'"
    and n: "arrivals (lg @ [(t, k)]) < 2 ^ 64"
  shows "bar_core C b' (pcs(t := pc_after i)) (lg @ [(t, k)]) A'"
proof -
  have C: "0 < unat C" "bar_count b = C" "0 < C" and hist: "bar_history (unat C) lg"
    and sl: "bar_sleepers b pcs A"
    using core by (auto simp: bar_core_def word_gt_0 unat_gt_0)
  have loc: "bar_local (unat C) (arrivals lg) k"
    using core pc unfolding bar_core_def by (metis bar_thread.simps(2))
  have cnt: "bar_counts (unat C) (arrivals lg) b k" if "bar_holds k = Some ()"
    using core pc that unfolding bar_core_def by blast
  have sl': "bar_sleepers b' (pcs(t := pc)) A"
    if "bar_generation b' = bar_generation b \<or> (\<exists>md g. pc = T_At (Bar_Notify md g))"
      "\<And>md g. k \<noteq> Bar_Notify md g" for pc b'
    using bar_sleepers_upd [OF sl _ that(1), of t] that(2) pc by simp
  note alone' = bar_core_alone [OF core alone]
  show ?thesis
  proof (cases k)
    case (Bar_Call md)
    show ?thesis
      by (rule bar_core_outside [OF core, where pc = "pc_after i", THEN back_subst [of "\<lambda>b. bar_core C b _ _ _"]])
        (use Bar_Call step A' pc hist sl' in auto)
  next
    case (Bar_End g r)
    show ?thesis
      by (rule bar_core_outside [OF core, where pc = "pc_after i", THEN back_subst [of "\<lambda>b. bar_core C b _ _ _"]])
        (use Bar_End step A' pc hist sl' loc in auto)
  next
    case (Bar_Gen md)
    with cnt step A' C hist sl' show ?thesis by (intro alone') auto
  next
    case (Bar_Inc md g)
    have "bar_rest (unat C) (arrivals lg) b" "g = bar_generation b" using cnt Bar_Inc by auto
    with Bar_Inc step A' C hist sl' bar_rest_inc [of C _ b] show ?thesis
      by (intro alone') (auto simp: bar_arrived_def bar_rest_def)
  next
    case (Bar_Cmp md g)
    have "bar_arrived (unat C) (arrivals lg) g b"
      "unat (bar_waiting b) = Suc ((arrivals lg - 1) mod unat C)" using cnt Bar_Cmp by auto
    note cmp = bar_rest_cmp [OF this C(1)] and arr = this(1)
    have "bar_waiting b = bar_count b \<longleftrightarrow> arrivals lg mod unat C = 0"
      using cmp(1) C(2) by (simp add: word_unat_eq_iff)
    with Bar_Cmp step A' C hist sl' cmp arr show ?thesis
      by (intro alone') (auto simp: bar_arrived_def bar_rest_def split: if_splits)
  next
    case (Bar_Reset md g)
    with cnt step A' C hist sl' show ?thesis
      by (intro alone') (auto simp: bar_arrived_def)
  next
    case (Bar_Next md g)
    with cnt have "bar_arrived (unat C) (arrivals lg) g b" "arrivals lg mod unat C = 0" "bar_waiting b = 0"
      by auto
    with bar_rest_next [OF this] n C Bar_Next have "bar_rest (unat C) (arrivals lg) b'"
      "unat g < arrivals lg div unat C" using step by auto
    with Bar_Next step A' C hist sl' show ?thesis by (intro alone') auto
  next
    case (Bar_Notify md g)
    with cnt step A' C hist loc show ?thesis
      by (intro alone') (auto simp: bar_sleepers_def)
  next
    case (Bar_Test md g)
    have rest: "bar_rest (unat C) (arrivals lg) b" using cnt Bar_Test by simp
    show ?thesis
    proof (cases "bar_generation b = g")
      case True
      have "bar_sleepers b (pcs(t := T_Asleep () (wait_timeout md) (Bar_Woken md g))) (A(() := (A ())(t := True)))"
        using sl'[of b "T_Asleep () (wait_timeout md) (Bar_Woken md g)"] Bar_Test True
        by (auto simp: bar_sleepers_def)
      with True Bar_Test step A' C hist loc rest show ?thesis by (intro alone') auto
    next
      case False
      with rest loc Bar_Test have "unat g < arrivals lg div unat C"
        by (auto simp: bar_rest_def word_unat_eq_iff)
      with False Bar_Test step A' C hist rest sl' show ?thesis by (intro alone') auto
    qed
  next
    case (Bar_Woken md g r)
    with cnt step A' C hist loc sl' show ?thesis
      by (intro alone') auto
  next
    case (Bar_Undo g)
    with loc show ?thesis by simp
  next
    case (Bar_Unlock g r)
    with cnt step A' C hist loc sl' show ?thesis by (intro alone') auto
  qed
qed

lemma bar_J_run:
  assumes "bar_J C b pcs lg A" and "pcs t = T_At k"
    and "\<And>m u. bar_holds k = Some m \<Longrightarrow> u \<noteq> t \<Longrightarrow> \<not> inside bar_holds m (pcs u)"
    and "bar_prog fmt k b = (b', i)" and "sleepers_after t i A A'"
  shows "bar_J C b' (pcs(t := pc_after i)) (lg @ [(t, k)]) A'"
  using bar_core_run [where pcs = pcs, OF _ assms(2-5)] assms(1) by (auto simp: bar_J_def split: if_splits)

lemma bar_J_init:
  "bar_J C \<lparr>bar_count = C, bar_generation = 0, bar_waiting = 0\<rparr> (\<lambda>_. T_Idle) [] (\<lambda>_ _. False)"
  by (simp add: bar_J_def bar_core_def bar_rest_def bar_sleepers_def)

lemma bar_disciplined: "disciplined bar_holds k (snd (bar_prog fmt k b))"
  by (cases k) (auto split: sum.splits)

interpretation barrier: thread_program bar_start "bar_prog fmt" bar_holds only_wakes
  "\<lparr>bar_count = C, bar_generation = 0, bar_waiting = 0\<rparr>" "bar_J C"
  for fmt :: "dword \<Rightarrow> string" and C :: size_t
proof unfold_locales
  show "bar_start k \<Longrightarrow> bar_holds k = None" for k by (cases k) auto
qed (auto intro: bar_disciplined bar_J_init bar_J_call bar_J_enter bar_J_run bar_J_woken)

lemma barrier_reach_core:
  assumes "win_sync_ok api" and "sleeps_within api only_wakes"
    and "barrier_new le C = (Inr b0 :: ('x, barrier) result)"
    and "reach (bar_step api fmt) (mon_init api b0) s" and "arrivals (mon_log s) < 2 ^ 64"
  shows "bar_core C (mon_data s) (mon_pcs s) (mon_log s) (mon_asleep api s) \<and> 0 < unat C"
proof -
  have b0: "b0 = \<lparr>bar_count = C, bar_generation = 0, bar_waiting = 0\<rparr>" and C: "0 < C"
    using assms(3) by (auto simp: barrier_new_def word_gt_0 split: if_splits)
  have "bar_J C (mon_data s) (mon_pcs s) (mon_log s) (mon_asleep api s)"
    using assms(4) unfolding b0 by (rule barrier.reach_J [OF assms(1,2)])
  with assms(5) C show ?thesis by (simp add: bar_J_def word_gt_0 unat_gt_0)
qed

section \<open>Properties\<close>

text \<open>
  C20. As long as no sleep fails or times out, a \<open>Barrier\<close> of \<open>n\<close> lets no thread through
  early, under any schedule of any number of threads calling \<open>Wait\<close> and \<open>WaitFor\<close>: the thread
  that arrives after \<open>i\<close> others belongs to generation \<open>i div n\<close>, and when a call returns,
  \<open>n\<close> arrivals of its generation have happened. While nobody is in the critical section the
  two counters are the quotient and the remainder of the number of arrivals.
\<close>

theorem barrier_no_early_return:
  assumes "win_sync_ok api" and "sleeps_within api only_wakes"
    and "barrier_new le C = (Inr b0 :: ('x, barrier) result)"
    and "reach (bar_step api fmt) (mon_init api b0) s" and "arrivals (mon_log s) < 2 ^ 64"
  shows "(\<forall>i < length (mon_log s). case snd (mon_log s ! i) of
        Bar_Inc md g \<Rightarrow> unat g = arrivals (take i (mon_log s)) div unat C
      | Bar_End g r \<Rightarrow> (unat g + 1) * unat C \<le> arrivals (take i (mon_log s))
      | _ \<Rightarrow> True) \<and>
    ((\<forall>t. \<not> inside bar_holds () (mon_pcs s t)) \<longrightarrow>
      unat (bar_generation (mon_data s)) = arrivals (mon_log s) div unat C \<and>
      unat (bar_waiting (mon_data s)) = arrivals (mon_log s) mod unat C)"
proof -
  have core: "bar_core C (mon_data s) (mon_pcs s) (mon_log s) (mon_asleep api s)"
    and C: "0 < unat C"
    using barrier_reach_core [OF assms(1-5)] by simp_all
  have le: "(unat g + 1) * unat C \<le> n" if "unat g < n div unat C" for g :: size_t and n
    using that C by (metis Suc_eq_plus1 Suc_leI less_eq_div_iff_mult_less_eq)
  have "case k of Bar_Inc md g \<Rightarrow> unat g = n div unat C
      | Bar_End g r \<Rightarrow> (unat g + 1) * unat C \<le> n | _ \<Rightarrow> True" if "bar_event (unat C) n k" for n k
    using that le by (cases k) auto
  with core show ?thesis by (simp add: bar_core_def log_ok_def bar_rest_def)
qed

text \<open>
  Two threads at a barrier of two: the first one sleeps, the second one completes the
  generation, and both return.
\<close>

abbreviation bar_empty :: "size_t \<Rightarrow> barrier" where
  "bar_empty C \<equiv> \<lparr>bar_count = C, bar_generation = 0, bar_waiting = 0\<rparr>"

definition bar_arrive_and_sleep :: "tid \<Rightarrow> wait_mode \<Rightarrow> bar_pc mon_label list" where
  "bar_arrive_and_sleep t md = [M_Call t (Bar_Call md), M_Run t, M_Enter t, M_Run t, M_Run t, M_Run t, M_Run t]"

definition bar_arrive_last :: "tid \<Rightarrow> wait_mode \<Rightarrow> bar_pc mon_label list" where
  "bar_arrive_last t md = [M_Call t (Bar_Call md), M_Run t, M_Enter t, M_Run t, M_Run t, M_Run t, M_Run t,
     M_Run t, M_Run t, M_Run t, M_Run t]"

definition bar_leave :: "tid \<Rightarrow> bar_pc mon_label list" where
  "bar_leave t = [M_Woken t Cv_True, M_Enter t, M_Run t, M_Run t, M_Run t, M_Run t]"

lemmas bar_run_simps = sync_run_simps bar_arrive_and_sleep_def bar_arrive_last_def bar_leave_def

lemma bar_sleep_run:
  "\<exists>s. run (bar_step patient_sync (\<lambda>_. [])) (bar_arrive_and_sleep 1 Forever)
      (mon_init patient_sync (bar_empty 2)) = Some s \<and> arrivals (mon_log s) = 1 \<and>
    (\<forall>u. \<not> inside bar_holds () (mon_pcs s u)) \<and> api_asleep patient_sync (mon_cv s ()) 1"
  by (simp add: bar_run_simps)

lemma bar_pair_run:
  "\<exists>s. run (bar_step patient_sync (\<lambda>_. [])) (bar_arrive_and_sleep 1 Forever @
      bar_arrive_last 2 Forever @ bar_leave 1) (mon_init patient_sync (bar_empty 2)) = Some s \<and>
    arrivals (mon_log s) = 2 \<and> mon_pcs s 1 = T_Ended (Bar_End 0 Ret_Void) \<and>
    (\<forall>u. \<not> inside bar_holds () (mon_pcs s u))"
  by (simp add: bar_run_simps)

theorem barrier_no_early_return_witness:
  "\<exists>s :: (unit, bar_pc, barrier) fifo_mon. mon_pcs s 1 = T_Ended (Bar_End 0 Ret_Void) \<and>
     unat (bar_generation (mon_data s)) = 1 \<and> unat (bar_waiting (mon_data s)) = 0"
proof -
  obtain s where s: "run (bar_step patient_sync (\<lambda>_. [])) (bar_arrive_and_sleep 1 Forever @
      bar_arrive_last 2 Forever @ bar_leave 1) (mon_init patient_sync (bar_empty 2)) = Some s"
    "arrivals (mon_log s) = 2" "mon_pcs s 1 = T_Ended (Bar_End 0 Ret_Void)"
    "\<forall>u. \<not> inside bar_holds () (mon_pcs s u)"
    using bar_pair_run by blast
  have new: "barrier_new 0 2 = (Inr (bar_empty 2) :: (unit, barrier) result)"
    by (simp add: barrier_new_def)
  from s(1) have r: "reach (bar_step patient_sync (\<lambda>_. [])) (mon_init patient_sync (bar_empty 2)) s"
    by (rule run_reach)
  have "arrivals (mon_log s) < 2 ^ 64" using s(2) by simp
  from barrier_no_early_return [OF patient_sync_ok new r this, THEN conjunct2] s(2-4)
  have "unat (bar_generation (mon_data s)) = 1 \<and> unat (bar_waiting (mon_data s)) = 0"
    by simp
  with s(3) show ?thesis by blast
qed

text \<open>
  C30. \<open>Barrier::Wait\<close> loses no wake-up in runs whose sleeps end only by wakes, without time-outs and
  failures: when nobody is in the critical section, a thread that is still asleep and that no
  \<open>NotifyAll\<close> has reached belongs to the current generation, which is not complete. A time-out of
  \<open>WaitFor\<close> may break the count, and then this does not hold (\<open>barrier_timeout_race\<close> below).
\<close>

theorem barrier_no_lost_wakeup:
  assumes "win_sync_ok api" and "sleeps_within api only_wakes"
    and "barrier_new le C = (Inr b0 :: ('x, barrier) result)"
    and "reach (bar_step api fmt) (mon_init api b0) s" and "arrivals (mon_log s) < 2 ^ 64"
    and "\<forall>u. \<not> inside bar_holds () (mon_pcs s u)" and "api_asleep api (mon_cv s ()) t"
  shows "\<exists>ms md g. mon_pcs s t = T_Asleep () ms (Bar_Woken md g) \<and> g = bar_generation (mon_data s) \<and>
    arrivals (mon_log s) < (unat g + 1) * unat C"
proof -
  have core: "bar_core C (mon_data s) (mon_pcs s) (mon_log s) (mon_asleep api s)"
    and C: "0 < unat C"
    using barrier_reach_core [OF assms(1-5)] by simp_all
  have "\<not> bar_notifying (mon_pcs s)"
  proof
    assume "bar_notifying (mon_pcs s)"
    then obtain u md g where "mon_pcs s u = T_At (Bar_Notify md g)" by (auto simp: bar_notifying_def)
    then have "inside bar_holds () (mon_pcs s u)" by simp
    with assms(6) show False by blast
  qed
  moreover have "bar_sleepers (mon_data s) (mon_pcs s) (mon_asleep api s)"
    using core by (simp add: bar_core_def)
  ultimately obtain ms md g where t: "mon_pcs s t = T_Asleep () ms (Bar_Woken md g)"
      "g = bar_generation (mon_data s)"
    using assms(7) unfolding bar_sleepers_def mon_asleep_def by blast
  moreover have "unat (bar_generation (mon_data s)) = arrivals (mon_log s) div unat C"
    using core assms(6) by (simp add: bar_core_def bar_rest_def)
  then have "arrivals (mon_log s) < (unat g + 1) * unat C"
    using t(2) C by (simp add: dividend_less_div_times)
  ultimately show ?thesis by blast
qed

theorem barrier_no_lost_wakeup_witness:
  "\<exists>(s :: (unit, bar_pc, barrier) fifo_mon) ms md g. mon_pcs s 1 = T_Asleep () ms (Bar_Woken md g) \<and>
     g = bar_generation (mon_data s) \<and> arrivals (mon_log s) < (unat g + 1) * unat (2 :: size_t)"
proof -
  obtain s where s: "run (bar_step patient_sync (\<lambda>_. [])) (bar_arrive_and_sleep 1 Forever)
      (mon_init patient_sync (bar_empty 2)) = Some s" "arrivals (mon_log s) = 1"
    "\<forall>u. \<not> inside bar_holds () (mon_pcs s u)" "api_asleep patient_sync (mon_cv s ()) 1"
    using bar_sleep_run by blast
  have new: "barrier_new 0 2 = (Inr (bar_empty 2) :: (unit, barrier) result)"
    by (simp add: barrier_new_def)
  from s(1) have r: "reach (bar_step patient_sync (\<lambda>_. [])) (mon_init patient_sync (bar_empty 2)) s"
    by (rule run_reach)
  have "arrivals (mon_log s) < 2 ^ 64" using s(2) by simp
  from barrier_no_lost_wakeup [OF patient_sync_ok new r this s(3,4)] show ?thesis by blast
qed

text \<open>
  A time-out that meets the end of a generation breaks a \<open>Barrier\<close>: the sleep of
  \<open>WaitFor\<close> times out, the last thread completes the generation before the critical section
  is owned again, and \<open>WaitFor\<close> then returns \<open>false\<close> for a generation that is complete and
  decrements \<open>m_waiting\<close> below zero. At this barrier of two, the next two threads, which are
  a complete generation, sleep in \<open>Wait\<close> with the counter at 1.
\<close>

theorem barrier_timeout_race:
  "\<exists>s s'. run (bar_step fifo_sync fmt) (bar_arrive_and_sleep 1 (Within 10) @
        [M_Woken 1 (Cv_False ERROR_TIMEOUT)] @ bar_arrive_last 2 Forever @
        [M_Enter 1, M_Run 1, M_Run 1, M_Run 1, M_Run 1]) (mon_init fifo_sync (bar_empty 2)) = Some s \<and>
      mon_pcs s 1 = T_Ended (Bar_End 0 (Ret_Bool False)) \<and> bar_generation (mon_data s) = 1 \<and>
      bar_waiting (mon_data s) = - 1 \<and>
      run (bar_step fifo_sync fmt) (bar_arrive_and_sleep 3 Forever @ bar_arrive_and_sleep 4 Forever) s
        = Some s' \<and>
      mon_pcs s' 3 = T_Asleep () INFINITE (Bar_Woken Forever 1) \<and>
      mon_pcs s' 4 = T_Asleep () INFINITE (Bar_Woken Forever 1) \<and>
      bar_generation (mon_data s') = 1 \<and> bar_waiting (mon_data s') = 1"
  by (simp add: bar_run_simps)

section \<open>Critical sections are left\<close>

text \<open>How many statements a thread executes at most before it leaves or sleeps.\<close>

fun bar_rank :: "bar_pc \<Rightarrow> barrier \<Rightarrow> nat" where
  "bar_rank (Bar_Gen md) b = 7"
| "bar_rank (Bar_Inc md g) b = 6"
| "bar_rank (Bar_Cmp md g) b = 5"
| "bar_rank (Bar_Reset md g) b = 4"
| "bar_rank (Bar_Next md g) b = 3"
| "bar_rank (Bar_Notify md g) b = 2"
| "bar_rank (Bar_Woken md g r) b = 2"
| "bar_rank (Bar_Test md g) b = 1"
| "bar_rank (Bar_Undo g) b = 1"
| "bar_rank _ b = 0"

interpretation barrier_sections: bounded_sections bar_start "bar_prog fmt" bar_holds bar_rank for fmt
proof
  show "bar_start k \<Longrightarrow> bar_holds k = None" for k by (cases k) auto
  show "bar_holds k = Some m \<Longrightarrow> next_inside (snd (bar_prog fmt k d)) = Some k' \<Longrightarrow>
      bar_rank k' (fst (bar_prog fmt k d)) < bar_rank k d" for k m d k'
    by (cases k) (auto split: if_splits sum.splits)
qed (rule bar_disciplined)

end
