(* ===== verification/Latch.thy ===== *)
theory Latch
  imports Monitor
begin

text \<open>Class \<open>Latch\<close> of \<open>src/src/ezthread/sync.cpp\<close>.\<close>

section \<open>State and methods\<close>

record latch =
  lat_count :: size_t

definition latch_new :: "size_t \<Rightarrow> latch" where
  "latch_new n = \<lparr>lat_count = n\<rparr>"

text \<open>The program points of \<open>CountDown\<close>, of \<open>Wait\<close> and \<open>WaitFor\<close>, and of \<open>IsReady\<close>.\<close>

datatype lat_pc =
    Lat_Down_Call size_t
  | Lat_Down_Cmp size_t
  | Lat_Down_Zero size_t
  | Lat_Down_Sub size_t
  | Lat_Down_Test
  | Lat_Notify
  | Lat_Down_Unlock
  | Lat_Down_End
  | Lat_Wait_Call wait_mode
  | Lat_Test wait_mode
  | Lat_Woken wait_mode cv_result
  | Lat_Wait_Unlock wait_mode "unit call_result"
  | Lat_Wait_End wait_mode "unit call_result"
  | Lat_Ready_Call
  | Lat_Ready_Read
  | Lat_Ready_Unlock bool
  | Lat_Ready_End bool

fun lat_start :: "lat_pc \<Rightarrow> bool" where
  "lat_start (Lat_Down_Call n) \<longleftrightarrow> True"
| "lat_start (Lat_Wait_Call md) \<longleftrightarrow> True"
| "lat_start Lat_Ready_Call \<longleftrightarrow> True"
| "lat_start _ \<longleftrightarrow> False"

fun lat_prog :: "(dword \<Rightarrow> string) \<Rightarrow> lat_pc \<Rightarrow> latch \<Rightarrow> latch \<times> (unit, lat_pc) instr" where
  "lat_prog fmt (Lat_Down_Call n) l = (l, I_Enter () (Lat_Down_Cmp n))"
| "lat_prog fmt (Lat_Down_Cmp n) l =
     (l, I_Goto (if n > lat_count l then Lat_Down_Zero n else Lat_Down_Sub n))"
| "lat_prog fmt (Lat_Down_Zero n) l = (l\<lparr>lat_count := 0\<rparr>, I_Goto Lat_Down_Test)"
| "lat_prog fmt (Lat_Down_Sub n) l = (l\<lparr>lat_count := lat_count l - n\<rparr>, I_Goto Lat_Down_Test)"
| "lat_prog fmt Lat_Down_Test l = (l, I_Goto (if lat_count l = 0 then Lat_Notify else Lat_Down_Unlock))"
| "lat_prog fmt Lat_Notify l = (l, I_Wake_All () Lat_Down_Unlock)"
| "lat_prog fmt Lat_Down_Unlock l = (l, I_Leave () Lat_Down_End)"
| "lat_prog fmt Lat_Down_End l = (l, I_Finish Lat_Down_End)"
| "lat_prog fmt (Lat_Wait_Call md) l = (l, I_Enter () (Lat_Test md))"
| "lat_prog fmt (Lat_Test md) l =
     (l, if lat_count l > 0 then I_Sleep () (wait_timeout md) (Lat_Woken md)
         else I_Goto (Lat_Wait_Unlock md (wait_success md)))"
| "lat_prog fmt (Lat_Woken md r) l =
     (l, I_Goto
       (case cv_waited fmt md r of
          Inl e \<Rightarrow> Lat_Wait_Unlock md (Ret_Throw e)
        | Inr ok \<Rightarrow> if ok then Lat_Test md else Lat_Wait_Unlock md (Ret_Bool False)))"
| "lat_prog fmt (Lat_Wait_Unlock md r) l = (l, I_Leave () (Lat_Wait_End md r))"
| "lat_prog fmt (Lat_Wait_End md r) l = (l, I_Finish (Lat_Wait_End md r))"
| "lat_prog fmt Lat_Ready_Call l = (l, I_Enter () Lat_Ready_Read)"
| "lat_prog fmt Lat_Ready_Read l = (l, I_Goto (Lat_Ready_Unlock (lat_count l = 0)))"
| "lat_prog fmt (Lat_Ready_Unlock b) l = (l, I_Leave () (Lat_Ready_End b))"
| "lat_prog fmt (Lat_Ready_End b) l = (l, I_Finish (Lat_Ready_End b))"

fun lat_holds :: "lat_pc \<Rightarrow> unit option" where
  "lat_holds (Lat_Down_Call n) = None"
| "lat_holds Lat_Down_End = None"
| "lat_holds (Lat_Wait_Call md) = None"
| "lat_holds (Lat_Wait_End md r) = None"
| "lat_holds Lat_Ready_Call = None"
| "lat_holds (Lat_Ready_End b) = None"
| "lat_holds _ = Some ()"

abbreviation lat_step ::
  "('c, 'v) win_sync \<Rightarrow> (dword \<Rightarrow> string) \<Rightarrow> lat_pc mon_label \<Rightarrow>
   ('c, 'v, unit, lat_pc, latch) mon \<Rightarrow> ('c, 'v, unit, lat_pc, latch) mon option" where
  "lat_step api fmt \<equiv> mon_step api lat_start (lat_prog fmt)"

section \<open>The invariant\<close>

text \<open>What has been counted down so far, as a natural number.\<close>

fun lat_counted :: "(tid \<times> lat_pc) list \<Rightarrow> nat" where
  "lat_counted [] = 0"
| "lat_counted ((t, Lat_Down_Zero n) # lg) = unat n + lat_counted lg"
| "lat_counted ((t, Lat_Down_Sub n) # lg) = unat n + lat_counted lg"
| "lat_counted (_ # lg) = lat_counted lg"

lemma lat_counted_append [simp]: "lat_counted (lg @ lg') = lat_counted lg + lat_counted lg'"
  by (induction lg rule: lat_counted.induct) simp_all

text \<open>A call that saw the counter at zero: \<open>Wait\<close> or \<open>WaitFor\<close> with success, \<open>IsReady\<close> with \<open>true\<close>.\<close>

fun lat_open :: "lat_pc \<Rightarrow> bool" where
  "lat_open (Lat_Wait_Unlock md r) \<longleftrightarrow> r = wait_success md"
| "lat_open (Lat_Wait_End md r) \<longleftrightarrow> r = wait_success md"
| "lat_open (Lat_Ready_Unlock b) \<longleftrightarrow> b"
| "lat_open (Lat_Ready_End b) \<longleftrightarrow> b"
| "lat_open Lat_Notify \<longleftrightarrow> True"
| "lat_open _ \<longleftrightarrow> False"

fun lat_local :: "latch \<Rightarrow> lat_pc \<Rightarrow> bool" where
  "lat_local l (Lat_Down_Zero n) \<longleftrightarrow> lat_count l < n"
| "lat_local l (Lat_Down_Sub n) \<longleftrightarrow> n \<le> lat_count l"
| "lat_local l _ \<longleftrightarrow> True"

definition lat_notifying :: "(tid \<Rightarrow> (unit, lat_pc) thread_pc) \<Rightarrow> bool" where
  "lat_notifying pcs \<longleftrightarrow> (\<exists>u. pcs u = T_At Lat_Down_Test \<or> pcs u = T_At Lat_Notify)"

text \<open>What holds of a thread, of its program point or the point it will go on from.\<close>

fun lat_thread :: "nat \<Rightarrow> nat \<Rightarrow> latch \<Rightarrow> (unit, lat_pc) thread_pc \<Rightarrow> bool" where
  "lat_thread c n l (T_At k) \<longleftrightarrow> lat_local l k \<and> (lat_open k \<longrightarrow> c \<le> n)"
| "lat_thread c n l (T_Entering m k) \<longleftrightarrow> (\<forall>l'. lat_local l' k) \<and> \<not> lat_open k"
| "lat_thread c n l (T_Asleep m ms f) \<longleftrightarrow> (\<forall>r. \<not> lat_open (f r)) \<and> (\<forall>l' r. lat_local l' (f r))"
| "lat_thread c n l _ \<longleftrightarrow> True"

definition lat_sleepers ::
  "latch \<Rightarrow> (tid \<Rightarrow> (unit, lat_pc) thread_pc) \<Rightarrow> (unit \<Rightarrow> tid \<Rightarrow> bool) \<Rightarrow> bool" where
  "lat_sleepers l pcs A \<longleftrightarrow>
     (\<forall>t. A () t \<longrightarrow> (\<exists>ms f. pcs t = T_Asleep () ms f) \<and> (0 < lat_count l \<or> lat_notifying pcs))"

definition lat_J ::
  "size_t \<Rightarrow> latch \<Rightarrow> (tid \<Rightarrow> (unit, lat_pc) thread_pc) \<Rightarrow> (tid \<times> lat_pc) list \<Rightarrow>
   (unit \<Rightarrow> tid \<Rightarrow> bool) \<Rightarrow> bool" where
  "lat_J C l pcs lg A \<longleftrightarrow>
     unat (lat_count l) = unat C - lat_counted lg \<and>
     (\<forall>t. lat_thread (unat C) (lat_counted lg) l (pcs t)) \<and>
     log_ok (\<lambda>lg k. lat_open k \<longrightarrow> unat C \<le> lat_counted lg) lg \<and> lat_sleepers l pcs A"

lemma lat_local_outside: "lat_holds k = None \<Longrightarrow> lat_local l k"
  by (cases k) auto

lemma lat_thread_other:
  assumes "lat_thread c n l pc" and "n \<le> n'" and "l' = l \<or> \<not> inside lat_holds () pc"
  shows "lat_thread c n' l' pc"
proof (cases pc)
  case (T_At k)
  then have "lat_local l' k" using assms(1,3) lat_local_outside [of k l'] by auto
  with T_At assms(1,2) show ?thesis by auto
qed (use assms in auto)

lemma lat_notifying_upd:
  "lat_notifying pcs \<Longrightarrow> pcs t \<noteq> T_At Lat_Down_Test \<Longrightarrow> pcs t \<noteq> T_At Lat_Notify \<Longrightarrow>
    lat_notifying (pcs(t := pc))"
  unfolding lat_notifying_def by (metis fun_upd_apply)

lemma lat_notifying_new:
  "lat_notifying (pcs(t := T_At Lat_Notify))" "lat_notifying (pcs(t := T_At Lat_Down_Test))"
  unfolding lat_notifying_def by (metis fun_upd_same)+

lemma lat_sleepers_upd:
  assumes "lat_sleepers l pcs A" and "\<And>m ms f. pcs t \<noteq> T_Asleep m ms f"
    and "lat_notifying (pcs(t := pc)) \<or> 0 < lat_count l' \<or>
      l' = l \<and> pcs t \<noteq> T_At Lat_Down_Test \<and> pcs t \<noteq> T_At Lat_Notify"
  shows "lat_sleepers l' (pcs(t := pc)) A"
  unfolding lat_sleepers_def
proof (intro allI impI)
  fix u assume u: "A () u"
  then have "(\<exists>ms f. pcs u = T_Asleep () ms f) \<and> (0 < lat_count l \<or> lat_notifying pcs)"
    using assms(1) by (simp add: lat_sleepers_def)
  moreover from this assms(2) have "u \<noteq> t" by metis
  ultimately show "(\<exists>ms f. (pcs(t := pc)) u = T_Asleep () ms f) \<and>
      (0 < lat_count l' \<or> lat_notifying (pcs(t := pc)))"
    using assms(3) lat_notifying_upd [of pcs t pc] by auto
qed

lemma lat_J_upd:
  assumes J: "lat_J C l pcs lg A" and alone: "l' = l \<or> (\<forall>u. u \<noteq> t \<longrightarrow> \<not> inside lat_holds () (pcs u))"
    and "unat (lat_count l') = unat C - lat_counted lg'" and n: "lat_counted lg \<le> lat_counted lg'"
    and "log_ok (\<lambda>lg k. lat_open k \<longrightarrow> unat C \<le> lat_counted lg) lg'"
    and new: "lat_thread (unat C) (lat_counted lg') l' pc" and "lat_sleepers l' (pcs(t := pc)) A'"
  shows "lat_J C l' (pcs(t := pc)) lg' A'"
proof -
  have "lat_thread (unat C) (lat_counted lg') l' ((pcs(t := pc)) u)" for u
  proof (cases "u = t")
    case False
    have "lat_thread (unat C) (lat_counted lg) l (pcs u)" using J by (simp add: lat_J_def)
    with False n alone show ?thesis using lat_thread_other by auto
  qed (use new in simp)
  with assms show ?thesis by (simp add: lat_J_def)
qed

lemma lat_J_call:
  assumes "lat_J C l pcs lg A" and "pcs t = T_Idle \<or> pcs t = T_Ended k'" and "lat_start k"
  shows "lat_J C l (pcs(t := T_At k)) lg A"
  by (rule lat_J_upd [OF assms(1)])
    (use assms in \<open>auto simp: lat_J_def intro!: lat_sleepers_upd elim: lat_start.elims\<close>)

lemma lat_J_enter:
  assumes J: "lat_J C l pcs lg A" and pc: "pcs t = T_Entering m k"
  shows "lat_J C l (pcs(t := T_At k)) lg A"
proof (rule lat_J_upd [OF J])
  have "lat_thread (unat C) (lat_counted lg) l (T_Entering m k)"
    using J pc by (metis lat_J_def)
  then show "lat_thread (unat C) (lat_counted lg) l (T_At k)" by simp
qed (use J pc in \<open>auto simp: lat_J_def intro!: lat_sleepers_upd\<close>)

lemma lat_J_woken:
  assumes J: "lat_J C l pcs lg A" and pc: "pcs t = T_Asleep m ms f"
  shows "lat_J C l (pcs(t := T_Entering m (f r))) lg (A(m := (A m)(t := False)))"
proof (rule lat_J_upd [OF J])
  have "lat_thread (unat C) (lat_counted lg) l (T_Asleep m ms f)"
    using J pc by (metis lat_J_def)
  then show "lat_thread (unat C) (lat_counted lg) l (T_Entering m (f r))" by simp
  show "lat_sleepers l (pcs(t := T_Entering m (f r))) (A(m := (A m)(t := False)))"
    using J pc lat_notifying_upd [of pcs t] by (auto simp: lat_J_def lat_sleepers_def)
qed (use J in \<open>auto simp: lat_J_def\<close>)

lemma lat_J_run:
  assumes J: "lat_J C l pcs lg A" and pc: "pcs t = T_At k"
    and alone: "\<And>m u. lat_holds k = Some m \<Longrightarrow> u \<noteq> t \<Longrightarrow> \<not> inside lat_holds m (pcs u)"
    and step: "lat_prog fmt k l = (l', i)" and A': "sleepers_after t i A A'"
  shows "lat_J C l' (pcs(t := pc_after i)) (lg @ [(t, k)]) A'"
proof -
  have "lat_thread (unat C) (lat_counted lg) l (T_At k)" using J pc by (metis lat_J_def)
  then have loc: "lat_local l k" "lat_open k \<longrightarrow> unat C \<le> lat_counted lg" by auto
  have J': "unat (lat_count l) = unat C - lat_counted lg" "lat_sleepers l pcs A"
    "log_ok (\<lambda>lg k. lat_open k \<longrightarrow> unat C \<le> lat_counted lg) lg"
    using J by (simp_all add: lat_J_def)
  have zero: "lat_count l = 0 \<Longrightarrow> unat C \<le> lat_counted lg" using J'(1) by simp
  have same: "lat_J C l' (pcs(t := pc_after i)) (lg @ [(t, k)]) A'"
    if "l' = l" "A' = A" "lat_thread (unat C) (lat_counted lg) l (pc_after i)" "lat_counted [(t, k)] = 0"
      "k \<noteq> Lat_Notify" "k \<noteq> Lat_Down_Test \<or> 0 < lat_count l \<or> pc_after i = T_At Lat_Notify"
    by (rule lat_J_upd [OF J])
      (use that J' loc pc in \<open>auto intro!: lat_sleepers_upd intro: lat_notifying_new\<close>)
  show ?thesis
  proof (cases k)
    case (Lat_Down_Zero n)
    show ?thesis
      by (rule lat_J_upd [OF J])
        (use Lat_Down_Zero step A' J' loc alone pc in
          \<open>auto simp: word_less_nat_alt intro!: lat_sleepers_upd intro: lat_notifying_new\<close>)
  next
    case (Lat_Down_Sub n)
    show ?thesis
      by (rule lat_J_upd [OF J])
        (use Lat_Down_Sub step A' J' loc alone pc in
          \<open>auto simp: unat_sub word_le_nat_alt intro!: lat_sleepers_upd intro: lat_notifying_new\<close>)
  next
    case Lat_Notify
    show ?thesis
      by (rule lat_J_upd [OF J])
        (use Lat_Notify step A' J' loc in \<open>auto simp: lat_sleepers_def\<close>)
  next
    case (Lat_Test md)
    show ?thesis
    proof (cases "0 < lat_count l")
      case True
      show ?thesis
        by (rule lat_J_upd [OF J])
          (use True Lat_Test step A' J' in \<open>auto simp: lat_sleepers_def\<close>)
    next
      case False
      then have "lat_count l = 0" by (simp add: word_gt_0)
      with Lat_Test zero step A' show ?thesis by (intro same) auto
    qed
  next
    case (Lat_Woken md r)
    then show ?thesis
      using step A' by (intro same; cases md; cases r) (auto simp: cv_Wait_def cv_WaitFor_def split: if_splits)
  qed (rule same; use step A' zero loc in \<open>auto simp: word_gt_0 split: if_splits\<close>)+
qed

lemma lat_disciplined: "disciplined lat_holds k (snd (lat_prog fmt k l))"
  by (cases k) (auto split: sum.splits)

interpretation latch: thread_program lat_start "lat_prog fmt" lat_holds any_return
  "latch_new C" "lat_J C"
  for fmt :: "dword \<Rightarrow> string" and C :: size_t
proof unfold_locales
  show "lat_start k \<Longrightarrow> lat_holds k = None" for k by (cases k) auto
  show "lat_J C (latch_new C) (\<lambda>_. T_Idle) [] (\<lambda>_ _. False)"
    by (simp add: lat_J_def latch_new_def lat_sleepers_def)
qed (auto intro: lat_disciplined lat_J_call lat_J_enter lat_J_run lat_J_woken)

section \<open>Properties\<close>

text \<open>
  C22. Under any schedule, and whatever the sleeps return, a \<open>Latch\<close> opens exactly when it has
  been counted down: its counter is the initial value less what \<open>CountDown\<close> was given, cut
  off at zero, and whenever \<open>Wait\<close> returns, \<open>WaitFor\<close> returns \<open>true\<close> or \<open>IsReady\<close> returns
  \<open>true\<close>, the whole initial value has been counted down before.
\<close>

theorem latch_opens_when_counted_down:
  assumes "win_sync_ok api" and "reach (lat_step api fmt) (mon_init api (latch_new C)) s"
  shows "unat (lat_count (mon_data s)) = unat C - lat_counted (mon_log s) \<and>
    (\<forall>i < length (mon_log s). case snd (mon_log s ! i) of
        Lat_Wait_End Forever Ret_Void \<Rightarrow> unat C \<le> lat_counted (take i (mon_log s))
      | Lat_Wait_End (Within ms) (Ret_Bool True) \<Rightarrow> unat C \<le> lat_counted (take i (mon_log s))
      | Lat_Ready_End True \<Rightarrow> unat C \<le> lat_counted (take i (mon_log s))
      | _ \<Rightarrow> True)"
proof -
  have J: "lat_J C (mon_data s) (mon_pcs s) (mon_log s) (mon_asleep api s)"
    using assms by (intro latch.reach_J) simp_all
  then have "lat_open (snd (mon_log s ! i)) \<longrightarrow> unat C \<le> lat_counted (take i (mon_log s))"
    if "i < length (mon_log s)" for i
    using that by (simp add: lat_J_def log_ok_def)
  with J show ?thesis
    by (fastforce simp: lat_J_def split: lat_pc.split wait_mode.split call_result.split bool.split)
qed

text \<open>
  A \<open>Latch\<close> loses no wake-up: when nobody is in the critical section, a thread that is
  still asleep and that no \<open>NotifyAll\<close> has reached waits for a counter above zero.
\<close>

theorem latch_no_lost_wakeup:
  assumes "win_sync_ok api" and "reach (lat_step api fmt) (mon_init api (latch_new C)) s"
    and "\<forall>u. \<not> inside lat_holds () (mon_pcs s u)" and "api_asleep api (mon_cv s ()) t"
  shows "(\<exists>ms f. mon_pcs s t = T_Asleep () ms f) \<and> 0 < lat_count (mon_data s)"
proof -
  have "lat_sleepers (mon_data s) (mon_pcs s) (mon_asleep api s)"
    using latch.reach_J [OF assms(1) _ assms(2)] by (simp add: lat_J_def)
  moreover have "\<not> lat_notifying (mon_pcs s)"
  proof
    assume "lat_notifying (mon_pcs s)"
    then obtain u where "mon_pcs s u = T_At Lat_Down_Test \<or> mon_pcs s u = T_At Lat_Notify"
      by (auto simp: lat_notifying_def)
    then have "inside lat_holds () (mon_pcs s u)" by auto
    with assms(3) show False by blast
  qed
  ultimately show ?thesis using assms(4) by (simp add: lat_sleepers_def mon_asleep_def)
qed

definition lat_wait_run :: "lat_pc mon_label list" where
  "lat_wait_run = [M_Call 1 (Lat_Wait_Call Forever), M_Run 1, M_Enter 1, M_Run 1]"

definition lat_open_run :: "lat_pc mon_label list" where
  "lat_open_run = [M_Call 2 (Lat_Down_Call 5), M_Run 2, M_Enter 2, M_Run 2, M_Run 2, M_Run 2, M_Run 2,
     M_Run 2, M_Run 2, M_Woken 1 Cv_True, M_Enter 1, M_Run 1, M_Run 1, M_Run 1, M_Run 1]"

lemma lat_demo_run:
  "\<exists>s. run (lat_step fifo_sync fmt) lat_wait_run (mon_init fifo_sync (latch_new 2)) = Some s \<and>
     (\<forall>u. \<not> inside lat_holds () (mon_pcs s u)) \<and> api_asleep fifo_sync (mon_cv s ()) 1 \<and>
     (\<exists>s'. run (lat_step fifo_sync fmt) lat_open_run s = Some s' \<and>
        mon_pcs s' 1 = T_Ended (Lat_Wait_End Forever Ret_Void))"
  by (simp add: lat_wait_run_def lat_open_run_def sync_run_simps latch_new_def)

theorem latch_opens_when_counted_down_witness:
  "\<exists>s :: (unit, lat_pc, latch) fifo_mon. mon_pcs s 1 = T_Ended (Lat_Wait_End Forever Ret_Void) \<and>
     unat (lat_count (mon_data s)) = unat (2 :: size_t) - lat_counted (mon_log s)"
proof -
  obtain s s' where s: "run (lat_step fifo_sync (\<lambda>_. [])) lat_wait_run (mon_init fifo_sync (latch_new 2)) = Some s"
    "run (lat_step fifo_sync (\<lambda>_. [])) lat_open_run s = Some s'"
    "mon_pcs s' 1 = T_Ended (Lat_Wait_End Forever Ret_Void)"
    using lat_demo_run [of "\<lambda>_. []"] by blast
  have "reach (lat_step fifo_sync (\<lambda>_. [])) (mon_init fifo_sync (latch_new 2)) s'"
    by (rule reach_trans [OF run_reach [OF s(2)] run_reach [OF s(1)]])
  from latch_opens_when_counted_down [OF fifo_sync_ok this, THEN conjunct1] s(3) show ?thesis by blast
qed

theorem latch_no_lost_wakeup_witness:
  "\<exists>s :: (unit, lat_pc, latch) fifo_mon. api_asleep fifo_sync (mon_cv s ()) 1 \<and>
     0 < lat_count (mon_data s)"
proof -
  obtain s where s: "run (lat_step fifo_sync (\<lambda>_. [])) lat_wait_run (mon_init fifo_sync (latch_new 2)) = Some s"
    "\<forall>u. \<not> inside lat_holds () (mon_pcs s u)" "api_asleep fifo_sync (mon_cv s ()) 1"
    using lat_demo_run [of "\<lambda>_. []"] by blast
  from s(1) have "reach (lat_step fifo_sync (\<lambda>_. [])) (mon_init fifo_sync (latch_new 2)) s"
    by (rule run_reach)
  from latch_no_lost_wakeup [OF fifo_sync_ok this s(2,3), THEN conjunct2] s(3) show ?thesis by blast
qed

section \<open>Critical sections are left\<close>

text \<open>How many statements a thread executes at most before it leaves or sleeps.\<close>

fun lat_rank :: "lat_pc \<Rightarrow> latch \<Rightarrow> nat" where
  "lat_rank (Lat_Down_Cmp n) l = 4"
| "lat_rank (Lat_Down_Zero n) l = 3"
| "lat_rank (Lat_Down_Sub n) l = 3"
| "lat_rank Lat_Down_Test l = 2"
| "lat_rank Lat_Notify l = 1"
| "lat_rank (Lat_Woken md r) l = 2"
| "lat_rank (Lat_Test md) l = 1"
| "lat_rank Lat_Ready_Read l = 1"
| "lat_rank _ l = 0"

interpretation latch_sections: bounded_sections lat_start "lat_prog fmt" lat_holds lat_rank for fmt
proof
  show "lat_start k \<Longrightarrow> lat_holds k = None" for k by (cases k) auto
  show "lat_holds k = Some m \<Longrightarrow> next_inside (snd (lat_prog fmt k d)) = Some k' \<Longrightarrow>
      lat_rank k' (fst (lat_prog fmt k d)) < lat_rank k d" for k m d k'
    by (cases k) (auto split: if_splits sum.splits)
qed (rule lat_disciplined)

end
