(* ===== verification/Once.thy ===== *)
theory Once
  imports Monitor
begin

text \<open>Class \<open>OnceFlag\<close> and the function \<open>CallOnce\<close> of \<open>src/src/ezthread/sync.hpp\<close>.\<close>

section \<open>State and methods\<close>

record once_flag =
  once_called :: bool

definition once_new :: once_flag where
  "once_new = \<lparr>once_called = False\<rparr>"

text \<open>
  The client's function returns, or throws: \<open>f\<close> is the exception it throws in this call, if
  any. The first test of the flag is outside the critical section.
\<close>

datatype 'x once_pc =
    Once_Call "'x exn option"
  | Once_Lock "'x exn option"
  | Once_Check "'x exn option"
  | Once_Func "'x exn option"
  | Once_Store
  | Once_Unlock "'x call_result"
  | Once_End "'x call_result"

fun once_start :: "'x once_pc \<Rightarrow> bool" where
  "once_start (Once_Call f) \<longleftrightarrow> True"
| "once_start _ \<longleftrightarrow> False"

fun once_prog :: "'x once_pc \<Rightarrow> once_flag \<Rightarrow> once_flag \<times> (unit, 'x once_pc) instr" where
  "once_prog (Once_Call f) fl = (fl, I_Goto (if once_called fl then Once_End Ret_Void else Once_Lock f))"
| "once_prog (Once_Lock f) fl = (fl, I_Enter () (Once_Check f))"
| "once_prog (Once_Check f) fl =
     (fl, I_Goto (if \<not> once_called fl then Once_Func f else Once_Unlock Ret_Void))"
| "once_prog (Once_Func f) fl =
     (fl, I_Goto (case f of None \<Rightarrow> Once_Store | Some e \<Rightarrow> Once_Unlock (Ret_Throw e)))"
| "once_prog Once_Store fl = (fl\<lparr>once_called := True\<rparr>, I_Goto (Once_Unlock Ret_Void))"
| "once_prog (Once_Unlock r) fl = (fl, I_Leave () (Once_End r))"
| "once_prog (Once_End r) fl = (fl, I_Finish (Once_End r))"

fun once_holds :: "'x once_pc \<Rightarrow> unit option" where
  "once_holds (Once_Call f) = None"
| "once_holds (Once_Lock f) = None"
| "once_holds (Once_End r) = None"
| "once_holds _ = Some ()"

abbreviation once_step ::
  "('c, 'v) win_sync \<Rightarrow> 'x once_pc mon_label \<Rightarrow>
   ('c, 'v, unit, 'x once_pc, once_flag) mon \<Rightarrow> ('c, 'v, unit, 'x once_pc, once_flag) mon option" where
  "once_step api \<equiv> mon_step api once_start once_prog"

section \<open>The invariant\<close>

text \<open>The calls of the client's function that have returned normally.\<close>

fun once_success :: "tid \<times> 'x once_pc \<Rightarrow> bool" where
  "once_success (t, Once_Func None) \<longleftrightarrow> True"
| "once_success _ \<longleftrightarrow> False"

definition once_runs :: "(tid \<times> 'x once_pc) list \<Rightarrow> nat" where
  "once_runs lg = length (filter once_success lg)"

lemma once_runs_simps [simp]:
  "once_runs [] = 0" "once_runs (lg @ lg') = once_runs lg + once_runs lg'"
  "once_runs (x # lg) = (if once_success x then 1 else 0) + once_runs lg"
  by (simp_all add: once_runs_def)

fun once_event :: "nat \<Rightarrow> 'x once_pc \<Rightarrow> bool" where
  "once_event n (Once_Func f) \<longleftrightarrow> n = 0"
| "once_event n (Once_End r) \<longleftrightarrow> (r = Ret_Void \<longrightarrow> n = 1)"
| "once_event n _ \<longleftrightarrow> True"

fun once_local :: "once_flag \<Rightarrow> nat \<Rightarrow> 'x once_pc \<Rightarrow> bool" where
  "once_local fl n (Once_Func f) \<longleftrightarrow> \<not> once_called fl \<and> n = 0"
| "once_local fl n Once_Store \<longleftrightarrow> \<not> once_called fl \<and> n = 1"
| "once_local fl n (Once_Unlock r) \<longleftrightarrow> (if r = Ret_Void then once_called fl else \<not> once_called fl) \<and>
     n = (if once_called fl then 1 else 0)"
| "once_local fl n (Once_End r) \<longleftrightarrow> (r = Ret_Void \<longrightarrow> once_called fl)"
| "once_local fl n (Once_Check f) \<longleftrightarrow> n = (if once_called fl then 1 else 0)"
| "once_local fl n _ \<longleftrightarrow> True"

definition once_J ::
  "once_flag \<Rightarrow> (tid \<Rightarrow> (unit, 'x once_pc) thread_pc) \<Rightarrow> (tid \<times> 'x once_pc) list \<Rightarrow>
   (unit \<Rightarrow> tid \<Rightarrow> bool) \<Rightarrow> bool" where
  "once_J fl pcs lg A \<longleftrightarrow>
     (\<forall>t k. pcs t = T_At k \<longrightarrow> once_local fl (once_runs lg) k) \<and>
     (\<forall>t m k. pcs t = T_Entering m k \<longrightarrow> (\<exists>f. k = Once_Check f)) \<and>
     (\<forall>t m ms f. pcs t \<noteq> T_Asleep m ms f) \<and>
     ((\<forall>t. \<not> inside once_holds () (pcs t)) \<longrightarrow> once_runs lg = (if once_called fl then 1 else 0)) \<and>
     (once_called fl \<longrightarrow> once_runs lg = 1) \<and>
     log_ok (\<lambda>lg. once_event (once_runs lg)) lg"

lemma once_J_enter:
  assumes "once_J fl pcs lg A" and "pcs t = T_Entering m k" and "once_holds k = Some m"
    and "\<And>u. \<not> inside once_holds m (pcs u)"
  shows "once_J fl (pcs(t := T_At k)) lg A"
proof -
  obtain f where "k = Once_Check f" using assms(1,2) unfolding once_J_def by blast
  with assms show ?thesis by (auto simp: once_J_def)
qed

lemma once_J_call:
  assumes "once_J fl pcs lg A" and "pcs t = T_Idle \<or> pcs t = T_Ended k'" and "once_start k"
  shows "once_J fl (pcs(t := T_At k)) lg A"
proof -
  obtain f where "k = Once_Call f" using assms(3) by (cases k) auto
  moreover from this assms(2) have "inside once_holds () ((pcs(t := T_At k)) u) \<longleftrightarrow> inside once_holds () (pcs u)"
    for u by auto
  ultimately show ?thesis using assms(1) by (auto simp: once_J_def)
qed

lemma once_local_outside:
  "once_local fl n k \<Longrightarrow> once_holds k = None \<Longrightarrow> (once_called fl \<Longrightarrow> once_called fl') \<Longrightarrow> once_local fl' n' k"
  by (cases k) auto

lemma once_J_run:
  assumes J: "once_J fl pcs lg A" and pc: "pcs t = T_At k"
    and alone: "\<And>m u. once_holds k = Some m \<Longrightarrow> u \<noteq> t \<Longrightarrow> \<not> inside once_holds m (pcs u)"
    and step: "once_prog k fl = (fl', i)" and A': "sleepers_after t i A A'"
  shows "once_J fl' (pcs(t := pc_after i)) (lg @ [(t, k)]) A'"
proof -
  have loc: "once_local fl (once_runs lg) k" and run1: "once_called fl \<longrightarrow> once_runs lg = 1"
    and hist: "log_ok (\<lambda>lg. once_event (once_runs lg)) lg"
    using J pc by (simp_all add: once_J_def)
  have mono: "once_called fl \<Longrightarrow> once_called fl'" using step by (cases k) auto
  have others: "once_local fl' (once_runs (lg @ [(t, k)])) k'" if "u \<noteq> t" "pcs u = T_At k'" for u k'
  proof (cases "once_holds k")
    case None
    then have "fl' = fl" "once_runs (lg @ [(t, k)]) = once_runs lg" using step by (cases k; auto)+
    with J that show ?thesis by (simp add: once_J_def)
  next
    case (Some m)
    then have "once_holds k' = None" using alone [of "()" u] that by simp
    then show ?thesis using J that mono once_local_outside unfolding once_J_def by blast
  qed
  have rest: "once_runs lg = (if once_called fl then 1 else 0)"
    if "once_holds k = None" "\<forall>u. \<not> inside once_holds () ((pcs(t := pc_after i)) u)"
  proof -
    have "\<not> inside once_holds () (pcs u)" for u
      using that pc by (cases "u = t") (auto dest: spec [of _ u])
    with J show ?thesis by (simp add: once_J_def)
  qed
  have new: "(\<forall>k'. pc_after i = T_At k' \<longrightarrow> once_local fl' (once_runs (lg @ [(t, k)])) k') \<and>
      (\<forall>m k'. pc_after i = T_Entering m k' \<longrightarrow> (\<exists>f. k' = Once_Check f)) \<and>
      (\<forall>m ms f. pc_after i \<noteq> T_Asleep m ms f) \<and>
      (once_called fl' \<longrightarrow> once_runs (lg @ [(t, k)]) = 1) \<and> once_event (once_runs lg) k"
    using step loc run1 by (cases k) (auto split: option.splits)
  have "once_runs (lg @ [(t, k)]) = (if once_called fl' then 1 else 0)"
    if out: "\<forall>u. \<not> inside once_holds () ((pcs(t := pc_after i)) u)"
  proof (cases "once_holds k")
    case None
    with rest [OF None out] show ?thesis using step by (cases k) auto
  next
    case (Some m)
    with step loc out [rule_format, of t] show ?thesis by (cases k) (auto split: option.splits if_splits)
  qed
  with J new others hist show ?thesis
    unfolding once_J_def by (auto split: if_splits)
qed

lemma once_disciplined: "disciplined once_holds k (snd (once_prog k fl))"
  by (cases k) (auto split: option.splits)

interpretation once: thread_program once_start once_prog once_holds any_return once_new once_J
proof unfold_locales
  show "once_start k \<Longrightarrow> once_holds k = None" for k :: "'x once_pc" by (cases k) auto
  show "once_J once_new (\<lambda>_. T_Idle) [] (\<lambda>_ _. False)" by (simp add: once_J_def once_new_def)
  show "once_J d pcs lg A \<Longrightarrow> pcs t = T_Asleep m ms f \<Longrightarrow> any_return ms r \<Longrightarrow>
      once_J d (pcs(t := T_Entering m (f r))) lg (A(m := (A m)(t := False)))" for d pcs lg A t m ms f r
    by (simp add: once_J_def)
qed (auto intro: once_disciplined once_J_call once_J_enter once_J_run)

section \<open>Properties\<close>

text \<open>
  C21. Under any schedule of any number of calls of \<open>CallOnce\<close> on one flag: the client's
  function is never called after a call of it has returned normally, so it returns normally
  at most once; and every \<open>CallOnce\<close> that returns normally does so after that. A function
  that throws leaves the flag unset, and the exception is passed on.
\<close>

theorem call_once_exactly_once:
  fixes s :: "('c, 'v, unit, 'a once_pc, once_flag) mon"
  assumes "win_sync_ok api" and "reach (once_step api) (mon_init api once_new) s"
  shows "(\<forall>i < length (mon_log s). case snd (mon_log s ! i) of
        Once_Func f \<Rightarrow> once_runs (take i (mon_log s)) = 0
      | Once_End Ret_Void \<Rightarrow> once_runs (take i (mon_log s)) = 1
      | _ \<Rightarrow> True) \<and>
    (once_called (mon_data s) \<longrightarrow> once_runs (mon_log s) = 1)"
proof -
  have J: "once_J (mon_data s) (mon_pcs s) (mon_log s) (mon_asleep api s)"
    using assms by (intro once.reach_J) simp_all
  have "case k of Once_Func f \<Rightarrow> n = 0 | Once_End Ret_Void \<Rightarrow> n = 1 | _ \<Rightarrow> True"
    if "once_event n k" for n and k :: "'a once_pc"
    using that by (cases k) (auto split: call_result.split)
  with J show ?thesis by (simp add: once_J_def log_ok_def)
qed

text \<open>A first call whose function throws, and two calls that overlap.\<close>

definition once_demo :: "unit once_pc mon_label list" where
  "once_demo = [M_Call 1 (Once_Call (Some (User_Exn ()))), M_Run 1, M_Run 1, M_Enter 1, M_Run 1, M_Run 1,
     M_Call 2 (Once_Call None), M_Run 2, M_Run 2, M_Run 1, M_Run 1, M_Enter 2, M_Run 2,
     M_Call 3 (Once_Call None), M_Run 3, M_Run 3, M_Run 2, M_Run 2, M_Run 2, M_Run 2,
     M_Enter 3, M_Run 3, M_Run 3, M_Run 3]"

lemma once_demo_run:
  "\<exists>s. run (once_step fifo_sync) once_demo (mon_init fifo_sync once_new) = Some s \<and>
     mon_pcs s 1 = T_Ended (Once_End (Ret_Throw (User_Exn ()))) \<and>
     mon_pcs s 2 = T_Ended (Once_End Ret_Void) \<and> mon_pcs s 3 = T_Ended (Once_End Ret_Void) \<and>
     once_called (mon_data s)"
  by (simp add: once_demo_def sync_run_simps once_new_def)

theorem call_once_exactly_once_witness:
  "\<exists>s :: (unit, unit once_pc, once_flag) fifo_mon. mon_pcs s 2 = T_Ended (Once_End Ret_Void) \<and>
     mon_pcs s 3 = T_Ended (Once_End Ret_Void) \<and> once_runs (mon_log s) = 1"
proof -
  obtain s where s: "run (once_step fifo_sync) once_demo (mon_init fifo_sync once_new) = Some s"
    "mon_pcs s 2 = T_Ended (Once_End Ret_Void)" "mon_pcs s 3 = T_Ended (Once_End Ret_Void)"
    "once_called (mon_data s)"
    using once_demo_run by blast
  from s(1) have "reach (once_step fifo_sync) (mon_init fifo_sync once_new) s" by (rule run_reach)
  from call_once_exactly_once [OF fifo_sync_ok this, THEN conjunct2] s(2-4) show ?thesis by blast
qed

section \<open>Critical sections are left\<close>

text \<open>How many statements a thread executes at most before it leaves or sleeps.\<close>

fun once_rank :: "'x once_pc \<Rightarrow> once_flag \<Rightarrow> nat" where
  "once_rank (Once_Check f) fl = 3"
| "once_rank (Once_Func f) fl = 2"
| "once_rank Once_Store fl = 1"
| "once_rank _ fl = 0"

interpretation once_sections: bounded_sections once_start once_prog once_holds once_rank
proof
  show "once_start k \<Longrightarrow> once_holds k = None" for k :: "'x once_pc" by (cases k) auto
  show "once_holds k = Some m \<Longrightarrow> next_inside (snd (once_prog k d)) = Some k' \<Longrightarrow>
      once_rank k' (fst (once_prog k d)) < once_rank k d" for k k' :: "'x once_pc" and m d
    by (cases k) (auto split: if_splits option.splits)
qed (rule once_disciplined)

end
