(* ===== verification/Kernel.thy ===== *)
theory Kernel
  imports Prelude
begin

text \<open>
  The kernel objects of the Windows API that the classes \<open>Thread\<close>, \<open>Mutex\<close>, \<open>Event\<close> and
  \<open>Semaphore\<close> wrap: the calls as a parameter, with what the documentation says of them, an
  instance, and the contract of a class that owns one handle.
\<close>

section \<open>Handles and results\<close>

type_synonym win_handle = "64 word"

definition INVALID_HANDLE_VALUE :: win_handle where "INVALID_HANDLE_VALUE = - 1"
definition NO_TIMEOUT :: dword where "NO_TIMEOUT = 0xFFFFFFFF"
definition WAIT_OBJECT_0 :: dword where "WAIT_OBJECT_0 = 0"
definition WAIT_ABANDONED :: dword where "WAIT_ABANDONED = 0x80"
definition WAIT_TIMEOUT :: dword where "WAIT_TIMEOUT = 258"
definition WAIT_FAILED :: dword where "WAIT_FAILED = 0xFFFFFFFF"

lemmas wait_codes = WAIT_OBJECT_0_def WAIT_ABANDONED_def WAIT_TIMEOUT_def WAIT_FAILED_def

text \<open>
  What the documentation describes of an object: the owner of a mutex with the number of its
  entries, and whether the last owner ended without releasing it; whether an event is
  reset by hand and whether it is set; the count and maximum of a semaphore; whether a
  thread has ended.
\<close>

datatype kobj =
    K_Mutex "(tid \<times> nat) option" bool
  | K_Event bool bool
  | K_Semaphore int int
  | K_Thread bool

record kview =
  kv_handles :: "win_handle \<Rightarrow> nat option"
  kv_objs :: "nat \<Rightarrow> kobj"

datatype create_call =
    Create_Mutex bool "string option"
  | Create_Event bool bool "string option"
  | Create_Semaphore int int "string option"
  | Create_Thread
  | Open_Mutex string
  | Open_Event string
  | Open_Semaphore string

datatype signal_call = Release_Mutex | Set_Event | Reset_Event | Release_Semaphore int

text \<open>
  The calls over a state \<open>'w\<close> of the system, each by a thread; a wait is \<open>None\<close> while it
  blocks. \<open>k_view\<close> observes the state.
\<close>

record 'w win_kernel =
  k_view :: "'w \<Rightarrow> kview"
  k_last_error :: "tid \<Rightarrow> 'w \<Rightarrow> dword"
  k_create :: "tid \<Rightarrow> create_call \<Rightarrow> 'w \<Rightarrow> win_handle \<times> 'w"
  k_signal :: "tid \<Rightarrow> signal_call \<Rightarrow> win_handle \<Rightarrow> 'w \<Rightarrow> bool \<times> 'w"
  k_wait :: "tid \<Rightarrow> win_handle \<Rightarrow> dword \<Rightarrow> 'w \<Rightarrow> (dword \<times> 'w) option"
  k_close :: "tid \<Rightarrow> win_handle \<Rightarrow> 'w \<Rightarrow> bool \<times> 'w"
  k_thread_id :: "win_handle \<Rightarrow> 'w \<Rightarrow> dword"

section \<open>The documented behaviour\<close>

fun new_object :: "tid \<Rightarrow> create_call \<Rightarrow> kobj option" where
  "new_object t (Create_Mutex own nm) = Some (K_Mutex (if own then Some (t, 1) else None) False)"
| "new_object t (Create_Event man ini nm) = Some (K_Event man ini)"
| "new_object t (Create_Semaphore ini mx nm) =
     (if 0 \<le> ini \<and> ini \<le> mx \<and> 0 < mx then Some (K_Semaphore ini mx) else None)"
| "new_object t Create_Thread = Some (K_Thread False)"
| "new_object t _ = None"

text \<open>Whether the call may find an existing object, by its name, and of which kind it must be.\<close>

fun may_find :: "create_call \<Rightarrow> kobj \<Rightarrow> bool" where
  "may_find (Create_Mutex own nm) (K_Mutex ow ab) \<longleftrightarrow> nm \<noteq> None"
| "may_find (Create_Event man ini nm) (K_Event man' b) \<longleftrightarrow> nm \<noteq> None"
| "may_find (Create_Semaphore ini mx nm) (K_Semaphore n mx') \<longleftrightarrow> nm \<noteq> None"
| "may_find (Open_Mutex nm) (K_Mutex ow ab) \<longleftrightarrow> True"
| "may_find (Open_Event nm) (K_Event man b) \<longleftrightarrow> True"
| "may_find (Open_Semaphore nm) (K_Semaphore n mx) \<longleftrightarrow> True"
| "may_find _ _ \<longleftrightarrow> False"

text \<open>A wait that the object satisfies: the result and the object after it.\<close>

fun wait_object :: "tid \<Rightarrow> kobj \<Rightarrow> (dword \<times> kobj) option" where
  "wait_object t (K_Mutex None ab) =
     Some (if ab then WAIT_ABANDONED else WAIT_OBJECT_0, K_Mutex (Some (t, 1)) False)"
| "wait_object t (K_Mutex (Some (u, n)) ab) =
     (if u = t then Some (WAIT_OBJECT_0, K_Mutex (Some (t, Suc n)) ab) else None)"
| "wait_object t (K_Event man b) = (if b then Some (WAIT_OBJECT_0, K_Event man man) else None)"
| "wait_object t (K_Semaphore n mx) = (if 0 < n then Some (WAIT_OBJECT_0, K_Semaphore (n - 1) mx) else None)"
| "wait_object t (K_Thread ended) = (if ended then Some (WAIT_OBJECT_0, K_Thread True) else None)"

text \<open>The object after a call that succeeds; \<open>None\<close> for a call that fails.\<close>

fun signal_object :: "tid \<Rightarrow> signal_call \<Rightarrow> kobj \<Rightarrow> kobj option" where
  "signal_object t Release_Mutex (K_Mutex (Some (u, n)) ab) =
     (if u = t then Some (K_Mutex (if n \<le> 1 then None else Some (t, n - 1)) False) else None)"
| "signal_object t Set_Event (K_Event man b) = Some (K_Event man True)"
| "signal_object t Reset_Event (K_Event man b) = Some (K_Event man False)"
| "signal_object t (Release_Semaphore k) (K_Semaphore n mx) =
     (if 0 < k \<and> n + k \<le> mx then Some (K_Semaphore (n + k) mx) else None)"
| "signal_object t _ _ = None"

definition create_ok :: "tid \<Rightarrow> create_call \<Rightarrow> kview \<Rightarrow> win_handle \<Rightarrow> kview \<Rightarrow> bool" where
  "create_ok t c v h v' \<longleftrightarrow>
     h = 0 \<and> v' = v \<or>
     h \<noteq> 0 \<and> h \<noteq> INVALID_HANDLE_VALUE \<and> kv_handles v h = None \<and>
       (\<exists>m. kv_handles v' = (kv_handles v)(h \<mapsto> m) \<and>
          (kv_objs v' = kv_objs v \<and> may_find c (kv_objs v m) \<or>
           (\<exists>x. new_object t c = Some x \<and> (\<forall>g. kv_handles v g \<noteq> Some m) \<and> kv_objs v' = (kv_objs v)(m := x))))"

definition wait_ok :: "tid \<Rightarrow> win_handle \<Rightarrow> dword \<Rightarrow> kview \<Rightarrow> (dword \<times> kview) option \<Rightarrow> bool" where
  "wait_ok t h ms v res \<longleftrightarrow>
     (case kv_handles v h of
        None \<Rightarrow> res = Some (WAIT_FAILED, v)
      | Some m \<Rightarrow>
          (case wait_object t (kv_objs v m) of
             Some (r, x) \<Rightarrow> res = Some (r, v\<lparr>kv_objs := (kv_objs v)(m := x)\<rparr>)
           | None \<Rightarrow> res = None \<and> ms \<noteq> 0 \<or> res = Some (WAIT_TIMEOUT, v) \<and> ms \<noteq> NO_TIMEOUT))"

definition signal_ok :: "tid \<Rightarrow> signal_call \<Rightarrow> win_handle \<Rightarrow> kview \<Rightarrow> bool \<Rightarrow> kview \<Rightarrow> bool" where
  "signal_ok t c h v b v' \<longleftrightarrow>
     (case kv_handles v h of
        None \<Rightarrow> \<not> b \<and> v' = v
      | Some m \<Rightarrow>
          (case signal_object t c (kv_objs v m) of
             None \<Rightarrow> \<not> b \<and> v' = v
           | Some x \<Rightarrow> b \<and> v' = v\<lparr>kv_objs := (kv_objs v)(m := x)\<rparr>))"

definition close_ok :: "win_handle \<Rightarrow> kview \<Rightarrow> bool \<Rightarrow> kview \<Rightarrow> bool" where
  "close_ok h v b v' \<longleftrightarrow>
     b = (kv_handles v h \<noteq> None) \<and> v' = v\<lparr>kv_handles := (kv_handles v)(h := None)\<rparr>"

text \<open>The null pointer is never an open handle.\<close>

definition win_kernel_ok :: "'w win_kernel \<Rightarrow> bool" where
  "win_kernel_ok K \<longleftrightarrow>
     (\<forall>w. kv_handles (k_view K w) 0 = None) \<and>
     (\<forall>t c w. create_ok t c (k_view K w) (fst (k_create K t c w)) (k_view K (snd (k_create K t c w)))) \<and>
     (\<forall>t h ms w. wait_ok t h ms (k_view K w) (map_option (apsnd (k_view K)) (k_wait K t h ms w))) \<and>
     (\<forall>t c h w. signal_ok t c h (k_view K w) (fst (k_signal K t c h w)) (k_view K (snd (k_signal K t c h w)))) \<and>
     (\<forall>t h w. close_ok h (k_view K w) (fst (k_close K t h w)) (k_view K (snd (k_close K t h w))))"

lemma win_kernelD:
  assumes "win_kernel_ok K"
  shows "kv_handles (k_view K w) 0 = None"
    and "k_create K t c w = (h, w') \<Longrightarrow> create_ok t c (k_view K w) h (k_view K w')"
    and "k_wait K t h ms w = Some (r, w') \<Longrightarrow> wait_ok t h ms (k_view K w) (Some (r, k_view K w'))"
    and "k_wait K t h ms w = None \<Longrightarrow> wait_ok t h ms (k_view K w) None"
    and "k_signal K t s h w = (b, w') \<Longrightarrow> signal_ok t s h (k_view K w) b (k_view K w')"
    and "k_close K t h w = (b, w') \<Longrightarrow> close_ok h (k_view K w) b (k_view K w')"
proof -
  have all: "\<forall>w. kv_handles (k_view K w) 0 = None"
    "\<forall>t c w. create_ok t c (k_view K w) (fst (k_create K t c w)) (k_view K (snd (k_create K t c w)))"
    "\<forall>t h ms w. wait_ok t h ms (k_view K w) (map_option (apsnd (k_view K)) (k_wait K t h ms w))"
    "\<forall>t c h w. signal_ok t c h (k_view K w) (fst (k_signal K t c h w)) (k_view K (snd (k_signal K t c h w)))"
    "\<forall>t h w. close_ok h (k_view K w) (fst (k_close K t h w)) (k_view K (snd (k_close K t h w)))"
    using assms unfolding win_kernel_ok_def by blast+
  show "kv_handles (k_view K w) 0 = None" using all(1) by blast
  show "k_create K t c w = (h, w') \<Longrightarrow> create_ok t c (k_view K w) h (k_view K w')"
    using all(2) by (metis fst_conv snd_conv)
  show "k_wait K t h ms w = Some (r, w') \<Longrightarrow> wait_ok t h ms (k_view K w) (Some (r, k_view K w'))"
    using all(3) [rule_format, of t h ms w] by simp
  show "k_wait K t h ms w = None \<Longrightarrow> wait_ok t h ms (k_view K w) None"
    using all(3) [rule_format, of t h ms w] by simp
  show "k_signal K t s h w = (b, w') \<Longrightarrow> signal_ok t s h (k_view K w) b (k_view K w')"
    using all(4) by (metis fst_conv snd_conv)
  show "k_close K t h w = (b, w') \<Longrightarrow> close_ok h (k_view K w) b (k_view K w')"
    using all(5) by (metis fst_conv snd_conv)
qed

definition open_handles :: "'w win_kernel \<Rightarrow> 'w \<Rightarrow> win_handle set" where
  "open_handles K w = dom (kv_handles (k_view K w))"

lemma open_create:
  assumes "win_kernel_ok K" and "k_create K t c w = (h, w')"
  shows "h = 0 \<and> open_handles K w' = open_handles K w \<or>
    h \<noteq> 0 \<and> h \<notin> open_handles K w \<and> open_handles K w' = insert h (open_handles K w)"
  using win_kernelD(2) [OF assms] by (auto simp: create_ok_def open_handles_def)

lemma open_close:
  assumes "win_kernel_ok K"
  shows "open_handles K (snd (k_close K t h w)) = open_handles K w - {h}"
  using win_kernelD(6) [OF assms, of t h w] by (cases "k_close K t h w") (auto simp: close_ok_def open_handles_def)

lemma open_close_view:
  assumes "win_kernel_ok K" and "k_view K w' = k_view K w"
  shows "open_handles K (snd (k_close K t h w')) = open_handles K w - {h}"
  by (subst open_close [OF assms(1)]) (simp add: open_handles_def assms(2))

lemma null_not_open: "win_kernel_ok K \<Longrightarrow> 0 \<notin> open_handles K w"
  by (auto simp: open_handles_def win_kernelD(1))

section \<open>An instance\<close>

text \<open>
  A table of handles with the numbers of their objects, the objects, and a supply of handles;
  names are not kept, so an open by name finds nothing.
\<close>

record table =
  tb_handles :: "(win_handle \<times> nat) list"
  tb_objs :: "nat \<Rightarrow> kobj"
  tb_next :: nat

definition table_view :: "table \<Rightarrow> kview" where
  "table_view w = \<lparr>kv_handles = (\<lambda>h. if h = 0 then None else map_of (tb_handles w) h), kv_objs = tb_objs w\<rparr>"

definition table_create :: "tid \<Rightarrow> create_call \<Rightarrow> table \<Rightarrow> win_handle \<times> table" where
  "table_create t c w =
     (let n = tb_next w; h = word_of_nat n in
      case new_object t c of
        None \<Rightarrow> (0, w)
      | Some x \<Rightarrow>
          if h = 0 \<or> h = INVALID_HANDLE_VALUE \<or> h \<in> fst ` set (tb_handles w) \<or> n \<in> snd ` set (tb_handles w)
          then (0, w)
          else (h, \<lparr>tb_handles = (h, n) # tb_handles w, tb_objs = (tb_objs w)(n := x), tb_next = Suc n\<rparr>))"

definition table_wait :: "tid \<Rightarrow> win_handle \<Rightarrow> dword \<Rightarrow> table \<Rightarrow> (dword \<times> table) option" where
  "table_wait t h ms w =
     (case kv_handles (table_view w) h of
        None \<Rightarrow> Some (WAIT_FAILED, w)
      | Some m \<Rightarrow>
          (case wait_object t (tb_objs w m) of
             Some (r, x) \<Rightarrow> Some (r, w\<lparr>tb_objs := (tb_objs w)(m := x)\<rparr>)
           | None \<Rightarrow> if ms = NO_TIMEOUT then None else Some (WAIT_TIMEOUT, w)))"

definition table_signal :: "tid \<Rightarrow> signal_call \<Rightarrow> win_handle \<Rightarrow> table \<Rightarrow> bool \<times> table" where
  "table_signal t c h w =
     (case kv_handles (table_view w) h of
        None \<Rightarrow> (False, w)
      | Some m \<Rightarrow>
          (case signal_object t c (tb_objs w m) of
             None \<Rightarrow> (False, w)
           | Some x \<Rightarrow> (True, w\<lparr>tb_objs := (tb_objs w)(m := x)\<rparr>)))"

definition table_close :: "tid \<Rightarrow> win_handle \<Rightarrow> table \<Rightarrow> bool \<times> table" where
  "table_close t h w =
     (kv_handles (table_view w) h \<noteq> None, w\<lparr>tb_handles := filter (\<lambda>(g, m). g \<noteq> h) (tb_handles w)\<rparr>)"

definition table_kernel :: "table win_kernel" where
  "table_kernel = \<lparr>k_view = table_view, k_last_error = (\<lambda>t w. 0), k_create = table_create,
     k_signal = table_signal, k_wait = table_wait, k_close = table_close, k_thread_id = (\<lambda>h w. ucast h)\<rparr>"

definition table_new :: table where
  "table_new = \<lparr>tb_handles = [], tb_objs = (\<lambda>_. K_Thread True), tb_next = 1\<rparr>"

lemma map_of_filter_key: "map_of (filter (\<lambda>(g, m). g \<noteq> h) xs) = (map_of xs)(h := None)"
  by (induction xs) (auto simp: fun_eq_iff)

lemma table_kernel_ok [simp]: "win_kernel_ok table_kernel"
proof -
  have "create_ok t c (table_view w) (fst (table_create t c w)) (table_view (snd (table_create t c w)))" for t c w
  proof (cases "fst (table_create t c w) = 0")
    case True
    then have "snd (table_create t c w) = w"
      by (auto simp: table_create_def Let_def split: option.splits if_splits)
    with True show ?thesis by (simp add: create_ok_def)
  next
    case False
    let ?h = "word_of_nat (tb_next w) :: win_handle"
    obtain x where x: "new_object t c = Some x" "?h \<noteq> 0" "?h \<noteq> INVALID_HANDLE_VALUE"
      "?h \<notin> fst ` set (tb_handles w)" "tb_next w \<notin> snd ` set (tb_handles w)"
      "table_create t c w = (?h, \<lparr>tb_handles = (?h, tb_next w) # tb_handles w,
         tb_objs = (tb_objs w)(tb_next w := x), tb_next = Suc (tb_next w)\<rparr>)"
      using False by (auto simp: table_create_def Let_def split: option.splits if_splits)
    have "map_of (tb_handles w) g \<noteq> Some (tb_next w)" for g
      using x(5) by (auto dest: map_of_SomeD intro: rev_image_eqI)
    moreover have "map_of (tb_handles w) ?h = None" using x(4) by (simp add: map_of_eq_None_iff)
    moreover have "kv_handles (table_view (snd (table_create t c w))) = (kv_handles (table_view w))(?h \<mapsto> tb_next w)"
      using x(2,6) by (auto simp: table_view_def fun_eq_iff)
    ultimately show ?thesis
      using x by (auto simp: create_ok_def table_view_def)
  qed
  moreover have "wait_ok t h ms (table_view w) (map_option (apsnd table_view) (table_wait t h ms w))" for t h ms w
    by (auto simp: wait_ok_def table_wait_def table_view_def NO_TIMEOUT_def split: option.splits)
  moreover have "signal_ok t c h (table_view w) (fst (table_signal t c h w)) (table_view (snd (table_signal t c h w)))"
    for t c h w
    by (auto simp: signal_ok_def table_signal_def table_view_def split: option.splits)
  moreover have "close_ok h (table_view w) (fst (table_close t h w)) (table_view (snd (table_close t h w)))" for t h w
    by (auto simp: close_ok_def table_close_def table_view_def map_of_filter_key fun_eq_iff)
  ultimately show ?thesis by (simp add: win_kernel_ok_def table_kernel_def table_view_def)
qed

end
