(* ===== verification/Handle_Classes.thy ===== *)
theory Handle_Classes
  imports Kernel
begin

text \<open>
  Classes \<open>Mutex\<close> (\<open>src/src/ezthread/mutex.cpp\<close>), \<open>Event\<close> (\<open>event.cpp\<close>), \<open>Semaphore\<close> (\<open>semaphore.cpp\<close>)
  and \<open>Thread\<close> (\<open>core.hpp\<close>, \<open>core.cpp\<close>) over the kernel objects of theory \<open>Kernel\<close>: an object is the
  handle it owns, or a null pointer after it was moved from.
\<close>

section \<open>Exceptions\<close>

text \<open>The constructor of \<open>ThreadException\<close> reads the last error unless one is given.\<close>

definition throw_last :: "'w win_kernel \<Rightarrow> tid \<Rightarrow> string \<Rightarrow> 'w \<Rightarrow> ('x, 'a) result" where
  "throw_last K t msg w = Inl (Thread_Exn msg (k_last_error K t w))"

fun exn_ErrorCode :: "'x exn \<Rightarrow> dword option" where
  "exn_ErrorCode (Thread_Exn msg e) = Some e"
| "exn_ErrorCode (User_Exn x) = None"

definition check_BOOL :: "'w win_kernel \<Rightarrow> tid \<Rightarrow> bool \<Rightarrow> string \<Rightarrow> 'w \<Rightarrow> ('x, unit) result" where
  "check_BOOL K t res op w = (if \<not> res then throw_last K t op w else Inr ())"

definition check_HANDLE :: "'w win_kernel \<Rightarrow> tid \<Rightarrow> win_handle \<Rightarrow> string \<Rightarrow> 'w \<Rightarrow> ('x, unit) result" where
  "check_HANDLE K t res op w =
     (if res = 0 \<or> res = INVALID_HANDLE_VALUE then throw_last K t op w else Inr ())"

definition check_DWORD :: "'w win_kernel \<Rightarrow> tid \<Rightarrow> dword \<Rightarrow> string \<Rightarrow> 'w \<Rightarrow> ('x, unit) result" where
  "check_DWORD K t res op w = (if res = 0 then throw_last K t op w else Inr ())"

text \<open>A call that creates or opens an object, with the exception for a null handle.\<close>

definition checked_create ::
  "'w win_kernel \<Rightarrow> tid \<Rightarrow> create_call \<Rightarrow> string \<Rightarrow> 'w \<Rightarrow> ('x, win_handle) result \<times> 'w" where
  "checked_create K t c msg w =
     (case k_create K t c w of
        (h, w') \<Rightarrow> if h = 0 then (throw_last K t msg w', w') else (Inr h, w'))"

text \<open>What the methods that test a wait make of its result, and of a call that may fail.\<close>

definition wait_flag :: "'w win_kernel \<Rightarrow> tid \<Rightarrow> dword \<times> 'w \<Rightarrow> ('x, bool) result \<times> 'w" where
  "wait_flag K t rw =
     (case rw of (r, w') \<Rightarrow>
        (if r = WAIT_OBJECT_0 then Inr True
         else if r = WAIT_TIMEOUT then Inr False
         else throw_last K t ''WaitForSingleObject failed'' w', w'))"

definition checked_signal ::
  "'w win_kernel \<Rightarrow> tid \<Rightarrow> signal_call \<Rightarrow> win_handle \<Rightarrow> string \<Rightarrow> 'w \<Rightarrow> ('x, unit) result \<times> 'w" where
  "checked_signal K t c h msg w =
     (case k_signal K t c h w of (b, w') \<Rightarrow> (if \<not> b then throw_last K t msg w' else Inr (), w'))"

section \<open>Mutex\<close>

definition mutex_new ::
  "'w win_kernel \<Rightarrow> tid \<Rightarrow> bool \<times> string option \<Rightarrow> 'w \<Rightarrow> ('x, win_handle) result \<times> 'w" where
  "mutex_new K t c w = checked_create K t (Create_Mutex (fst c) (snd c)) ''CreateMutex failed'' w"

definition mutex_destroy :: "'w win_kernel \<Rightarrow> tid \<Rightarrow> win_handle \<Rightarrow> 'w \<Rightarrow> 'w" where
  "mutex_destroy K t h w = (if h \<noteq> 0 then snd (k_close K t h w) else w)"

definition mutex_move :: "win_handle \<Rightarrow> win_handle \<times> win_handle" where
  "mutex_move other = (other, 0)"

definition mutex_assign ::
  "'w win_kernel \<Rightarrow> tid \<Rightarrow> bool \<Rightarrow> win_handle \<Rightarrow> win_handle \<Rightarrow> 'w \<Rightarrow> win_handle \<times> win_handle \<times> 'w" where
  "mutex_assign K t same this other w =
     (if same then (this, this, w)
      else (other, 0, if this \<noteq> 0 then snd (k_close K t this w) else w))"

definition mutex_Lock ::
  "'w win_kernel \<Rightarrow> tid \<Rightarrow> win_handle \<Rightarrow> dword \<Rightarrow> 'w \<Rightarrow> (('x, unit) result \<times> 'w) option" where
  "mutex_Lock K t h timeoutMs w =
     map_option (\<lambda>(r, w').
       (if r \<noteq> WAIT_OBJECT_0
        then (if r = WAIT_TIMEOUT then Inl (Thread_Exn ''Mutex lock timeout'' WAIT_TIMEOUT)
              else if r = WAIT_ABANDONED then Inl (Thread_Exn ''Mutex was abandoned'' WAIT_ABANDONED)
              else throw_last K t ''WaitForSingleObject failed'' w')
        else Inr (), w')) (k_wait K t h timeoutMs w)"

definition mutex_TryLock ::
  "'w win_kernel \<Rightarrow> tid \<Rightarrow> win_handle \<Rightarrow> 'w \<Rightarrow> (('x, bool) result \<times> 'w) option" where
  "mutex_TryLock K t h w = map_option (wait_flag K t) (k_wait K t h 0 w)"

definition mutex_Unlock :: "'w win_kernel \<Rightarrow> tid \<Rightarrow> win_handle \<Rightarrow> 'w \<Rightarrow> ('x, unit) result \<times> 'w" where
  "mutex_Unlock K t h w = checked_signal K t Release_Mutex h ''ReleaseMutex failed'' w"

text \<open>
  \<open>OpenExisting\<close> makes an object with the default constructor, which creates a mutex of its own,
  and writes the opened handle over the handle of that.
\<close>

text \<open>The names that \<open>std::lock_guard\<close> asks for; \<open>lock\<close> waits without limit, the default of \<open>Lock\<close>.\<close>

definition mutex_lock :: "'w win_kernel \<Rightarrow> tid \<Rightarrow> win_handle \<Rightarrow> 'w \<Rightarrow> (('x, unit) result \<times> 'w) option" where
  "mutex_lock K t h w = mutex_Lock K t h NO_TIMEOUT w"

definition mutex_unlock :: "'w win_kernel \<Rightarrow> tid \<Rightarrow> win_handle \<Rightarrow> 'w \<Rightarrow> ('x, unit) result \<times> 'w" where
  "mutex_unlock K t h w = mutex_Unlock K t h w"

definition mutex_GetNativeHandle :: "win_handle \<Rightarrow> win_handle" where
  "mutex_GetNativeHandle h = h"

definition mutex_OpenExisting ::
  "'w win_kernel \<Rightarrow> tid \<Rightarrow> string \<Rightarrow> 'w \<Rightarrow> ('x, win_handle) result \<times> 'w" where
  "mutex_OpenExisting K t nm w =
     (case checked_create K t (Open_Mutex nm) ''OpenMutex failed'' w of
        (Inl e, w1) \<Rightarrow> (Inl e, w1)
      | (Inr handle, w1) \<Rightarrow>
          (case mutex_new K t (False, None) w1 of
             (Inl e, w2) \<Rightarrow> (Inl e, w2)
           | (Inr own, w2) \<Rightarrow> (Inr handle, w2)))"

section \<open>Event\<close>

datatype event_type = AutoReset | ManualReset

definition event_new ::
  "'w win_kernel \<Rightarrow> tid \<Rightarrow> event_type \<times> bool \<times> string option \<Rightarrow> 'w \<Rightarrow> ('x, win_handle) result \<times> 'w" where
  "event_new K t c w =
     (case c of (ty, initiallySignaled, nm) \<Rightarrow>
        checked_create K t (Create_Event (ty = ManualReset) initiallySignaled nm) ''CreateEvent failed'' w)"

definition event_destroy :: "'w win_kernel \<Rightarrow> tid \<Rightarrow> win_handle \<Rightarrow> 'w \<Rightarrow> 'w" where
  "event_destroy K t h w = (if h \<noteq> 0 then snd (k_close K t h w) else w)"

definition event_move :: "win_handle \<Rightarrow> win_handle \<times> win_handle" where
  "event_move other = (other, 0)"

definition event_assign ::
  "'w win_kernel \<Rightarrow> tid \<Rightarrow> bool \<Rightarrow> win_handle \<Rightarrow> win_handle \<Rightarrow> 'w \<Rightarrow> win_handle \<times> win_handle \<times> 'w" where
  "event_assign K t same this other w =
     (if same then (this, this, w)
      else (other, 0, if this \<noteq> 0 then snd (k_close K t this w) else w))"

definition event_Set :: "'w win_kernel \<Rightarrow> tid \<Rightarrow> win_handle \<Rightarrow> 'w \<Rightarrow> ('x, unit) result \<times> 'w" where
  "event_Set K t h w = checked_signal K t Set_Event h ''SetEvent failed'' w"

definition event_Reset :: "'w win_kernel \<Rightarrow> tid \<Rightarrow> win_handle \<Rightarrow> 'w \<Rightarrow> ('x, unit) result \<times> 'w" where
  "event_Reset K t h w = checked_signal K t Reset_Event h ''ResetEvent failed'' w"

definition event_Wait ::
  "'w win_kernel \<Rightarrow> tid \<Rightarrow> win_handle \<Rightarrow> dword \<Rightarrow> 'w \<Rightarrow> (('x, bool) result \<times> 'w) option" where
  "event_Wait K t h timeoutMs w = map_option (wait_flag K t) (k_wait K t h timeoutMs w)"

definition event_IsSignaled ::
  "'w win_kernel \<Rightarrow> tid \<Rightarrow> win_handle \<Rightarrow> 'w \<Rightarrow> (('x, bool) result \<times> 'w) option" where
  "event_IsSignaled K t h w = map_option (wait_flag K t) (k_wait K t h 0 w)"

definition event_GetNativeHandle :: "win_handle \<Rightarrow> win_handle" where
  "event_GetNativeHandle h = h"

definition event_OpenExisting ::
  "'w win_kernel \<Rightarrow> tid \<Rightarrow> string \<Rightarrow> 'w \<Rightarrow> ('x, win_handle) result \<times> 'w" where
  "event_OpenExisting K t nm w =
     (case checked_create K t (Open_Event nm) ''OpenEvent failed'' w of
        (Inl e, w1) \<Rightarrow> (Inl e, w1)
      | (Inr handle, w1) \<Rightarrow>
          (case event_new K t (AutoReset, False, None) w1 of
             (Inl e, w2) \<Rightarrow> (Inl e, w2)
           | (Inr own, w2) \<Rightarrow> (Inr handle, w2)))"

section \<open>Semaphore\<close>

definition semaphore_new ::
  "'w win_kernel \<Rightarrow> tid \<Rightarrow> int \<times> int \<times> string option \<Rightarrow> 'w \<Rightarrow> ('x, win_handle) result \<times> 'w" where
  "semaphore_new K t c w =
     (case c of (initialCount, maxCount, nm) \<Rightarrow>
        checked_create K t (Create_Semaphore initialCount maxCount nm) ''CreateSemaphore failed'' w)"

definition semaphore_destroy :: "'w win_kernel \<Rightarrow> tid \<Rightarrow> win_handle \<Rightarrow> 'w \<Rightarrow> 'w" where
  "semaphore_destroy K t h w = (if h \<noteq> 0 then snd (k_close K t h w) else w)"

definition semaphore_move :: "win_handle \<Rightarrow> win_handle \<times> win_handle" where
  "semaphore_move other = (other, 0)"

definition semaphore_assign ::
  "'w win_kernel \<Rightarrow> tid \<Rightarrow> bool \<Rightarrow> win_handle \<Rightarrow> win_handle \<Rightarrow> 'w \<Rightarrow> win_handle \<times> win_handle \<times> 'w" where
  "semaphore_assign K t same this other w =
     (if same then (this, this, w)
      else (other, 0, if this \<noteq> 0 then snd (k_close K t this w) else w))"

definition semaphore_Acquire ::
  "'w win_kernel \<Rightarrow> tid \<Rightarrow> win_handle \<Rightarrow> dword \<Rightarrow> 'w \<Rightarrow> (('x, unit) result \<times> 'w) option" where
  "semaphore_Acquire K t h timeoutMs w =
     map_option (\<lambda>(r, w').
       (if r \<noteq> WAIT_OBJECT_0
        then (if r = WAIT_TIMEOUT then Inl (Thread_Exn ''Semaphore acquire timeout'' WAIT_TIMEOUT)
              else throw_last K t ''WaitForSingleObject failed'' w')
        else Inr (), w')) (k_wait K t h timeoutMs w)"

definition semaphore_TryAcquire ::
  "'w win_kernel \<Rightarrow> tid \<Rightarrow> win_handle \<Rightarrow> 'w \<Rightarrow> (('x, bool) result \<times> 'w) option" where
  "semaphore_TryAcquire K t h w = map_option (wait_flag K t) (k_wait K t h 0 w)"

definition semaphore_Release ::
  "'w win_kernel \<Rightarrow> tid \<Rightarrow> win_handle \<Rightarrow> int \<Rightarrow> 'w \<Rightarrow> ('x, unit) result \<times> 'w" where
  "semaphore_Release K t h cnt w = checked_signal K t (Release_Semaphore cnt) h ''ReleaseSemaphore failed'' w"

text \<open>Here the handle of the object that the constructor made is closed first.\<close>

definition semaphore_GetNativeHandle :: "win_handle \<Rightarrow> win_handle" where
  "semaphore_GetNativeHandle h = h"

definition semaphore_OpenExisting ::
  "'w win_kernel \<Rightarrow> tid \<Rightarrow> string \<Rightarrow> 'w \<Rightarrow> ('x, win_handle) result \<times> 'w" where
  "semaphore_OpenExisting K t nm w =
     (case checked_create K t (Open_Semaphore nm) ''OpenSemaphore failed'' w of
        (Inl e, w1) \<Rightarrow> (Inl e, w1)
      | (Inr handle, w1) \<Rightarrow>
          (case semaphore_new K t (0, 1, None) w1 of
             (Inl e, w2) \<Rightarrow> (Inl e, w2)
           | (Inr own, w2) \<Rightarrow> (Inr handle, snd (k_close K t own w2))))"

section \<open>The contract of a class that owns a handle\<close>

text \<open>
  Objects of one class in numbered slots, with their constructor, destructor and the two moves,
  called by any thread in any order; a constructor that throws leaves no object.
\<close>

record 'w owners =
  ow_world :: 'w
  ow_slots :: "nat \<Rightarrow> win_handle option"

datatype 'c own_op = Own_New nat 'c | Own_Destroy nat | Own_Move nat nat | Own_Assign nat nat

fun own_step ::
  "(tid \<Rightarrow> 'c \<Rightarrow> 'w \<Rightarrow> ('x, win_handle) result \<times> 'w) \<Rightarrow> (tid \<Rightarrow> win_handle \<Rightarrow> 'w \<Rightarrow> 'w) \<Rightarrow>
   (win_handle \<Rightarrow> win_handle \<times> win_handle) \<Rightarrow>
   (tid \<Rightarrow> bool \<Rightarrow> win_handle \<Rightarrow> win_handle \<Rightarrow> 'w \<Rightarrow> win_handle \<times> win_handle \<times> 'w) \<Rightarrow>
   tid \<times> 'c own_op \<Rightarrow> 'w owners \<Rightarrow> 'w owners option" where
  "own_step new destroy move assign (t, Own_New a c) s =
     (case ow_slots s a of
        Some h \<Rightarrow> None
      | None \<Rightarrow> (case new t c (ow_world s) of
            (Inl e, w) \<Rightarrow> Some (s\<lparr>ow_world := w\<rparr>)
          | (Inr h, w) \<Rightarrow> Some (s\<lparr>ow_world := w, ow_slots := (ow_slots s)(a := Some h)\<rparr>)))"
| "own_step new destroy move assign (t, Own_Destroy a) s =
     (case ow_slots s a of
        None \<Rightarrow> None
      | Some h \<Rightarrow> Some (s\<lparr>ow_world := destroy t h (ow_world s), ow_slots := (ow_slots s)(a := None)\<rparr>))"
| "own_step new destroy move assign (t, Own_Move a b) s =
     (case (ow_slots s a, ow_slots s b) of
        (None, Some h) \<Rightarrow> (case move h of
            (this, other) \<Rightarrow> Some (s\<lparr>ow_slots := (ow_slots s)(b := Some other, a := Some this)\<rparr>))
      | _ \<Rightarrow> None)"
| "own_step new destroy move assign (t, Own_Assign a b) s =
     (case (ow_slots s a, ow_slots s b) of
        (Some g, Some h) \<Rightarrow> (case assign t (a = b) g h (ow_world s) of
            (this, other, w) \<Rightarrow> Some (s\<lparr>ow_world := w, ow_slots := (ow_slots s)(b := Some other, a := Some this)\<rparr>))
      | _ \<Rightarrow> None)"

definition no_objects :: "'w \<Rightarrow> 'w owners" where
  "no_objects w = \<lparr>ow_world = w, ow_slots = (\<lambda>_. None)\<rparr>"

text \<open>The handle that an object owns.\<close>

fun held :: "win_handle option \<Rightarrow> win_handle option" where
  "held (Some h) = (if h = 0 then None else Some h)"
| "held None = None"

text \<open>No two objects own the same handle, and besides the handles \<open>H\<close> just theirs are open.\<close>

definition owned_exactly :: "('w \<Rightarrow> win_handle set) \<Rightarrow> win_handle set \<Rightarrow> 'w owners \<Rightarrow> bool" where
  "owned_exactly opened H s \<longleftrightarrow> claims_unique held (ow_slots s) \<and>
     opened (ow_world s) = H \<union> claims held (ow_slots s) \<and> H \<inter> claims held (ow_slots s) = {}"

locale raii =
  fixes opened :: "'w \<Rightarrow> win_handle set"
    and new :: "tid \<Rightarrow> 'c \<Rightarrow> 'w \<Rightarrow> ('x, win_handle) result \<times> 'w"
    and destroy :: "tid \<Rightarrow> win_handle \<Rightarrow> 'w \<Rightarrow> 'w"
    and move :: "win_handle \<Rightarrow> win_handle \<times> win_handle"
    and assign :: "tid \<Rightarrow> bool \<Rightarrow> win_handle \<Rightarrow> win_handle \<Rightarrow> 'w \<Rightarrow> win_handle \<times> win_handle \<times> 'w"
  assumes new_returns: "new t c w = (Inr h, w') \<Longrightarrow>
      h \<noteq> 0 \<and> h \<notin> opened w \<and> opened w' = insert h (opened w)"
    and new_throws: "new t c w = (Inl e, w') \<Longrightarrow> opened w' = opened w"
    and destroy_closes: "opened (destroy t h w) = opened w - {h}"
    and move_hands_over: "move h = (h, 0)"
    and assign_closes: "assign t same g h w = (if same then (g, g, w) else (h, 0, destroy t g w))"
    and null_closed: "0 \<notin> opened w"
begin

lemma claims_drop:
  assumes "claims_unique held f"
  shows "claims_unique held (f(a := None))" and "claims held (f(a := None)) = claims held f - set_option (held (f a))"
proof -
  show "claims_unique held (f(a := None))"
    using assms by (auto simp: claims_unique_def split: if_splits)
  show "claims held (f(a := None)) = claims held f - set_option (held (f a))"
  proof (cases "held (f a)")
    case None
    then show ?thesis using claims_same(1) [of held None f a] by simp
  next
    case (Some h)
    then show ?thesis using claims_remove(1) [OF assms Some, of None] by simp
  qed
qed

lemma claims_set:
  assumes "claims_unique held f" and "f a = None" and "h \<noteq> 0 \<longrightarrow> h \<notin> claims held f"
  shows "claims_unique held (f(a := Some h))"
    and "claims held (f(a := Some h)) = claims held f \<union> (if h = 0 then {} else {h})"
proof -
  show "claims_unique held (f(a := Some h))"
  proof (cases "h = 0")
    case True
    then show ?thesis using assms claims_same(2) [of held "Some h" f a] by simp
  next
    case False
    then show ?thesis using assms by (intro claims_unique_add [where p = h]) auto
  qed
  show "claims held (f(a := Some h)) = claims held f \<union> (if h = 0 then {} else {h})"
    using assms claims_same(1) [of held "Some h" f a] claims_add [of held f a "Some h" h] by auto
qed

lemma owned_step:
  assumes own: "owned_exactly opened H s" and step: "own_step new destroy move assign (t, op) s = Some s'"
  shows "owned_exactly opened H s'"
proof (cases op)
  case (Own_New a c)
  then show ?thesis
    using own step claims_set [of "ow_slots s" a]
    by (auto simp: owned_exactly_def split: option.splits prod.splits sum.splits dest!: new_returns new_throws)
next
  case (Own_Destroy a)
  then obtain h where h: "ow_slots s a = Some h" "s' = s\<lparr>ow_world := destroy t h (ow_world s), ow_slots := (ow_slots s)(a := None)\<rparr>"
    using step by (auto split: option.splits)
  have "H \<inter> {h} = {} \<or> h = 0"
    using own claimsI [of held "ow_slots s" a h] h(1) by (auto simp: owned_exactly_def)
  moreover have "h = 0 \<Longrightarrow> opened (ow_world s) - {h} = opened (ow_world s)" using null_closed by blast
  ultimately show ?thesis
    using own h claims_drop [of "ow_slots s" a] by (auto simp: owned_exactly_def destroy_closes)
next
  case (Own_Move a b)
  then obtain h where h: "ow_slots s a = None" "ow_slots s b = Some h"
    "s' = s\<lparr>ow_slots := (ow_slots s)(b := Some 0, a := Some h)\<rparr>"
    using step by (auto split: option.splits simp: move_hands_over)
  then have ab: "a \<noteq> b" by auto
  let ?f = "(ow_slots s)(b := None)"
  have drop: "claims_unique held ?f" "claims held ?f = claims held (ow_slots s) - set_option (held (Some h))"
    using own claims_drop [of "ow_slots s" b] h(2) by (auto simp: owned_exactly_def)
  let ?g = "?f(b := Some 0)"
  have g: "claims_unique held ?g" "claims held ?g = claims held ?f"
    using claims_set [OF drop(1), of b 0] by auto
  have "claims_unique held (?g(a := Some h)) \<and> claims held (?g(a := Some h)) = claims held ?g \<union> (if h = 0 then {} else {h})"
    using claims_set [OF g(1), of a h] h(1) ab g(2) drop(2) by auto
  moreover have "h \<noteq> 0 \<Longrightarrow> h \<in> claims held (ow_slots s)" using claimsI [of held "ow_slots s" b h] h(2) by simp
  ultimately have "claims_unique held (?g(a := Some h)) \<and> claims held (?g(a := Some h)) = claims held (ow_slots s)"
    using g(2) drop(2) by auto
  with own h(3) show ?thesis by (simp add: owned_exactly_def)
next
  case (Own_Assign a b)
  then obtain g h where gh: "ow_slots s a = Some g" "ow_slots s b = Some h"
    using step by (auto split: option.splits)
  show ?thesis
  proof (cases "a = b")
    case True
    with gh Own_Assign step have "s' = s" by (auto simp: assign_closes fun_upd_idem)
    with own show ?thesis by simp
  next
    case ab: False
    then have s': "s' = s\<lparr>ow_world := destroy t g (ow_world s), ow_slots := (ow_slots s)(b := Some 0, a := Some h)\<rparr>"
      using gh Own_Assign step by (simp add: assign_closes)
    have u: "claims_unique held (ow_slots s)" using own by (simp add: owned_exactly_def)
    have distinct: "g \<noteq> 0 \<Longrightarrow> g \<noteq> h"
      using u ab gh unfolding claims_unique_def by (metis held.simps(1))
    let ?f = "(ow_slots s)(a := None)" and ?f' = "(ow_slots s)(a := None, b := None)"
    have f: "claims_unique held ?f" "claims held ?f = claims held (ow_slots s) - set_option (held (Some g))"
      using claims_drop [OF u, of a] gh(1) by auto
    have f': "claims_unique held ?f'" "claims held ?f' = claims held ?f - set_option (held (Some h))"
      using claims_drop [OF f(1), of b] gh(2) ab by auto
    let ?g = "?f'(b := Some 0)"
    have g0: "claims_unique held ?g" "claims held ?g = claims held ?f'"
      using claims_set [OF f'(1), of b 0] by auto
    have "claims_unique held (?g(a := Some h)) \<and> claims held (?g(a := Some h)) = claims held ?g \<union> (if h = 0 then {} else {h})"
      using claims_set [OF g0(1), of a h] ab g0(2) f'(2) by auto
    moreover have "h \<noteq> 0 \<Longrightarrow> h \<in> claims held (ow_slots s)" using claimsI [of held "ow_slots s" b h] gh(2) by simp
    moreover have "?g(a := Some h) = (ow_slots s)(b := Some 0, a := Some h)" using ab by auto
    ultimately have "claims_unique held (ow_slots s') \<and>
        claims held (ow_slots s') = claims held (ow_slots s) - set_option (held (Some g))"
      using g0(2) f'(2) f(2) distinct s' by auto
    moreover have "g \<noteq> 0 \<Longrightarrow> g \<in> claims held (ow_slots s)" using claimsI [of held "ow_slots s" a g] gh(1) by simp
    ultimately show ?thesis
      using own null_closed [of "ow_world s"] unfolding owned_exactly_def s'
      by (cases "g = 0") (auto simp: destroy_closes)
  qed
qed

text \<open>
  Whatever is done with the objects, the open handles are those from before and, each owned by
  one object, those of the objects.
\<close>

lemma owned_reach:
  assumes "reach (own_step new destroy move assign) (no_objects w) s"
  shows "owned_exactly opened (opened w) s"
  using assms
proof (induction rule: reach.induct)
  case reach_init
  show ?case by (simp add: owned_exactly_def no_objects_def claims_none)
next
  case (reach_step s l s')
  then show ?case using owned_step by (cases l) blast
qed

lemma nothing_leaks:
  assumes "reach (own_step new destroy move assign) (no_objects w) s" and "\<And>a. ow_slots s a = None"
  shows "opened (ow_world s) = opened w"
  using owned_reach [OF assms(1)] assms(2) claims_none [of held "ow_slots s"] by (simp add: owned_exactly_def)

end

section \<open>The classes own their handles\<close>

lemma checked_create_open:
  assumes "win_kernel_ok K"
  shows "checked_create K t c msg w = (Inr h, w') \<Longrightarrow>
      h \<noteq> 0 \<and> h \<notin> open_handles K w \<and> open_handles K w' = insert h (open_handles K w)"
    and "checked_create K t c msg w = (Inl e, w') \<Longrightarrow> open_handles K w' = open_handles K w"
  using open_create [OF assms, of t c w]
  by (auto simp: checked_create_def throw_last_def split: prod.splits if_splits)

abbreviation mutex_objects ::
  "'w win_kernel \<Rightarrow> tid \<times> (bool \<times> string option) own_op \<Rightarrow> 'w owners \<Rightarrow> 'w owners option" where
  "mutex_objects K \<equiv> own_step (mutex_new K :: _ \<Rightarrow> _ \<Rightarrow> _ \<Rightarrow> (unit, win_handle) result \<times> _)
     (mutex_destroy K) mutex_move (mutex_assign K)"

abbreviation event_objects ::
  "'w win_kernel \<Rightarrow> tid \<times> (event_type \<times> bool \<times> string option) own_op \<Rightarrow> 'w owners \<Rightarrow> 'w owners option" where
  "event_objects K \<equiv> own_step (event_new K :: _ \<Rightarrow> _ \<Rightarrow> _ \<Rightarrow> (unit, win_handle) result \<times> _)
     (event_destroy K) event_move (event_assign K)"

abbreviation semaphore_objects ::
  "'w win_kernel \<Rightarrow> tid \<times> (int \<times> int \<times> string option) own_op \<Rightarrow> 'w owners \<Rightarrow> 'w owners option" where
  "semaphore_objects K \<equiv> own_step (semaphore_new K :: _ \<Rightarrow> _ \<Rightarrow> _ \<Rightarrow> (unit, win_handle) result \<times> _)
     (semaphore_destroy K) semaphore_move (semaphore_assign K)"

text \<open>The system as long as it keeps to its documentation, as the contract of a class asks.\<close>

definition no_kernel :: "'w win_kernel" where
  "no_kernel = \<lparr>k_view = (\<lambda>w. \<lparr>kv_handles = (\<lambda>h. None), kv_objs = (\<lambda>m. K_Thread True)\<rparr>), k_last_error = (\<lambda>t w. 0),
     k_create = (\<lambda>t c w. (0, w)), k_signal = (\<lambda>t c h w. (False, w)), k_wait = (\<lambda>t h ms w. Some (WAIT_FAILED, w)),
     k_close = (\<lambda>t h w. (False, w)), k_thread_id = (\<lambda>h w. 0)\<rparr>"

definition documented :: "'w win_kernel \<Rightarrow> 'w win_kernel" where
  "documented K = (if win_kernel_ok K then K else no_kernel)"

lemma documented_ok [simp]: "win_kernel_ok (documented K)" "win_kernel_ok K \<Longrightarrow> documented K = K"
  by (auto simp: documented_def no_kernel_def win_kernel_ok_def create_ok_def wait_ok_def signal_ok_def close_ok_def)

interpretation mutex_raii: raii "open_handles (documented K)"
  "mutex_new (documented K) :: _ \<Rightarrow> _ \<Rightarrow> _ \<Rightarrow> (unit, win_handle) result \<times> _"
  "mutex_destroy (documented K)" mutex_move "mutex_assign (documented K)"
  for K :: "'w win_kernel"
  by unfold_locales (auto simp: mutex_new_def mutex_destroy_def mutex_move_def mutex_assign_def open_close
    null_not_open split: prod.splits
    dest: checked_create_open [OF documented_ok(1)])

interpretation event_raii: raii "open_handles (documented K)"
  "event_new (documented K) :: _ \<Rightarrow> _ \<Rightarrow> _ \<Rightarrow> (unit, win_handle) result \<times> _"
  "event_destroy (documented K)" event_move "event_assign (documented K)"
  for K :: "'w win_kernel"
  by unfold_locales (auto simp: event_new_def event_destroy_def event_move_def event_assign_def open_close
    null_not_open split: prod.splits
    dest: checked_create_open [OF documented_ok(1)])

interpretation semaphore_raii: raii "open_handles (documented K)"
  "semaphore_new (documented K) :: _ \<Rightarrow> _ \<Rightarrow> _ \<Rightarrow> (unit, win_handle) result \<times> _"
  "semaphore_destroy (documented K)" semaphore_move "semaphore_assign (documented K)"
  for K :: "'w win_kernel"
  by unfold_locales (auto simp: semaphore_new_def semaphore_destroy_def semaphore_move_def semaphore_assign_def open_close
    null_not_open split: prod.splits
    dest: checked_create_open [OF documented_ok(1)])

text \<open>The handles that the objects own, and that each is owned by one of them.\<close>

definition owned_handles :: "'w owners \<Rightarrow> win_handle set" where
  "owned_handles s = {h. h \<noteq> 0 \<and> (\<exists>a. ow_slots s a = Some h)}"

definition owned_once :: "'w owners \<Rightarrow> bool" where
  "owned_once s \<longleftrightarrow> (\<forall>a b h. ow_slots s a = Some h \<longrightarrow> ow_slots s b = Some h \<longrightarrow> h \<noteq> 0 \<longrightarrow> a = b)"

lemma claims_held: "claims held (ow_slots s) = owned_handles s"
proof -
  have "held x = Some h \<longleftrightarrow> x = Some h \<and> h \<noteq> 0" for x h by (cases x) auto
  then show ?thesis by (auto simp: claims_def owned_handles_def)
qed

lemma claims_unique_held: "claims_unique held (ow_slots s) \<longleftrightarrow> owned_once s"
proof -
  have "held x = Some h \<longleftrightarrow> x = Some h \<and> h \<noteq> 0" for x h by (cases x) auto
  then show ?thesis by (auto simp: claims_unique_def owned_once_def)
qed

text \<open>
  C15. Objects of the classes \<open>Mutex\<close>, \<open>Event\<close> and \<open>Semaphore\<close> that are constructed, destroyed, moved
  and move-assigned, also to themselves, by any threads in any order, own their handles: no
  two objects have the same handle, every handle of an object is open, so none is closed
  twice, and besides them only the handles from before are open, so none leaks.
\<close>

theorem handles_owned_exactly_once:
  assumes "win_kernel_ok K" and "reach (mutex_objects K) (no_objects w) s \<or>
      reach (event_objects K) (no_objects w) s \<or> reach (semaphore_objects K) (no_objects w) s"
  shows "owned_once s \<and> open_handles K (ow_world s) = open_handles K w \<union> owned_handles s \<and>
    open_handles K w \<inter> owned_handles s = {}"
  using assms mutex_raii.owned_reach [of K w s] event_raii.owned_reach [of K w s]
    semaphore_raii.owned_reach [of K w s]
  by (auto simp: owned_exactly_def
    claims_held claims_unique_held)

definition own_run :: "(tid \<times> (bool \<times> string option) own_op) list" where
  "own_run = [(1, Own_New 0 (False, None)), (2, Own_New 1 (True, None)), (1, Own_Move 2 0), (2, Own_Assign 1 2),
     (1, Own_Destroy 2)]"

lemma own_demo:
  "\<exists>s. run (mutex_objects table_kernel) own_run (no_objects table_new) = Some s \<and>
     ow_slots s 1 = Some 1 \<and> open_handles table_kernel table_new = {}"
  by (simp add: own_run_def no_objects_def mutex_new_def mutex_move_def mutex_assign_def mutex_destroy_def
    checked_create_def throw_last_def table_kernel_def table_create_def table_new_def table_close_def
    open_handles_def table_view_def INVALID_HANDLE_VALUE_def Let_def fun_eq_iff)

theorem handles_owned_exactly_once_witness:
  "\<exists>s. ow_slots s 1 = Some 1 \<and> open_handles table_kernel (ow_world s) = {} \<union> owned_handles s"
proof -
  obtain s where s: "run (mutex_objects table_kernel) own_run (no_objects table_new) = Some s"
    "ow_slots s 1 = Some 1" "open_handles table_kernel table_new = {}" using own_demo by blast
  have "reach (mutex_objects table_kernel) (no_objects table_new) s" by (rule run_reach [OF s(1)])
  from handles_owned_exactly_once [OF table_kernel_ok disjI1 [OF this], THEN conjunct2, THEN conjunct1] s(2,3)
  show ?thesis by auto
qed

text \<open>
  \<open>Mutex::OpenExisting\<close> and \<open>Event::OpenExisting\<close> leave one handle more open than the object they
  return owns, the handle of the object that the default constructor made, and it is never
  closed; \<open>Semaphore::OpenExisting\<close>, which closes it, leaves just the one.
\<close>

theorem open_existing_handles:
  assumes K: "win_kernel_ok K"
  shows "(mutex_OpenExisting K t nm w = (Inr h, w') \<or> event_OpenExisting K t nm w = (Inr h, w') \<longrightarrow>
      (\<exists>g. g \<noteq> h \<and> g \<notin> open_handles K w \<and> h \<notin> open_handles K w \<and>
        open_handles K w' = open_handles K w \<union> {g, h})) \<and>
    (semaphore_OpenExisting K t nm w = (Inr h, w') \<longrightarrow>
      h \<notin> open_handles K w \<and> open_handles K w' = insert h (open_handles K w))"
proof (intro conjI impI)
  assume "mutex_OpenExisting K t nm w = (Inr h, w') \<or> event_OpenExisting K t nm w = (Inr h, w')"
  then show "\<exists>g. g \<noteq> h \<and> g \<notin> open_handles K w \<and> h \<notin> open_handles K w \<and>
      open_handles K w' = open_handles K w \<union> {g, h}"
    by (auto simp: mutex_OpenExisting_def mutex_new_def event_OpenExisting_def event_new_def
      split: prod.splits sum.splits dest!: checked_create_open(1) [OF K])
next
  assume "semaphore_OpenExisting K t nm w = (Inr h, w')"
  then show "h \<notin> open_handles K w" "open_handles K w' = insert h (open_handles K w)"
    by (auto simp: semaphore_OpenExisting_def semaphore_new_def open_close [OF K] split: prod.splits sum.splits
      dest!: checked_create_open(1) [OF K])
qed

text \<open>An instance that finds an object by its name: the mutex with the number 0.\<close>

definition named_kernel :: "table win_kernel" where
  "named_kernel = table_kernel\<lparr>k_create := (\<lambda>t c w.
     case c of
       Open_Mutex nm \<Rightarrow>
         if nm = ''m'' \<and> kv_handles (table_view w) 9 = None \<and> (case tb_objs w 0 of K_Mutex ow ab \<Rightarrow> True | _ \<Rightarrow> False)
         then (9, w\<lparr>tb_handles := (9, 0) # tb_handles w\<rparr>) else (0, w)
     | _ \<Rightarrow> table_create t c w)\<rparr>"

lemma named_kernel_ok [simp]: "win_kernel_ok named_kernel"
proof -
  have "create_ok t c (table_view w) (fst (k_create named_kernel t c w)) (table_view (snd (k_create named_kernel t c w)))"
    for t c w
  proof (cases "\<exists>nm. c = Open_Mutex nm")
    case True
    then show ?thesis
      by (auto simp: named_kernel_def create_ok_def table_view_def INVALID_HANDLE_VALUE_def fun_eq_iff
        split: kobj.splits if_splits intro!: exI [of _ 0])
  next
    case False
    then have "k_create named_kernel t c w = k_create table_kernel t c w"
      by (cases c) (auto simp: named_kernel_def table_kernel_def)
    then show ?thesis using table_kernel_ok unfolding win_kernel_ok_def by (simp add: table_kernel_def)
  qed
  then show ?thesis
    using table_kernel_ok by (simp add: win_kernel_ok_def named_kernel_def table_kernel_def)
qed

lemma open_existing_handles_witness:
  "\<exists>w' g. g \<noteq> 9 \<and> open_handles named_kernel w' = {g, 9}"
proof -
  let ?w = "\<lparr>tb_handles = [], tb_objs = (\<lambda>_. K_Mutex None False), tb_next = 1\<rparr>"
  obtain w' where w': "mutex_OpenExisting named_kernel 1 ''m'' ?w = (Inr 9 :: (unit, win_handle) result, w')"
    by (simp add: mutex_OpenExisting_def mutex_new_def checked_create_def named_kernel_def table_view_def
      table_create_def INVALID_HANDLE_VALUE_def Let_def)
  have "open_handles named_kernel ?w = {}"
    by (auto simp: open_handles_def named_kernel_def table_kernel_def table_view_def split: if_splits)
  with open_existing_handles [OF named_kernel_ok, of 1 "''m''" ?w 9 w', THEN conjunct1] w' show ?thesis by auto
qed

section \<open>Locking a mutex\<close>

definition mutex_owner :: "'w win_kernel \<Rightarrow> nat \<Rightarrow> 'w \<Rightarrow> (tid \<times> nat) option" where
  "mutex_owner K m w = (case kv_objs (k_view K w) m of K_Mutex ow ab \<Rightarrow> ow | _ \<Rightarrow> None)"

text \<open>
  C36. What \<open>Mutex::Lock\<close> leaves behind on each of its outcomes. After it returned, the caller owns
  the mutex with one entry more; it throws at a time-out, with the mutex unchanged and owned
  by another thread; and it throws for an abandoned mutex, but the caller owns it then:
  unlike for every other exception it has to be unlocked.
\<close>

theorem mutex_lock_outcomes:
  assumes K: "win_kernel_ok K" and lock: "mutex_Lock K t h ms w = Some (r, w')"
    and m: "kv_handles (k_view K w) h = Some m" "kv_objs (k_view K w) m = K_Mutex ow ab"
  shows "(r = Inr () \<and> mutex_owner K m w' = Some (t, case ow of None \<Rightarrow> 1 | Some (u, n) \<Rightarrow> Suc n) \<and>
        (ow = None \<or> (\<exists>n. ow = Some (t, n)))) \<or>
    (r = Inl (Thread_Exn ''Mutex lock timeout'' WAIT_TIMEOUT) \<and> k_view K w' = k_view K w \<and> ms \<noteq> NO_TIMEOUT \<and>
        (\<exists>u n. ow = Some (u, n) \<and> u \<noteq> t)) \<or>
    (r = Inl (Thread_Exn ''Mutex was abandoned'' WAIT_ABANDONED) \<and> ow = None \<and> mutex_owner K m w' = Some (t, 1))"
proof -
  obtain c where c: "k_wait K t h ms w = Some (c, w')"
    and r: "r = (if c \<noteq> WAIT_OBJECT_0
        then (if c = WAIT_TIMEOUT then Inl (Thread_Exn ''Mutex lock timeout'' WAIT_TIMEOUT)
              else if c = WAIT_ABANDONED then Inl (Thread_Exn ''Mutex was abandoned'' WAIT_ABANDONED)
              else throw_last K t ''WaitForSingleObject failed'' w')
        else Inr ())"
    using lock by (auto simp: mutex_Lock_def)
  have "wait_ok t h ms (k_view K w) (Some (c, k_view K w'))" by (rule win_kernelD(3) [OF K c])
  then have "case wait_object t (K_Mutex ow ab) of
      Some (d, x) \<Rightarrow> c = d \<and> k_view K w' = (k_view K w)\<lparr>kv_objs := (kv_objs (k_view K w))(m := x)\<rparr>
    | None \<Rightarrow> c = WAIT_TIMEOUT \<and> k_view K w' = k_view K w \<and> ms \<noteq> NO_TIMEOUT"
    using m by (auto simp: wait_ok_def split: option.splits)
  with r show ?thesis
    by (cases ow) (auto simp: mutex_owner_def wait_codes split: if_splits)
qed

lemma mutex_lock_outcomes_witness:
  "\<exists>w'. mutex_Lock table_kernel 5 1 NO_TIMEOUT
      \<lparr>tb_handles = [(1, 7)], tb_objs = (\<lambda>_. K_Mutex None True), tb_next = 2\<rparr> =
      Some (Inl (Thread_Exn ''Mutex was abandoned'' WAIT_ABANDONED) :: (unit, unit) result, w') \<and>
    mutex_owner table_kernel 7 w' = Some (5, 1)"
proof -
  let ?w = "\<lparr>tb_handles = [(1, 7)], tb_objs = (\<lambda>_. K_Mutex None True), tb_next = 2\<rparr>"
  obtain w' where w': "mutex_Lock table_kernel 5 1 NO_TIMEOUT ?w =
      Some (Inl (Thread_Exn ''Mutex was abandoned'' WAIT_ABANDONED) :: (unit, unit) result, w')"
    by (simp add: mutex_Lock_def table_kernel_def table_wait_def table_view_def wait_codes)
  from mutex_lock_outcomes [OF table_kernel_ok this, of 7 None True] w' show ?thesis
    by (auto simp: table_kernel_def table_view_def wait_codes)
qed

section \<open>The permits of a semaphore\<close>

datatype sem_op = Sem_Acquire dword | Sem_TryAcquire | Sem_Release int

text \<open>
  One call: how many permits it took, and the system after it; \<open>None\<close> while it blocks. A call
  that throws, or a \<open>TryAcquire\<close> that returns \<open>false\<close>, takes none.
\<close>

fun sem_call :: "'w win_kernel \<Rightarrow> win_handle \<Rightarrow> tid \<times> sem_op \<Rightarrow> 'w \<Rightarrow> (int \<times> 'w) option" where
  "sem_call K h (t, Sem_Acquire ms) w =
     (case (semaphore_Acquire K t h ms w :: ((unit, unit) result \<times> 'w) option) of
        None \<Rightarrow> None | Some (Inl e, w') \<Rightarrow> Some (0, w') | Some (Inr u, w') \<Rightarrow> Some (1, w'))"
| "sem_call K h (t, Sem_TryAcquire) w =
     (case (semaphore_TryAcquire K t h w :: ((unit, bool) result \<times> 'w) option) of
        None \<Rightarrow> None | Some (Inl e, w') \<Rightarrow> Some (0, w') | Some (Inr b, w') \<Rightarrow> Some (if b then 1 else 0, w'))"
| "sem_call K h (t, Sem_Release k) w =
     (case (semaphore_Release K t h k w :: (unit, unit) result \<times> 'w) of
        (Inl e, w') \<Rightarrow> Some (0, w') | (Inr u, w') \<Rightarrow> Some (- k, w'))"

fun sem_calls :: "'w win_kernel \<Rightarrow> win_handle \<Rightarrow> (tid \<times> sem_op) list \<Rightarrow> 'w \<Rightarrow> (int \<times> 'w) option" where
  "sem_calls K h [] w = Some (0, w)"
| "sem_calls K h (c # cs) w =
     (case sem_call K h c w of
        None \<Rightarrow> None
      | Some (k, w') \<Rightarrow> (case sem_calls K h cs w' of None \<Rightarrow> None | Some (l, w'') \<Rightarrow> Some (k + l, w'')))"

lemma wait_semaphore:
  assumes K: "win_kernel_ok K" and c: "k_wait K t h ms w = Some (c, w')"
    and m: "kv_handles (k_view K w) h = Some m" "kv_objs (k_view K w) m = K_Semaphore n mx"
  shows "c = WAIT_OBJECT_0 \<and> 0 < n \<and> k_view K w' = (k_view K w)\<lparr>kv_objs := (kv_objs (k_view K w))(m := K_Semaphore (n - 1) mx)\<rparr>
    \<or> c = WAIT_TIMEOUT \<and> n \<le> 0 \<and> k_view K w' = k_view K w"
  using win_kernelD(3) [OF K c] m by (auto simp: wait_ok_def split: if_splits)

lemma sem_call_count:
  assumes K: "win_kernel_ok K" and m: "kv_handles (k_view K w) h = Some m" "kv_objs (k_view K w) m = K_Semaphore n mx"
    and n: "0 \<le> n" "n \<le> mx" and c: "sem_call K h c w = Some (k, w')"
  shows "kv_handles (k_view K w') h = Some m \<and> kv_objs (k_view K w') m = K_Semaphore (n - k) mx \<and>
    0 \<le> n - k \<and> n - k \<le> mx"
proof -
  obtain t op where op: "c = (t, op)" by (cases c)
  show ?thesis
  proof (cases op)
    case (Sem_Acquire ms)
    then obtain d where d: "k_wait K t h ms w = Some (d, w')" "k = (if d = WAIT_OBJECT_0 then 1 else 0)"
      using c op by (auto simp: semaphore_Acquire_def throw_last_def split: option.splits sum.splits if_splits)
    show ?thesis using wait_semaphore [OF K d(1) m] m n d(2) by (auto simp: wait_codes)
  next
    case Sem_TryAcquire
    then obtain d where d: "k_wait K t h 0 w = Some (d, w')" "k = (if d = WAIT_OBJECT_0 then 1 else 0)"
      using c op by (auto simp: semaphore_TryAcquire_def wait_flag_def throw_last_def
        split: option.splits sum.splits if_splits)
    show ?thesis using wait_semaphore [OF K d(1) m] m n d(2) by (auto simp: wait_codes)
  next
    case (Sem_Release j)
    then obtain b where b: "k_signal K t (Release_Semaphore j) h w = (b, w')" "k = (if b then - j else 0)"
      using c op by (auto simp: semaphore_Release_def checked_signal_def throw_last_def
        split: prod.splits sum.splits if_splits)
    show ?thesis
      using win_kernelD(5) [OF K b(1)] m n b(2) by (auto simp: signal_ok_def split: if_splits)
  qed
qed

text \<open>
  C28. Through any sequence of calls of \<open>Acquire\<close>, \<open>TryAcquire\<close> and \<open>Release\<close> by any threads, whether they
  return or throw, the count of a semaphore is what it was, less the permits that calls which
  reported success took, plus those that were released, and stays between zero and its
  maximum: never are more permits out than there are.
\<close>

theorem semaphore_permits_accounted:
  assumes "win_kernel_ok K" and "kv_handles (k_view K w) h = Some m" "kv_objs (k_view K w) m = K_Semaphore n mx"
    and "0 \<le> n" "n \<le> mx" and "sem_calls K h cs w = Some (k, w')"
  shows "kv_objs (k_view K w') m = K_Semaphore (n - k) mx \<and> 0 \<le> n - k \<and> n - k \<le> mx"
  using assms(2-)
proof (induction cs arbitrary: w n k)
  case (Cons c cs)
  from Cons.prems(5) obtain i w1 l where c: "sem_call K h c w = Some (i, w1)" "sem_calls K h cs w1 = Some (l, w')" "k = i + l"
    by (auto split: option.splits prod.splits)
  note step = sem_call_count [OF assms(1) Cons.prems(1-4) c(1)]
  have "kv_objs (k_view K w') m = K_Semaphore (n - i - l) mx \<and> 0 \<le> n - i - l \<and> n - i - l \<le> mx"
    using step by (intro Cons.IH [OF _ _ _ _ c(2)]) blast+
  with c(3) show ?case by (simp add: algebra_simps)
qed simp

lemma semaphore_permits_accounted_witness:
  "\<exists>w'. sem_calls table_kernel 1 [(1, Sem_Acquire NO_TIMEOUT), (2, Sem_TryAcquire), (3, Sem_TryAcquire), (1, Sem_Release 1)]
      \<lparr>tb_handles = [(1, 7)], tb_objs = (\<lambda>_. K_Semaphore 2 2), tb_next = 2\<rparr> = Some (1, w') \<and>
    kv_objs (k_view table_kernel w') 7 = K_Semaphore (2 - 1) 2"
proof -
  let ?w = "\<lparr>tb_handles = [(1, 7)], tb_objs = (\<lambda>_. K_Semaphore 2 2), tb_next = 2\<rparr>"
  obtain w' where w': "sem_calls table_kernel 1
      [(1, Sem_Acquire NO_TIMEOUT), (2, Sem_TryAcquire), (3, Sem_TryAcquire), (1, Sem_Release 1)] ?w = Some (1, w')"
    by (simp add: semaphore_Acquire_def semaphore_TryAcquire_def semaphore_Release_def checked_signal_def
      wait_flag_def throw_last_def table_kernel_def table_wait_def table_signal_def table_view_def wait_codes NO_TIMEOUT_def)
  from semaphore_permits_accounted [OF table_kernel_ok _ _ _ _ this, of 7 2 2] w' show ?thesis
    by (simp add: table_kernel_def table_view_def)
qed

section \<open>Looking at an event\<close>

text \<open>
  \<open>IsSignaled\<close> is a wait without time-out: on an event that is reset by hand it only looks, but an
  event that resets itself it resets, so that a thread which waits for the signal misses it.
\<close>

theorem event_is_signaled_resets:
  assumes K: "win_kernel_ok K" and m: "kv_handles (k_view K w) h = Some m" "kv_objs (k_view K w) m = K_Event man b"
  shows "\<exists>w'. event_IsSignaled K t h w = Some (Inr b, w') \<and> kv_objs (k_view K w') m = K_Event man (man \<and> b)"
proof -
  have "k_wait K t h 0 w \<noteq> None"
  proof
    assume "k_wait K t h 0 w = None"
    from win_kernelD(4) [OF K this] m show False by (cases b) (simp_all add: wait_ok_def)
  qed
  then obtain c w' where c: "k_wait K t h 0 w = Some (c, w')" by auto
  from win_kernelD(3) [OF K this] m
  have "c = (if b then WAIT_OBJECT_0 else WAIT_TIMEOUT) \<and> kv_objs (k_view K w') m = K_Event man (man \<and> b)"
    by (cases b; cases man) (simp_all add: wait_ok_def)
  with c show ?thesis by (cases b) (simp_all add: event_IsSignaled_def wait_flag_def wait_codes)
qed

lemma event_is_signaled_resets_witness:
  "\<exists>w'. event_IsSignaled table_kernel 1 1 \<lparr>tb_handles = [(1, 7)], tb_objs = (\<lambda>_. K_Event False True), tb_next = 2\<rparr> =
      Some (Inr True :: (unit, bool) result, w') \<and> kv_objs (k_view table_kernel w') 7 = K_Event False False"
  using event_is_signaled_resets [OF table_kernel_ok,
      of "\<lparr>tb_handles = [(1, 7)], tb_objs = (\<lambda>_. K_Event False True), tb_next = 2\<rparr>" 1 7 False True 1]
  by (simp add: table_kernel_def table_view_def)

end
