(* ===== verification/Thread_Class.thy ===== *)
theory Thread_Class
  imports Handle_Classes
begin

text \<open>
  Class \<open>Thread\<close> of \<open>src/src/ezthread/core.hpp\<close> and \<open>core.cpp\<close> over the kernel objects of theory
  \<open>Kernel\<close>. An object is its handle and its identifier; the closure that the constructor
  allocates for the new thread, and that the thread frees, is not part of the state.
\<close>

section \<open>The class\<close>

record thread_obj =
  th_handle :: win_handle
  th_id :: dword

definition thread_empty :: thread_obj where
  "thread_empty = \<lparr>th_handle = 0, th_id = 0\<rparr>"

definition thread_new :: "'w win_kernel \<Rightarrow> tid \<Rightarrow> 'w \<Rightarrow> ('x, thread_obj) result \<times> 'w" where
  "thread_new K t w =
     (case k_create K t Create_Thread w of
        (h, w') \<Rightarrow>
          (if h = 0 then throw_last K t ''CreateThread failed'' w'
           else Inr \<lparr>th_handle = h, th_id = k_thread_id K h w'\<rparr>, w'))"

text \<open>What the new thread runs: the exit code from the outcome of the function.\<close>

definition thread_entry :: "('x, unit) result \<Rightarrow> dword" where
  "thread_entry r = (case r of Inr u \<Rightarrow> 0 | Inl e \<Rightarrow> 1)"

definition thread_Joinable :: "thread_obj \<Rightarrow> bool" where
  "thread_Joinable th \<longleftrightarrow> th_handle th \<noteq> 0"

text \<open>\<open>GetCurrentId\<close> is declared among the static functions but reads the identifier of the object.\<close>

definition thread_GetId :: "thread_obj \<Rightarrow> dword" where
  "thread_GetId th = th_id th"

definition thread_GetNativeHandle :: "thread_obj \<Rightarrow> win_handle" where
  "thread_GetNativeHandle th = th_handle th"

definition thread_GetCurrentId :: "thread_obj \<Rightarrow> dword" where
  "thread_GetCurrentId th = th_id th"

definition thread_Join ::
  "'w win_kernel \<Rightarrow> tid \<Rightarrow> thread_obj \<Rightarrow> 'w \<Rightarrow> (('x, unit) result \<times> thread_obj \<times> 'w) option" where
  "thread_Join K t th w =
     (if \<not> thread_Joinable th then Some (throw_last K t ''Thread is not joinable'' w, th, w)
      else map_option (\<lambda>(r, w').
        if r \<noteq> WAIT_OBJECT_0 then (throw_last K t ''WaitForSingleObject failed'' w', th, w')
        else (Inr (), thread_empty, snd (k_close K t (th_handle th) w')))
       (k_wait K t (th_handle th) NO_TIMEOUT w))"

definition thread_TryJoin ::
  "'w win_kernel \<Rightarrow> tid \<Rightarrow> thread_obj \<Rightarrow> dword \<Rightarrow> 'w \<Rightarrow> (('x, bool) result \<times> thread_obj \<times> 'w) option" where
  "thread_TryJoin K t th timeoutMs w =
     (if \<not> thread_Joinable th then Some (throw_last K t ''Thread is not joinable'' w, th, w)
      else map_option (\<lambda>(r, w').
        if r = WAIT_OBJECT_0 then (Inr True, thread_empty, snd (k_close K t (th_handle th) w'))
        else if r = WAIT_TIMEOUT then (Inr False, th, w')
        else (throw_last K t ''WaitForSingleObject failed'' w', th, w'))
       (k_wait K t (th_handle th) timeoutMs w))"

definition thread_Detach ::
  "'w win_kernel \<Rightarrow> tid \<Rightarrow> thread_obj \<Rightarrow> 'w \<Rightarrow> ('x, unit) result \<times> thread_obj \<times> 'w" where
  "thread_Detach K t th w =
     (if \<not> thread_Joinable th then (throw_last K t ''Thread is not joinable'' w, th, w)
      else (Inr (), thread_empty, snd (k_close K t (th_handle th) w)))"

definition thread_move :: "thread_obj \<Rightarrow> thread_obj \<times> thread_obj" where
  "thread_move other = (other, thread_empty)"

definition thread_Cleanup ::
  "'w win_kernel \<Rightarrow> tid \<Rightarrow> thread_obj \<Rightarrow> 'w \<Rightarrow> (('x, unit) result \<times> thread_obj \<times> 'w) option" where
  "thread_Cleanup K t th w = (if thread_Joinable th then thread_Join K t th w else Some (Inr (), th, w))"

text \<open>The destructor and the move assignment are \<open>noexcept\<close>: an exception of \<open>Cleanup\<close> ends the program.\<close>

datatype 'a no_throw = Returns 'a | Terminates

definition thread_destroy :: "'w win_kernel \<Rightarrow> tid \<Rightarrow> thread_obj \<Rightarrow> 'w \<Rightarrow> 'w no_throw option" where
  "thread_destroy K t th w =
     (case (thread_Cleanup K t th w :: ((unit, unit) result \<times> thread_obj \<times> 'w) option) of
        None \<Rightarrow> None
      | Some (Inl e, th', w') \<Rightarrow> Some Terminates
      | Some (Inr u, th', w') \<Rightarrow> Some (Returns w'))"

definition thread_assign ::
  "'w win_kernel \<Rightarrow> tid \<Rightarrow> bool \<Rightarrow> thread_obj \<Rightarrow> thread_obj \<Rightarrow> 'w \<Rightarrow> (thread_obj \<times> thread_obj \<times> 'w) no_throw option" where
  "thread_assign K t same this other w =
     (if same then Some (Returns (this, this, w))
      else case (thread_Cleanup K t this w :: ((unit, unit) result \<times> thread_obj \<times> 'w) option) of
        None \<Rightarrow> None
      | Some (Inl e, th', w') \<Rightarrow> Some Terminates
      | Some (Inr u, th', w') \<Rightarrow> Some (Returns (other, thread_empty, w')))"

text \<open>
  The setters and getters, over the calls of the system that they make as arguments:
  \<open>SetThreadPriority\<close>, \<open>GetThreadPriority\<close> and \<open>SetThreadAffinityMask\<close>. A priority is the value of its
  enumerator, and the getter casts whatever value the system returns.
\<close>

datatype priority_level = Idle | Lowest | BelowNormal | Normal | AboveNormal | Highest | TimeCritical

fun priority_value :: "priority_level \<Rightarrow> int" where
  "priority_value Idle = - 15"
| "priority_value Lowest = - 2"
| "priority_value BelowNormal = - 1"
| "priority_value Normal = 0"
| "priority_value AboveNormal = 1"
| "priority_value Highest = 2"
| "priority_value TimeCritical = 15"

text \<open>The levels are ordered like their values.\<close>

instantiation priority_level :: linorder
begin

definition less_eq_priority_level :: "priority_level \<Rightarrow> priority_level \<Rightarrow> bool" where
  "less_eq_priority_level p q \<longleftrightarrow> priority_value p \<le> priority_value q"

definition less_priority_level :: "priority_level \<Rightarrow> priority_level \<Rightarrow> bool" where
  "less_priority_level p q \<longleftrightarrow> priority_value p < priority_value q"

instance
proof
  show "p = q" if "p \<le> q" "q \<le> p" for p q :: priority_level
    using that by (cases p; cases q) (simp_all add: less_eq_priority_level_def)
qed (auto simp: less_eq_priority_level_def less_priority_level_def)

end

lemma priority_levels_sorted: "Idle < Lowest \<and> Lowest < BelowNormal \<and> BelowNormal < Normal \<and> Normal < AboveNormal \<and>
    AboveNormal < Highest \<and> Highest < TimeCritical"
  by (simp add: less_priority_level_def)

definition THREAD_PRIORITY_ERROR_RETURN :: int where "THREAD_PRIORITY_ERROR_RETURN = 0x7FFFFFFF"

definition thread_SetPriority ::
  "'w win_kernel \<Rightarrow> (win_handle \<Rightarrow> int \<Rightarrow> 'w \<Rightarrow> bool \<times> 'w) \<Rightarrow> tid \<Rightarrow> thread_obj \<Rightarrow> priority_level \<Rightarrow> 'w \<Rightarrow>
   ('x, unit) result \<times> 'w" where
  "thread_SetPriority K set_priority t th p w =
     (if th_handle th = 0 then (throw_last K t ''Thread handle is invalid'' w, w)
      else case set_priority (th_handle th) (priority_value p) w of
        (b, w') \<Rightarrow> (if \<not> b then throw_last K t ''SetThreadPriority failed'' w' else Inr (), w'))"

definition thread_GetPriority ::
  "'w win_kernel \<Rightarrow> (win_handle \<Rightarrow> 'w \<Rightarrow> int) \<Rightarrow> tid \<Rightarrow> thread_obj \<Rightarrow> 'w \<Rightarrow> ('x, int) result" where
  "thread_GetPriority K get_priority t th w =
     (if th_handle th = 0 then throw_last K t ''Thread handle is invalid'' w
      else let p = get_priority (th_handle th) w
           in if p = THREAD_PRIORITY_ERROR_RETURN then throw_last K t ''GetThreadPriority failed'' w else Inr p)"

definition thread_SetAffinity ::
  "'w win_kernel \<Rightarrow> (win_handle \<Rightarrow> 64 word \<Rightarrow> 'w \<Rightarrow> 64 word \<times> 'w) \<Rightarrow> tid \<Rightarrow> thread_obj \<Rightarrow> 64 word \<Rightarrow> 'w \<Rightarrow>
   ('x, unit) result \<times> 'w" where
  "thread_SetAffinity K set_mask t th msk w =
     (if th_handle th = 0 then (throw_last K t ''Thread handle is invalid'' w, w)
      else case set_mask (th_handle th) msk w of
        (r, w') \<Rightarrow> (if r = 0 then throw_last K t ''SetThreadAffinityMask failed'' w' else Inr (), w'))"

text \<open>
  \<open>SetName\<close>: for a wide name, and for a narrow one. The second converts no characters, since
  it passes their number as 0, and hands on the local buffer \<open>junk\<close> as it found it.
\<close>

definition thread_SetName_wide ::
  "'w win_kernel \<Rightarrow> (win_handle \<Rightarrow> 'n \<Rightarrow> 'w \<Rightarrow> 'w) \<Rightarrow> tid \<Rightarrow> thread_obj \<Rightarrow> 'n \<Rightarrow> 'w \<Rightarrow> ('x, unit) result \<times> 'w" where
  "thread_SetName_wide K set_description t th nm w =
     (if th_handle th = 0 then (throw_last K t ''Thread handle is invalid'' w, w)
      else (Inr (), set_description (th_handle th) nm w))"

definition thread_SetName_narrow ::
  "'w win_kernel \<Rightarrow> (string \<Rightarrow> nat \<Rightarrow> nat \<Rightarrow> 'n \<Rightarrow> 'n) \<Rightarrow> (win_handle \<Rightarrow> 'n \<Rightarrow> 'w \<Rightarrow> 'w) \<Rightarrow> 'n \<Rightarrow> tid \<Rightarrow> thread_obj \<Rightarrow>
   string \<Rightarrow> 'w \<Rightarrow> ('x, unit) result \<times> 'w" where
  "thread_SetName_narrow K to_wide set_description junk t th nm w =
     (if th_handle th = 0 then (throw_last K t ''Thread handle is invalid'' w, w)
      else (Inr (), set_description (th_handle th) (to_wide nm 0 0 junk) w))"

section \<open>Properties\<close>

lemma wait_thread:
  assumes K: "win_kernel_ok K" and m: "kv_handles (k_view K w) h = Some m" "kv_objs (k_view K w) m = K_Thread ended"
  shows "k_wait K t h ms w = Some (c, w') \<Longrightarrow>
      (if ended then c = WAIT_OBJECT_0 else c = WAIT_TIMEOUT \<and> ms \<noteq> NO_TIMEOUT) \<and> k_view K w' = k_view K w"
    and "k_wait K t h ms w = None \<Longrightarrow> \<not> ended"
proof -
  have "(kv_objs (k_view K w))(m := K_Thread True) = kv_objs (k_view K w)" if ended
    using that m(2) by (simp add: fun_upd_idem)
  then show "k_wait K t h ms w = Some (c, w') \<Longrightarrow>
      (if ended then c = WAIT_OBJECT_0 else c = WAIT_TIMEOUT \<and> ms \<noteq> NO_TIMEOUT) \<and> k_view K w' = k_view K w"
    using win_kernelD(3) [OF K, of t h ms w c w'] m by (cases ended) (simp_all add: wait_ok_def)
  show "k_wait K t h ms w = None \<Longrightarrow> \<not> ended"
    using win_kernelD(4) [OF K, of t h ms w] m by (cases ended) (simp_all add: wait_ok_def)
qed

text \<open>What it means to have let go of a thread: the handle is closed, no other is, and the object is empty.\<close>

definition released :: "'w win_kernel \<Rightarrow> thread_obj \<Rightarrow> 'w \<Rightarrow> thread_obj \<Rightarrow> 'w \<Rightarrow> bool" where
  "released K th w th' w' \<longleftrightarrow> th' = thread_empty \<and> \<not> thread_Joinable th' \<and>
     open_handles K w' = open_handles K w - {th_handle th}"

lemma released_close:
  assumes "win_kernel_ok K" and "k_view K w1 = k_view K w"
  shows "released K th w thread_empty (snd (k_close K t (th_handle th) w1))"
  using open_close_view [OF assms] by (simp add: released_def thread_Joinable_def thread_empty_def)

lemma thread_join_result:
  assumes K: "win_kernel_ok K" and th: "thread_Joinable th"
    and m: "kv_handles (k_view K w) (th_handle th) = Some m" "kv_objs (k_view K w) m = K_Thread ended"
  shows "thread_Join K t th w = Some (r, th', w') \<Longrightarrow> ended \<and> r = Inr () \<and> released K th w th' w'"
    and "thread_Join K t th w = None \<Longrightarrow> \<not> ended"
proof -
  show "\<not> ended" if "thread_Join K t th w = None"
    using that th wait_thread(2) [OF K m, of t NO_TIMEOUT] by (auto simp: thread_Join_def)
  assume "thread_Join K t th w = Some (r, th', w')"
  then obtain c w1 where c: "k_wait K t (th_handle th) NO_TIMEOUT w = Some (c, w1)"
    "(r, th', w') = (if c \<noteq> WAIT_OBJECT_0 then (throw_last K t ''WaitForSingleObject failed'' w1, th, w1)
      else (Inr (), thread_empty, snd (k_close K t (th_handle th) w1)))"
    using th by (auto simp: thread_Join_def)
  have end_w1: "ended" "c = WAIT_OBJECT_0" "k_view K w1 = k_view K w"
    using wait_thread(1) [OF K m c(1)] by (auto split: if_splits)
  with c(2) released_close [OF K end_w1(3), of th t] show "ended \<and> r = Inr () \<and> released K th w th' w'" by simp
qed

lemma thread_try_join_result:
  assumes K: "win_kernel_ok K" and th: "thread_Joinable th"
    and m: "kv_handles (k_view K w) (th_handle th) = Some m" "kv_objs (k_view K w) m = K_Thread ended"
    and join: "thread_TryJoin K t th ms w = Some (r, th', w')"
  shows "r = Inr ended \<and> (if ended then released K th w th' w' else th' = th \<and> k_view K w' = k_view K w)"
proof -
  obtain c w1 where c: "k_wait K t (th_handle th) ms w = Some (c, w1)"
    "(r, th', w') = (if c = WAIT_OBJECT_0 then (Inr True, thread_empty, snd (k_close K t (th_handle th) w1))
      else if c = WAIT_TIMEOUT then (Inr False, th, w1)
      else (throw_last K t ''WaitForSingleObject failed'' w1, th, w1))"
    using join th by (auto simp: thread_TryJoin_def)
  from wait_thread(1) [OF K m c(1)] c(2) released_close [OF K, of w1 w th t] show ?thesis
    by (cases ended) (simp_all add: wait_codes)
qed

text \<open>The destructor and the move assignment, of an object that has a thread.\<close>

lemma thread_cleanup_cases:
  assumes "thread_Joinable th"
  obtains "thread_Join K t th w = (None :: ((unit, unit) result \<times> thread_obj \<times> 'w) option)"
      "thread_destroy K t th w = None" "thread_assign K t False th other w = None"
    | r th' w' where "thread_Join K t th w = Some (r :: (unit, unit) result, th', w')"
      "thread_destroy K t th w = Some (case r of Inl e \<Rightarrow> Terminates | Inr u \<Rightarrow> Returns w')"
      "thread_assign K t False th other w =
        Some (case r of Inl e \<Rightarrow> Terminates | Inr u \<Rightarrow> Returns (other, thread_empty, w'))"
proof (cases "thread_Join K t th w :: ((unit, unit) result \<times> thread_obj \<times> 'w) option")
  case None
  with assms show ?thesis
    by (intro that(1)) (simp_all add: thread_destroy_def thread_assign_def thread_Cleanup_def)
next
  case (Some x)
  then obtain r th' w' where x: "thread_Join K t th w = Some (r :: (unit, unit) result, th', w')"
    by (cases x) auto
  with assms show ?thesis
    by (intro that(2) [OF x]) (simp_all add: thread_destroy_def thread_assign_def thread_Cleanup_def split: sum.split)
qed

lemma thread_destroy_result:
  assumes K: "win_kernel_ok K" and th: "thread_Joinable th"
    and m: "kv_handles (k_view K w) (th_handle th) = Some m" "kv_objs (k_view K w) m = K_Thread ended"
  shows "case thread_destroy K t th w of None \<Rightarrow> \<not> ended
      | Some x \<Rightarrow> ended \<and> (\<exists>w'. x = Returns w' \<and> released K th w thread_empty w')"
    and "case thread_assign K t False th other w of None \<Rightarrow> \<not> ended
      | Some x \<Rightarrow> ended \<and> (\<exists>w'. x = Returns (other, thread_empty, w') \<and> released K th w thread_empty w')"
proof -
  note join = thread_join_result [OF K th m, of t]
  show "case thread_destroy K t th w of None \<Rightarrow> \<not> ended
      | Some x \<Rightarrow> ended \<and> (\<exists>w'. x = Returns w' \<and> released K th w thread_empty w')"
    by (rule thread_cleanup_cases [OF th, of K t w other])
      (use join in \<open>auto simp: released_def split: sum.splits\<close>)
  show "case thread_assign K t False th other w of None \<Rightarrow> \<not> ended
      | Some x \<Rightarrow> ended \<and> (\<exists>w'. x = Returns (other, thread_empty, w') \<and> released K th w thread_empty w')"
    by (rule thread_cleanup_cases [OF th, of K t w other])
      (use join in \<open>auto simp: released_def split: sum.splits\<close>)
qed

text \<open>An object without thread.\<close>

lemma thread_nothing:
  assumes "\<not> thread_Joinable th"
  shows "thread_Join K t th w = Some (throw_last K t ''Thread is not joinable'' w, th, w)"
    and "thread_TryJoin K t th ms w = Some (throw_last K t ''Thread is not joinable'' w, th, w)"
    and "thread_Detach K t th w = (throw_last K t ''Thread is not joinable'' w, th, w)"
    and "thread_destroy K t th w = Some (Returns w)"
  using assms by (simp_all add: thread_Join_def thread_TryJoin_def thread_Detach_def thread_destroy_def thread_Cleanup_def)

text \<open>
  C29. A \<open>Thread\<close> object lets go of its thread exactly once: the handle of the thread is closed, no
  other handle is, and the object is empty. \<open>Join\<close>, the destructor and the move assignment do so when
  the thread has ended and block until then; the destructor and the assignment do not end the
  program, and the assignment takes over the thread of the other object. \<open>TryJoin\<close> does so and
  returns \<open>true\<close> when the thread has ended; it returns \<open>false\<close> and keeps the thread at a time-out
  before. \<open>Detach\<close> does so at once, whether the thread has ended or not. On an object without thread
  \<open>Join\<close>, \<open>TryJoin\<close> and \<open>Detach\<close> throw, the destructor returns, and none of them changes anything.
\<close>

theorem thread_released_once:
  assumes K: "win_kernel_ok K" and th: "thread_Joinable th"
    and m: "kv_handles (k_view K w) (th_handle th) = Some m" "kv_objs (k_view K w) m = K_Thread ended"
  shows "(\<forall>r th' w'. thread_Join K t th w = Some (r, th', w') \<longrightarrow> ended \<and> r = Inr () \<and> released K th w th' w') \<and>
    (thread_Join K t th w = None \<longrightarrow> \<not> ended) \<and>
    (\<forall>ms r th' w'. thread_TryJoin K t th ms w = Some (r, th', w') \<longrightarrow>
        r = Inr ended \<and> (if ended then released K th w th' w' else th' = th \<and> k_view K w' = k_view K w)) \<and>
    (\<forall>r th' w'. thread_Detach K t th w = (r, th', w') \<longrightarrow> r = Inr () \<and> released K th w th' w') \<and>
    (case thread_destroy K t th w of None \<Rightarrow> \<not> ended
      | Some x \<Rightarrow> ended \<and> (\<exists>w'. x = Returns w' \<and> released K th w thread_empty w')) \<and>
    (\<forall>other. case thread_assign K t False th other w of None \<Rightarrow> \<not> ended
      | Some x \<Rightarrow> ended \<and> (\<exists>w'. x = Returns (other, thread_empty, w') \<and> released K th w thread_empty w')) \<and>
    thread_assign K t True th th w = Some (Returns (th, th, w)) \<and>
    (\<forall>th' ms w'. \<not> thread_Joinable th' \<longrightarrow>
      thread_Join K t th' w' = Some (throw_last K t ''Thread is not joinable'' w', th', w') \<and>
      thread_TryJoin K t th' ms w' = Some (throw_last K t ''Thread is not joinable'' w', th', w') \<and>
      thread_Detach K t th' w' = (throw_last K t ''Thread is not joinable'' w', th', w') \<and>
      thread_destroy K t th' w' = Some (Returns w'))"
proof -
  note join = thread_join_result [OF K th m]
  have detach: "r = Inr () \<and> released K th w th' w'"
    if d: "thread_Detach K t th w = (r, th', w')" for r :: "('x, unit) result" and th' w'
  proof -
    have "(r, th', w') = (Inr (), thread_empty, snd (k_close K t (th_handle th) w))"
      using d th by (simp add: thread_Detach_def)
    then show ?thesis using released_close [OF K, of w w th t] by simp
  qed
  show ?thesis
  proof (intro conjI)
    show "thread_assign K t True th th w = Some (Returns (th, th, w))" by (simp add: thread_assign_def)
    show "case thread_destroy K t th w of None \<Rightarrow> \<not> ended
        | Some x \<Rightarrow> ended \<and> (\<exists>w'. x = Returns w' \<and> released K th w thread_empty w')"
      by (rule thread_destroy_result(1) [OF K th m])
    show "\<forall>other. case thread_assign K t False th other w of None \<Rightarrow> \<not> ended
        | Some x \<Rightarrow> ended \<and> (\<exists>w'. x = Returns (other, thread_empty, w') \<and> released K th w thread_empty w')"
      using thread_destroy_result(2) [OF K th m] by blast
    show "\<forall>r th' w'. thread_Join K t th w = Some (r, th', w') \<longrightarrow> ended \<and> r = Inr () \<and> released K th w th' w'"
      by (intro allI impI) (rule join(1))
    show "thread_Join K t th w = None \<longrightarrow> \<not> ended" by (rule impI) (rule join(2))
    show "\<forall>ms r th' w'. thread_TryJoin K t th ms w = Some (r, th', w') \<longrightarrow>
        r = Inr ended \<and> (if ended then released K th w th' w' else th' = th \<and> k_view K w' = k_view K w)"
      by (intro allI impI) (rule thread_try_join_result [OF K th m])
    show "\<forall>r th' w'. thread_Detach K t th w = (r, th', w') \<longrightarrow> r = Inr () \<and> released K th w th' w'"
      by (intro allI impI) (rule detach)
  qed (simp add: thread_nothing)
qed

text \<open>A thread that has ended: its handle is closed by \<open>Join\<close>, and by the destructor.\<close>

lemma thread_released_once_witness:
  "\<exists>w' w''. thread_Join table_kernel 1 \<lparr>th_handle = 3, th_id = 40\<rparr>
      \<lparr>tb_handles = [(3, 0)], tb_objs = (\<lambda>_. K_Thread True), tb_next = 4\<rparr> =
      Some (Inr () :: (unit, unit) result, thread_empty, w') \<and>
    open_handles table_kernel w' = open_handles table_kernel
      \<lparr>tb_handles = [(3, 0)], tb_objs = (\<lambda>_. K_Thread True), tb_next = 4\<rparr> - {3} \<and>
    thread_destroy table_kernel 1 \<lparr>th_handle = 3, th_id = 40\<rparr>
      \<lparr>tb_handles = [(3, 0)], tb_objs = (\<lambda>_. K_Thread True), tb_next = 4\<rparr> = Some (Returns w'') \<and>
    open_handles table_kernel w'' = open_handles table_kernel
      \<lparr>tb_handles = [(3, 0)], tb_objs = (\<lambda>_. K_Thread True), tb_next = 4\<rparr> - {3}"
proof -
  let ?w = "\<lparr>tb_handles = [(3, 0)], tb_objs = (\<lambda>_. K_Thread True), tb_next = 4\<rparr>"
  let ?th = "\<lparr>th_handle = 3, th_id = 40\<rparr>"
  obtain w' w'' where w': "thread_Join table_kernel 1 ?th ?w = Some (Inr () :: (unit, unit) result, thread_empty, w')"
    "thread_destroy table_kernel 1 ?th ?w = Some (Returns w'')"
    by (simp add: thread_Join_def thread_destroy_def thread_Cleanup_def thread_Joinable_def table_kernel_def
        table_wait_def table_view_def wait_codes)
  have "thread_Joinable ?th" "kv_handles (k_view table_kernel ?w) (th_handle ?th) = Some 0"
    "kv_objs (k_view table_kernel ?w) 0 = K_Thread True"
    by (simp_all add: thread_Joinable_def table_kernel_def table_view_def)
  note once = thread_released_once [OF table_kernel_ok this, where t = 1]
  have "released table_kernel ?th ?w thread_empty w'" using once [THEN conjunct1, rule_format, OF w'(1)] by simp
  moreover have "released table_kernel ?th ?w thread_empty w''" 
    using once [THEN conjunct2, THEN conjunct2, THEN conjunct2, THEN conjunct2, THEN conjunct1] w'(2) by simp
  ultimately show ?thesis using w' by (auto simp: released_def)
qed

end
