(* ===== verification/Thread_Local.thy ===== *)
theory Thread_Local
  imports Prelude
begin

text \<open>
  Class template \<open>ThreadLocal\<close> of \<open>src/src/ezthread/tls.cpp\<close> and its specialisation for pointers, over
  the thread-local storage of the system as a parameter and a heap of the values that the
  class allocates.
\<close>

section \<open>The storage of the system\<close>

type_synonym pointer = nat

definition TLS_OUT_OF_INDEXES :: dword where "TLS_OUT_OF_INDEXES = 0xFFFFFFFF"

text \<open>
  \<open>TlsAlloc\<close>, \<open>TlsFree\<close>, \<open>TlsGetValue\<close> and \<open>TlsSetValue\<close> over a state \<open>'w\<close>; \<open>tls_view\<close> observes the slots of
  the allocated indices. The null pointer is 0.
\<close>

record 'w tls_api =
  tls_view :: "'w \<Rightarrow> dword \<Rightarrow> (tid \<Rightarrow> pointer) option"
  tls_alloc :: "'w \<Rightarrow> dword \<times> 'w"
  tls_free :: "dword \<Rightarrow> 'w \<Rightarrow> bool \<times> 'w"
  tls_get :: "tid \<Rightarrow> dword \<Rightarrow> 'w \<Rightarrow> pointer"
  tls_set :: "tid \<Rightarrow> dword \<Rightarrow> pointer \<Rightarrow> 'w \<Rightarrow> bool \<times> 'w"
  tls_error :: "tid \<Rightarrow> 'w \<Rightarrow> dword"

definition tls_ok :: "'w tls_api \<Rightarrow> bool" where
  "tls_ok T \<longleftrightarrow>
     (\<forall>w. tls_view T w TLS_OUT_OF_INDEXES = None) \<and>
     (\<forall>w i w'. tls_alloc T w = (i, w') \<longrightarrow>
        (if i = TLS_OUT_OF_INDEXES then tls_view T w' = tls_view T w
         else tls_view T w i = None \<and> tls_view T w' = (tls_view T w)(i \<mapsto> \<lambda>_. 0))) \<and>
     (\<forall>w i b w'. tls_free T i w = (b, w') \<longrightarrow> tls_view T w' = (tls_view T w)(i := None)) \<and>
     (\<forall>t i w v. tls_view T w i = Some v \<longrightarrow> tls_get T t i w = v t) \<and>
     (\<forall>t i p w b w'. tls_set T t i p w = (b, w') \<longrightarrow>
        (case tls_view T w i of
           None \<Rightarrow> \<not> b \<and> tls_view T w' = tls_view T w
         | Some v \<Rightarrow> tls_view T w' = (if b then (tls_view T w)(i \<mapsto> v(t := p)) else tls_view T w)))"

lemma tls_okD:
  assumes "tls_ok T"
  shows "tls_view T w TLS_OUT_OF_INDEXES = None"
    and "tls_alloc T w = (i, w') \<Longrightarrow> i \<noteq> TLS_OUT_OF_INDEXES \<Longrightarrow>
      tls_view T w i = None \<and> tls_view T w' = (tls_view T w)(i \<mapsto> \<lambda>_. 0)"
    and "tls_alloc T w = (TLS_OUT_OF_INDEXES, w') \<Longrightarrow> tls_view T w' = tls_view T w"
    and "tls_free T i w = (b, w') \<Longrightarrow> tls_view T w' = (tls_view T w)(i := None)"
    and "tls_view T w i = Some v \<Longrightarrow> tls_get T t i w = v t"
    and "tls_set T t i p w = (True, w') \<Longrightarrow> tls_view T w i = Some v \<Longrightarrow> tls_view T w' = (tls_view T w)(i \<mapsto> v(t := p))"
    and "tls_set T t i p w = (False, w') \<Longrightarrow> tls_view T w i = Some v \<Longrightarrow> tls_view T w' = tls_view T w"
  using assms unfolding tls_ok_def by (fastforce split: option.splits if_splits)+

text \<open>An instance: the slots themselves, with a supply of indices.\<close>

definition slots_api :: "((dword \<Rightarrow> (tid \<Rightarrow> pointer) option) \<times> nat) tls_api" where
  "slots_api = \<lparr>
     tls_view = (\<lambda>(s, n) i. if i = TLS_OUT_OF_INDEXES then None else s i),
     tls_alloc = (\<lambda>(s, n). if word_of_nat n = TLS_OUT_OF_INDEXES \<or> s (word_of_nat n) \<noteq> None
       then (TLS_OUT_OF_INDEXES, (s, n)) else (word_of_nat n, (s(word_of_nat n \<mapsto> \<lambda>_. 0), Suc n))),
     tls_free = (\<lambda>i (s, n). (s i \<noteq> None, (s(i := None), n))),
     tls_get = (\<lambda>t i (s, n). case s i of None \<Rightarrow> 0 | Some v \<Rightarrow> v t),
     tls_set = (\<lambda>t i p (s, n). if i = TLS_OUT_OF_INDEXES then (False, (s, n))
       else case s i of None \<Rightarrow> (False, (s, n)) | Some v \<Rightarrow> (True, (s(i \<mapsto> v(t := p)), n))),
     tls_error = (\<lambda>t w. 0)\<rparr>"

lemma slots_api_ok [simp]: "tls_ok slots_api"
  by (auto simp: tls_ok_def slots_api_def fun_eq_iff split: option.splits if_splits)

section \<open>The heap\<close>

record 'a heap =
  hp_cells :: "pointer \<Rightarrow> 'a option"
  hp_next :: pointer

definition heap_new :: "'a \<Rightarrow> 'a heap \<Rightarrow> pointer \<times> 'a heap" where
  "heap_new x h = (hp_next h, \<lparr>hp_cells = (hp_cells h)(hp_next h \<mapsto> x), hp_next = Suc (hp_next h)\<rparr>)"

definition heap_delete :: "pointer \<Rightarrow> 'a heap \<Rightarrow> 'a heap" where
  "heap_delete p h = h\<lparr>hp_cells := (hp_cells h)(p := None)\<rparr>"

definition heap_write :: "pointer \<Rightarrow> 'a \<Rightarrow> 'a heap \<Rightarrow> 'a heap" where
  "heap_write p x h = h\<lparr>hp_cells := (hp_cells h)(p \<mapsto> x)\<rparr>"

section \<open>\<open>ThreadLocal<T>\<close>\<close>

text \<open>An object is its index. A method gives its result, the system and the heap.\<close>

definition tl_new :: "'w tls_api \<Rightarrow> tid \<Rightarrow> 'w \<Rightarrow> ('x, dword) result \<times> 'w" where
  "tl_new T t w =
     (case tls_alloc T w of
        (i, w') \<Rightarrow>
          (if i = TLS_OUT_OF_INDEXES then Inl (Thread_Exn ''TlsAlloc failed'' (tls_error T t w')) else Inr i, w'))"

definition tl_destroy :: "'w tls_api \<Rightarrow> dword \<Rightarrow> 'w \<Rightarrow> 'w" where
  "tl_destroy T i w = (if i \<noteq> TLS_OUT_OF_INDEXES then snd (tls_free T i w) else w)"

definition tl_GetPointer :: "'w tls_api \<Rightarrow> tid \<Rightarrow> dword \<Rightarrow> 'w \<Rightarrow> pointer" where
  "tl_GetPointer T t i w = tls_get T t i w"

definition tl_SetPointer ::
  "'w tls_api \<Rightarrow> tid \<Rightarrow> dword \<Rightarrow> pointer \<Rightarrow> 'w \<times> 'a heap \<Rightarrow> ('x, unit) result \<times> 'w \<times> 'a heap" where
  "tl_SetPointer T t i p s =
     (case s of (w, h) \<Rightarrow>
        (case tls_set T t i p w of
           (ok, w') \<Rightarrow>
             if \<not> ok then (Inl (Thread_Exn ''TlsSetValue failed'' (tls_error T t w')), w', heap_delete p h)
             else (Inr (), w', h)))"

text \<open>\<open>Get\<close>, with the value-initialised \<open>T()\<close> as \<open>d\<close>; the reference it returns is the pointer.\<close>

definition tl_Get :: "'w tls_api \<Rightarrow> 'a \<Rightarrow> tid \<Rightarrow> dword \<Rightarrow> 'w \<times> 'a heap \<Rightarrow> ('x, pointer) result \<times> 'w \<times> 'a heap" where
  "tl_Get T d t i s =
     (let p = tl_GetPointer T t i (fst s)
      in if p = 0
         then case heap_new d (snd s) of
           (q, h) \<Rightarrow> (case tl_SetPointer T t i q (fst s, h) of
              (Inl e, s') \<Rightarrow> (Inl e, s')
            | (Inr u, s') \<Rightarrow> (Inr q, s'))
         else (Inr p, s))"

definition tl_arrow :: "'w tls_api \<Rightarrow> 'a \<Rightarrow> tid \<Rightarrow> dword \<Rightarrow> 'w \<times> 'a heap \<Rightarrow> ('x, pointer) result \<times> 'w \<times> 'a heap" where
  "tl_arrow T d t i s = tl_Get T d t i s"

definition tl_deref :: "'w tls_api \<Rightarrow> 'a \<Rightarrow> tid \<Rightarrow> dword \<Rightarrow> 'w \<times> 'a heap \<Rightarrow> ('x, pointer) result \<times> 'w \<times> 'a heap" where
  "tl_deref T d t i s = tl_Get T d t i s"

definition tl_Get_const :: "'w tls_api \<Rightarrow> tid \<Rightarrow> dword \<Rightarrow> 'w \<Rightarrow> ('x, pointer) result" where
  "tl_Get_const T t i w =
     (let p = tl_GetPointer T t i w
      in if p = 0 then Inl (Thread_Exn ''Thread-local value not initialized'' (tls_error T t w)) else Inr p)"

definition tl_deref_const :: "'w tls_api \<Rightarrow> tid \<Rightarrow> dword \<Rightarrow> 'w \<Rightarrow> ('x, pointer) result" where
  "tl_deref_const T t i w = tl_Get_const T t i w"

definition tl_HasValue :: "'w tls_api \<Rightarrow> tid \<Rightarrow> dword \<Rightarrow> 'w \<Rightarrow> bool" where
  "tl_HasValue T t i w \<longleftrightarrow> tl_GetPointer T t i w \<noteq> 0"

text \<open>Deletes a value; the class defines it, but registers it with nothing.\<close>

definition tl_DestructorCallback :: "pointer \<Rightarrow> 'a heap \<Rightarrow> 'a heap" where
  "tl_DestructorCallback p h = (if p = 0 then h else heap_delete p h)"

section \<open>\<open>ThreadLocal<T*>\<close>\<close>

text \<open>
  The slot holds the address of a cell that holds the pointer; both methods that create it
  ignore whether \<open>TlsSetValue\<close> succeeds.
\<close>

definition tp_new :: "'w tls_api \<Rightarrow> tid \<Rightarrow> 'w \<Rightarrow> ('x, dword) result \<times> 'w" where
  "tp_new T t w = tl_new T t w"

definition tp_destroy :: "'w tls_api \<Rightarrow> dword \<Rightarrow> 'w \<Rightarrow> 'w" where
  "tp_destroy T i w = tl_destroy T i w"

definition tp_slot :: "'w tls_api \<Rightarrow> tid \<Rightarrow> dword \<Rightarrow> 'w \<times> pointer heap \<Rightarrow> pointer \<times> 'w \<times> pointer heap" where
  "tp_slot T t i s =
     (let slot = tls_get T t i (fst s)
      in if slot = 0
         then case heap_new 0 (snd s) of (q, h) \<Rightarrow> (q, snd (tls_set T t i q (fst s)), h)
         else (slot, s))"

definition tp_Get :: "'w tls_api \<Rightarrow> tid \<Rightarrow> dword \<Rightarrow> 'w \<times> pointer heap \<Rightarrow> pointer option \<times> 'w \<times> pointer heap" where
  "tp_Get T t i s = (case tp_slot T t i s of (slot, s') \<Rightarrow> (hp_cells (snd s') slot, s'))"

definition tp_deref :: "'w tls_api \<Rightarrow> tid \<Rightarrow> dword \<Rightarrow> 'w \<times> pointer heap \<Rightarrow> pointer \<times> 'w \<times> pointer heap" where
  "tp_deref T t i s = tp_slot T t i s"

definition tp_Get_const :: "'w tls_api \<Rightarrow> tid \<Rightarrow> dword \<Rightarrow> 'w \<times> pointer heap \<Rightarrow> ('x, pointer) result" where
  "tp_Get_const T t i s =
     (let slot = tls_get T t i (fst s)
      in if slot = 0 \<or> hp_cells (snd s) slot = Some 0
         then Inl (Thread_Exn ''Thread-local value not initialized'' (tls_error T t (fst s)))
         else Inr (the (hp_cells (snd s) slot)))"

definition tp_deref_const :: "'w tls_api \<Rightarrow> tid \<Rightarrow> dword \<Rightarrow> 'w \<times> pointer heap \<Rightarrow> ('x, pointer) result" where
  "tp_deref_const T t i s =
     (let slot = tls_get T t i (fst s)
      in if slot = 0 then Inl (Thread_Exn ''Thread-local value not initialized'' (tls_error T t (fst s)))
         else Inr slot)"

definition tp_HasValue :: "'w tls_api \<Rightarrow> tid \<Rightarrow> dword \<Rightarrow> 'w \<times> pointer heap \<Rightarrow> bool" where
  "tp_HasValue T t i s \<longleftrightarrow>
     (let slot = tls_get T t i (fst s) in slot \<noteq> 0 \<and> hp_cells (snd s) slot \<noteq> Some 0)"

section \<open>The map of values that the objects stand for\<close>

text \<open>The value that a thread has under an index, and the well-formed states.\<close>

definition tl_abs :: "'w tls_api \<Rightarrow> 'w \<times> 'a heap \<Rightarrow> dword \<times> tid \<Rightarrow> 'a option" where
  "tl_abs T s = (\<lambda>(i, t). case tls_view T (fst s) i of
     None \<Rightarrow> None | Some v \<Rightarrow> if v t = 0 then None else hp_cells (snd s) (v t))"

definition tl_slot_at :: "'w tls_api \<Rightarrow> 'w \<Rightarrow> dword \<times> tid \<Rightarrow> pointer" where
  "tl_slot_at T w = (\<lambda>(i, t). case tls_view T w i of None \<Rightarrow> 0 | Some v \<Rightarrow> v t)"

definition tl_wf :: "'w tls_api \<Rightarrow> 'w \<times> 'a heap \<Rightarrow> bool" where
  "tl_wf T s \<longleftrightarrow> 0 < hp_next (snd s) \<and>
     (\<forall>k. tl_slot_at T (fst s) k \<noteq> 0 \<longrightarrow> tl_slot_at T (fst s) k < hp_next (snd s) \<and>
        hp_cells (snd s) (tl_slot_at T (fst s) k) \<noteq> None) \<and>
     (\<forall>k l. tl_slot_at T (fst s) k = tl_slot_at T (fst s) l \<longrightarrow> tl_slot_at T (fst s) k \<noteq> 0 \<longrightarrow> k = l) \<and>
     (\<forall>p. hp_cells (snd s) p \<noteq> None \<longrightarrow> p < hp_next (snd s))"

lemma tl_wfD:
  assumes "tl_wf T s"
  shows "0 < hp_next (snd s)"
    and "tl_slot_at T (fst s) k \<noteq> 0 \<Longrightarrow> tl_slot_at T (fst s) k < hp_next (snd s)"
    and "tl_slot_at T (fst s) k \<noteq> 0 \<Longrightarrow> hp_cells (snd s) (tl_slot_at T (fst s) k) \<noteq> None"
    and "tl_slot_at T (fst s) k = tl_slot_at T (fst s) l \<Longrightarrow> tl_slot_at T (fst s) k \<noteq> 0 \<Longrightarrow> k = l"
    and "hp_cells (snd s) p \<noteq> None \<Longrightarrow> p < hp_next (snd s)"
  using assms unfolding tl_wf_def by blast+

lemma tl_wfI:
  assumes "0 < hp_next h"
    and "\<And>k. tl_slot_at T w k \<noteq> 0 \<Longrightarrow> tl_slot_at T w k < hp_next h \<and> hp_cells h (tl_slot_at T w k) \<noteq> None"
    and "\<And>k l. tl_slot_at T w k = tl_slot_at T w l \<Longrightarrow> tl_slot_at T w k \<noteq> 0 \<Longrightarrow> k = l"
    and "\<And>p. hp_cells h p \<noteq> None \<Longrightarrow> p < hp_next h"
  shows "tl_wf T (w, h)"
  unfolding tl_wf_def fst_conv snd_conv using assms by blast

lemma tl_abs_slot: "tl_abs T s k = (if tl_slot_at T (fst s) k = 0 then None else hp_cells (snd s) (tl_slot_at T (fst s) k))"
  by (cases k) (auto simp: tl_abs_def tl_slot_at_def split: option.splits)

lemma tl_abs_write:
  assumes "tl_slot_at T w k = p" and "p \<noteq> 0" and only: "\<And>l. tl_slot_at T w l = p \<Longrightarrow> l = k"
  shows "tl_abs T (w, heap_write p x h) = (tl_abs T (w, h))(k \<mapsto> x)"
proof
  fix l
  show "tl_abs T (w, heap_write p x h) l = ((tl_abs T (w, h))(k \<mapsto> x)) l"
    using assms(1,2) only [of l] by (cases "l = k") (auto simp: tl_abs_slot heap_write_def)
qed

lemma tl_slot_set:
  assumes "tls_ok T" and "tls_set T t i p w = (True, w')" and "tls_view T w i = Some v"
  shows "tl_slot_at T w' = (tl_slot_at T w)((i, t) := p)"
  using tls_okD(6) [OF assms] assms(3) by (auto simp: tl_slot_at_def fun_eq_iff)

text \<open>What \<open>Get\<close> does to the map: the three ways through it.\<close>

abbreviation tl_Get_refined ::
  "'w tls_api \<Rightarrow> 'a \<Rightarrow> dword \<times> tid \<Rightarrow> 'a \<Rightarrow> 'w \<times> 'a heap \<Rightarrow> ('x, pointer) result \<Rightarrow> 'w \<times> 'a heap \<Rightarrow> bool" where
  "tl_Get_refined T d k x s r s' \<equiv>
     (case r of
        Inl e \<Rightarrow> tl_abs T s' = tl_abs T s
      | Inr p \<Rightarrow>
          tl_abs T s' = (if tl_abs T s k = None then (tl_abs T s)(k \<mapsto> d) else tl_abs T s) \<and>
          hp_cells (snd s') p = tl_abs T s' k \<and>
          tl_abs T (fst s', heap_write p x (snd s')) = (tl_abs T s')(k \<mapsto> x)) \<and>
     tl_wf T s'"

lemma tl_slot_GetPointer:
  "tls_ok T \<Longrightarrow> tls_view T w i \<noteq> None \<Longrightarrow> tl_GetPointer T t i w = tl_slot_at T w (i, t)"
  using tls_okD(5) by (fastforce simp: tl_GetPointer_def tl_slot_at_def)

lemma tl_abs_None: "tl_wf T (w, h) \<Longrightarrow> tl_abs T (w, h) k = None \<longleftrightarrow> tl_slot_at T w k = 0"
  using tl_wfD(3) [of T "(w, h)" k] by (auto simp: tl_abs_slot)

lemma tl_Get_found:
  assumes wf: "tl_wf T (w, h)" and p: "tl_slot_at T w k = p" "p \<noteq> 0"
  shows "tl_Get_refined T d k x (w, h) (Inr p) (w, h)"
proof -
  have "l = k" if "tl_slot_at T w l = p" for l using that p tl_wfD(4) [OF wf, of l k] by simp
  then have "tl_abs T (w, heap_write p x h) = (tl_abs T (w, h))(k \<mapsto> x)" by (rule tl_abs_write [OF p])
  moreover have "tl_abs T (w, h) k \<noteq> None" using p tl_abs_None [OF wf] by simp
  moreover have "hp_cells h p = tl_abs T (w, h) k" using p by (simp add: tl_abs_slot)
  ultimately show ?thesis using wf by auto
qed

lemma tl_Get_stored:
  assumes wf: "tl_wf T (w, h)" and k: "tl_slot_at T w k = 0"
    and new: "heap_new d h = (q, h')" and slots: "tl_slot_at T w' = (tl_slot_at T w)(k := q)"
  shows "tl_Get_refined T d k x (w, h) (Inr q) (w', h')"
proof -
  note wf' = tl_wfD [OF wf, unfolded fst_conv snd_conv]
  have q: "q = hp_next h" "h' = \<lparr>hp_cells = (hp_cells h)(q \<mapsto> d), hp_next = Suc q\<rparr>"
    using new by (auto simp: heap_new_def)
  have fresh: "tl_slot_at T w l \<noteq> q" for l using wf'(1) wf'(2) [of l] q by (cases "tl_slot_at T w l = 0") auto
  have abs: "tl_abs T (w', h') = (tl_abs T (w, h))(k \<mapsto> d)"
  proof
    show "tl_abs T (w', h') l = ((tl_abs T (w, h))(k \<mapsto> d)) l" for l
      using wf'(1) fresh [of l] by (simp add: tl_abs_slot slots q)
  qed
  have "tl_wf T (w', h')"
  proof (rule tl_wfI)
    show "l = m" if "tl_slot_at T w' l = tl_slot_at T w' m" "tl_slot_at T w' l \<noteq> 0" for l m
      using that wf'(4) [of l m] fresh [of l] fresh [of m] by (auto simp: slots split: if_splits)
  qed (use wf'(1,2,3,5) in \<open>auto simp: slots q less_Suc_eq split: if_splits\<close>)
  moreover have "tl_abs T (w', heap_write q x h') = (tl_abs T (w', h'))(k \<mapsto> x)"
  proof (rule tl_abs_write)
    show "l = k" if "tl_slot_at T w' l = q" for l using that fresh [of l] slots by (auto split: if_splits)
  qed (use slots wf'(1) q in auto)
  ultimately show ?thesis using abs k tl_abs_None [OF wf, of k] q by simp
qed

lemma tl_Get_failed:
  assumes wf: "tl_wf T (w, h)" and new: "heap_new d h = (q, h')" and slots: "tl_slot_at T w' = tl_slot_at T w"
  shows "tl_Get_refined T d k x (w, h) (Inl e) (w', heap_delete q h')"
proof -
  note wf' = tl_wfD [OF wf, unfolded fst_conv snd_conv]
  have q: "q = hp_next h" "h' = \<lparr>hp_cells = (hp_cells h)(q \<mapsto> d), hp_next = Suc q\<rparr>"
    using new by (auto simp: heap_new_def)
  have "hp_cells h q = None" using wf'(5) [of q] q by (cases "hp_cells h q") auto
  then have cells: "hp_cells (heap_delete q h') = hp_cells h" by (auto simp: heap_delete_def fun_eq_iff q)
  have "tl_wf T (w', heap_delete q h')"
  proof (rule tl_wfI)
    show "l = m" if "tl_slot_at T w' l = tl_slot_at T w' m" "tl_slot_at T w' l \<noteq> 0" for l m
      using that wf'(4) [of l m] by (simp add: slots)
  qed (use wf'(1,2,3,5) cells in \<open>auto simp: slots less_Suc_eq heap_delete_def q\<close>)
  then show ?thesis using slots cells by (simp add: tl_abs_slot fun_eq_iff)
qed

text \<open>
  C27. A \<open>ThreadLocal<T>\<close> behaves as a map from objects and threads to values, whatever the system
  does within its contract: \<open>Get\<close> gives the calling thread the value it had, or a new one, and
  never touches that of another thread or object; when the slot cannot be set it throws and
  changes nothing. A write through the reference changes just the value of that thread, and
  \<open>HasValue\<close> and the constant \<open>Get\<close> tell whether there is one.
\<close>

theorem tls_refines_map:
  assumes T: "tls_ok T" and wf: "tl_wf T s" and alive: "tls_view T (fst s) i \<noteq> None"
    and get: "tl_Get T d t i s = (r :: ('x, pointer) result, s')"
  shows "(case r of
      Inl e \<Rightarrow> tl_abs T s' = tl_abs T s
    | Inr p \<Rightarrow>
        tl_abs T s' = (if tl_abs T s (i, t) = None then (tl_abs T s)((i, t) \<mapsto> d) else tl_abs T s) \<and>
        hp_cells (snd s') p = tl_abs T s' (i, t) \<and>
        tl_abs T (fst s', heap_write p x (snd s')) = (tl_abs T s')((i, t) \<mapsto> x)) \<and>
    tl_wf T s' \<and> (tl_HasValue T t i (fst s) \<longleftrightarrow> tl_abs T s (i, t) \<noteq> None) \<and>
    ((\<exists>p. tl_Get_const T t i (fst s) = (Inr p :: ('x, pointer) result)) \<longleftrightarrow> tl_abs T s (i, t) \<noteq> None)"
proof -
  obtain w h where s: "s = (w, h)" by (cases s)
  let ?p = "tl_slot_at T w (i, t)"
  have gp: "tl_GetPointer T t i w = ?p" using alive s by (intro tl_slot_GetPointer [OF T]) simp
  have none: "tl_abs T s (i, t) = None \<longleftrightarrow> ?p = 0" unfolding s by (rule tl_abs_None [OF wf [unfolded s]])
  have looks: "(tl_HasValue T t i (fst s) \<longleftrightarrow> tl_abs T s (i, t) \<noteq> None) \<and>
      ((\<exists>p. tl_Get_const T t i (fst s) = (Inr p :: ('x, pointer) result)) \<longleftrightarrow> tl_abs T s (i, t) \<noteq> None)"
    using gp none s by (simp add: tl_HasValue_def tl_Get_const_def Let_def)
  obtain q h' where new: "heap_new d h = (q, h')" by (cases "heap_new d h")
  obtain b w' where set: "tls_set T t i q w = (b, w')" by (cases "tls_set T t i q w")
  obtain v where v: "tls_view T w i = Some v" using alive s by auto
  consider "?p \<noteq> 0" "r = Inr ?p" "s' = s" | "?p = 0" "b" "r = Inr q" "s' = (w', h')"
    | e where "?p = 0" "\<not> b" "r = Inl e" "s' = (w', heap_delete q h')"
    using get gp s new set by (cases "?p = 0"; cases b) (auto simp: tl_Get_def Let_def tl_SetPointer_def)
  then have "tl_Get_refined T d (i, t) x s r s'"
  proof cases
    case 1
    show ?thesis unfolding 1(2,3) s by (rule tl_Get_found [OF wf [unfolded s] refl 1(1)])
  next
    case 2
    then have "tl_slot_at T w' = (tl_slot_at T w)((i, t) := q)" using set v by (intro tl_slot_set [OF T]) simp_all
    from tl_Get_stored [OF wf [unfolded s] 2(1) new this] 2 s show ?thesis by simp
  next
    case 3
    have "tls_view T w' = tls_view T w" using tls_okD(7) [OF T _ v] set 3(2) by simp
    then have "tl_slot_at T w' = tl_slot_at T w" by (simp add: tl_slot_at_def fun_eq_iff)
    from tl_Get_failed [OF wf [unfolded s] new this] 3 s show ?thesis by simp
  qed
  with looks show ?thesis by simp
qed

definition tls_one_index :: "((dword \<Rightarrow> (tid \<Rightarrow> pointer) option) \<times> nat) \<times> int heap" where
  "tls_one_index = ((\<lambda>i. if i = 1 then Some (\<lambda>_. 0) else None, 2), \<lparr>hp_cells = \<lambda>_. None, hp_next = 1\<rparr>)"

lemma tls_refines_map_witness:
  "let (r, s') = (tl_Get slots_api 5 7 1 tls_one_index :: (unit, pointer) result \<times> _)
   in r = Inr 1 \<and> tl_abs slots_api s' (1, 7) = Some 5 \<and> tl_abs slots_api s' (1, 8) = None \<and> tl_wf slots_api s'"
proof -
  obtain r s' where get: "(tl_Get slots_api 5 7 1 tls_one_index :: (unit, pointer) result \<times> _) = (r, s')"
    by (rule prod.exhaust)
  have s: "r = Inr 1"
    "tl_abs slots_api tls_one_index (1, t) = None" for t
    using get by (auto simp: tl_Get_def tls_one_index_def tl_GetPointer_def tl_SetPointer_def slots_api_def
        heap_new_def TLS_OUT_OF_INDEXES_def tl_abs_def)
  have wf: "tl_wf slots_api tls_one_index"
    unfolding tls_one_index_def by (rule tl_wfI) (auto simp: tl_slot_at_def slots_api_def TLS_OUT_OF_INDEXES_def split: if_splits)
  have alive: "tls_view slots_api (fst tls_one_index) 1 \<noteq> None"
    by (simp add: tls_one_index_def slots_api_def TLS_OUT_OF_INDEXES_def)
  have "tl_abs slots_api s' = (tl_abs slots_api tls_one_index)((1, 7) \<mapsto> 5) \<and> tl_wf slots_api s'"
    using tls_refines_map [OF slots_api_ok wf alive get, of 0] by (simp add: s)
  then show ?thesis unfolding get by (simp add: s)
qed

text \<open>Destroying an object forgets the values of all threads, and leaves each of them allocated with no slot that holds it.\<close>

lemma tls_destroy_leaks:
  assumes T: "tls_ok T" and wf: "tl_wf T (w, h)" and i: "i \<noteq> TLS_OUT_OF_INDEXES"
    and "tl_abs T (w, h) (i, t) = Some x"
  shows "\<exists>p. hp_cells h p = Some x \<and> (\<forall>k. tl_slot_at T (tl_destroy T i w) k \<noteq> p)"
proof (intro exI conjI allI)
  let ?p = "tl_slot_at T w (i, t)"
  have nz: "?p \<noteq> 0" and x: "hp_cells h ?p = Some x" using assms(4) by (auto simp: tl_abs_slot split: if_splits)
  show "hp_cells h ?p = Some x" by (rule x)
  fix k
  obtain b w' where f: "tls_free T i w = (b, w')" by (cases "tls_free T i w")
  have "tl_slot_at T w' (j, u) = (if j = i then 0 else tl_slot_at T w (j, u))" for j u
    using tls_okD(4) [OF T f] by (simp add: tl_slot_at_def)
  then show "tl_slot_at T (tl_destroy T i w) k \<noteq> ?p"
    using tl_wfD(4) [OF wf, of "(i, t)" k] nz i by (cases k) (auto simp: tl_destroy_def f)
qed

text \<open>A value written through \<open>ThreadLocal<T*>\<close> is lost when the slot could not be set; nothing reports it.\<close>

lemma tp_write_lost:
  assumes T: "tls_ok T" and v: "tls_view T w i = Some v" "v t = 0"
    and fails: "tls_set T t i (hp_next h) w = (False, w')"
  shows "\<exists>p. tp_deref T t i (w, h) = (p, w', snd (heap_new 0 h)) \<and>
    \<not> tp_HasValue T t i (w', heap_write p x (snd (heap_new 0 h)))"
proof -
  have "tls_view T w' i = Some v" using tls_okD(7) [OF T fails v(1)] v by simp
  then have "tls_get T t i w' = 0" "tls_get T t i w = 0" using tls_okD(5) [OF T] v by auto
  then show ?thesis using fails by (simp add: tp_deref_def tp_slot_def Let_def heap_new_def tp_HasValue_def)
qed

end
