(* ===== verification/RW_Lock.thy ===== *)
theory RW_Lock
  imports Monitor
begin

text \<open>
  Class \<open>RWLock\<close> with \<open>ReadLock\<close> and \<open>WriteLock\<close> of \<open>src/src/ezthread/mutex.hpp\<close> and \<open>mutex.cpp\<close>, over the
  slim reader/writer locks of the system as a parameter, and the methods of \<open>ConditionVariable\<close>
  that wait on such a lock (\<open>condition.cpp\<close>).
\<close>

section \<open>The locks of the system\<close>

datatype srw_view = Srw_Free | Srw_Shared nat | Srw_Exclusive

text \<open>
  The calls over the state \<open>'s\<close> of a lock; an acquisition is \<open>None\<close> while it blocks. A lock does not
  know its holders, and nothing says in which order it serves them: it may block a reader
  that could share it.
\<close>

record 's srw_api =
  srw_init :: 's
  srw_view :: "'s \<Rightarrow> srw_view"
  srw_acquire_shared :: "'s \<Rightarrow> 's option"
  srw_try_shared :: "'s \<Rightarrow> bool \<times> 's"
  srw_release_shared :: "'s \<Rightarrow> 's"
  srw_acquire_exclusive :: "'s \<Rightarrow> 's option"
  srw_try_exclusive :: "'s \<Rightarrow> bool \<times> 's"
  srw_release_exclusive :: "'s \<Rightarrow> 's"

fun shared_more :: "srw_view \<Rightarrow> srw_view option" where
  "shared_more Srw_Free = Some (Srw_Shared 1)"
| "shared_more (Srw_Shared n) = Some (Srw_Shared (Suc n))"
| "shared_more Srw_Exclusive = None"

fun shared_less :: "srw_view \<Rightarrow> srw_view" where
  "shared_less (Srw_Shared n) = (if n \<le> 1 then Srw_Free else Srw_Shared (n - 1))"
| "shared_less v = v"

definition srw_ok :: "'s srw_api \<Rightarrow> bool" where
  "srw_ok A \<longleftrightarrow> srw_view A (srw_init A) = Srw_Free \<and>
     (\<forall>s s'. srw_acquire_shared A s = Some s' \<longrightarrow> shared_more (srw_view A s) = Some (srw_view A s')) \<and>
     (\<forall>s s'. srw_try_shared A s = (True, s') \<longrightarrow> shared_more (srw_view A s) = Some (srw_view A s')) \<and>
     (\<forall>s s'. srw_try_shared A s = (False, s') \<longrightarrow> srw_view A s \<noteq> Srw_Free \<and> srw_view A s' = srw_view A s) \<and>
     (\<forall>s. srw_view A s = Srw_Free \<longrightarrow> srw_acquire_shared A s \<noteq> None \<and> srw_acquire_exclusive A s \<noteq> None) \<and>
     (\<forall>s n. srw_view A s = Srw_Shared n \<longrightarrow> srw_view A (srw_release_shared A s) = shared_less (srw_view A s)) \<and>
     (\<forall>s s'. srw_acquire_exclusive A s = Some s' \<longrightarrow> srw_view A s = Srw_Free \<and> srw_view A s' = Srw_Exclusive) \<and>
     (\<forall>s s'. srw_try_exclusive A s = (True, s') \<longrightarrow> srw_view A s = Srw_Free \<and> srw_view A s' = Srw_Exclusive) \<and>
     (\<forall>s s'. srw_try_exclusive A s = (False, s') \<longrightarrow> srw_view A s \<noteq> Srw_Free \<and> srw_view A s' = srw_view A s) \<and>
     (\<forall>s. srw_view A s = Srw_Exclusive \<longrightarrow> srw_view A (srw_release_exclusive A s) = Srw_Free)"

lemma srw_okD:
  assumes "srw_ok A"
  shows "srw_view A (srw_init A) = Srw_Free"
    and "srw_acquire_shared A s = Some s' \<Longrightarrow> shared_more (srw_view A s) = Some (srw_view A s')"
    and "srw_try_shared A s = (True, s') \<Longrightarrow> shared_more (srw_view A s) = Some (srw_view A s')"
    and "srw_try_shared A s = (False, s') \<Longrightarrow> srw_view A s \<noteq> Srw_Free \<and> srw_view A s' = srw_view A s"
    and "srw_view A s = Srw_Free \<Longrightarrow> srw_acquire_shared A s \<noteq> None \<and> srw_acquire_exclusive A s \<noteq> None"
    and "srw_view A s = Srw_Shared n \<Longrightarrow> srw_view A (srw_release_shared A s) = shared_less (srw_view A s)"
    and "srw_acquire_exclusive A s = Some s' \<Longrightarrow> srw_view A s = Srw_Free \<and> srw_view A s' = Srw_Exclusive"
    and "srw_try_exclusive A s = (True, s') \<Longrightarrow> srw_view A s = Srw_Free \<and> srw_view A s' = Srw_Exclusive"
    and "srw_try_exclusive A s = (False, s') \<Longrightarrow> srw_view A s \<noteq> Srw_Free \<and> srw_view A s' = srw_view A s"
    and "srw_view A s = Srw_Exclusive \<Longrightarrow> srw_view A (srw_release_exclusive A s) = Srw_Free"
  using assms unfolding srw_ok_def by blast+

text \<open>An instance: the view itself.\<close>

definition view_srw :: "srw_view srw_api" where
  "view_srw = \<lparr>srw_init = Srw_Free, srw_view = (\<lambda>v. v), srw_acquire_shared = shared_more,
     srw_try_shared = (\<lambda>v. case shared_more v of None \<Rightarrow> (False, v) | Some v' \<Rightarrow> (True, v')),
     srw_release_shared = shared_less,
     srw_acquire_exclusive = (\<lambda>v. if v = Srw_Free then Some Srw_Exclusive else None),
     srw_try_exclusive = (\<lambda>v. if v = Srw_Free then (True, Srw_Exclusive) else (False, v)),
     srw_release_exclusive = (\<lambda>v. Srw_Free)\<rparr>"

lemma shared_more_None: "shared_more v = None \<longleftrightarrow> v = Srw_Exclusive"
  by (cases v) auto

lemma view_srw_ok [simp]: "srw_ok view_srw"
  by (auto simp: srw_ok_def view_srw_def shared_more_None split: option.splits if_splits)

section \<open>The classes\<close>

definition rw_new :: "'s srw_api \<Rightarrow> 's" where "rw_new A = srw_init A"
definition rw_LockRead :: "'s srw_api \<Rightarrow> 's \<Rightarrow> 's option" where "rw_LockRead A s = srw_acquire_shared A s"
definition rw_TryLockRead :: "'s srw_api \<Rightarrow> 's \<Rightarrow> bool \<times> 's" where "rw_TryLockRead A s = srw_try_shared A s"
definition rw_UnlockRead :: "'s srw_api \<Rightarrow> 's \<Rightarrow> 's" where "rw_UnlockRead A s = srw_release_shared A s"
definition rw_LockWrite :: "'s srw_api \<Rightarrow> 's \<Rightarrow> 's option" where "rw_LockWrite A s = srw_acquire_exclusive A s"
definition rw_TryLockWrite :: "'s srw_api \<Rightarrow> 's \<Rightarrow> bool \<times> 's" where "rw_TryLockWrite A s = srw_try_exclusive A s"
definition rw_UnlockWrite :: "'s srw_api \<Rightarrow> 's \<Rightarrow> 's" where "rw_UnlockWrite A s = srw_release_exclusive A s"

text \<open>\<open>ReadLock\<close> and \<open>WriteLock\<close>: the constructors and the destructors.\<close>

definition read_lock_new :: "'s srw_api \<Rightarrow> 's \<Rightarrow> 's option" where "read_lock_new A s = rw_LockRead A s"
definition read_lock_destroy :: "'s srw_api \<Rightarrow> 's \<Rightarrow> 's" where "read_lock_destroy A s = rw_UnlockRead A s"
definition write_lock_new :: "'s srw_api \<Rightarrow> 's \<Rightarrow> 's option" where "write_lock_new A s = rw_LockWrite A s"
definition write_lock_destroy :: "'s srw_api \<Rightarrow> 's \<Rightarrow> 's" where "write_lock_destroy A s = rw_UnlockWrite A s"

lemmas rw_defs = rw_new_def rw_LockRead_def rw_TryLockRead_def rw_UnlockRead_def rw_LockWrite_def rw_TryLockWrite_def
  rw_UnlockWrite_def read_lock_new_def read_lock_destroy_def write_lock_new_def write_lock_destroy_def

section \<open>Threads that use a lock\<close>

text \<open>
  The holds that threads have acquired and not released; a thread releases a hold it has, by
  the method of its kind or by the end of a scoped lock.
\<close>

datatype rw_mode = Read | Write

record 's rw_system =
  rw_lock :: 's
  rw_holds :: "(tid \<times> rw_mode) list"

datatype rw_label =
    R_Lock tid rw_mode
  | R_TryLock tid rw_mode
  | R_Scoped tid rw_mode
  | R_Unlock tid rw_mode
  | R_Scope_End tid rw_mode

definition rw_held :: "tid \<Rightarrow> rw_mode \<Rightarrow> 's \<Rightarrow> 's rw_system \<Rightarrow> 's rw_system" where
  "rw_held t md l s = s\<lparr>rw_lock := l, rw_holds := (t, md) # rw_holds s\<rparr>"

definition rw_release :: "tid \<Rightarrow> rw_mode \<Rightarrow> 's \<Rightarrow> 's rw_system \<Rightarrow> 's rw_system option" where
  "rw_release t md l s =
     (if (t, md) \<in> set (rw_holds s) then Some (s\<lparr>rw_lock := l, rw_holds := remove1 (t, md) (rw_holds s)\<rparr>) else None)"

fun rw_step :: "'s srw_api \<Rightarrow> rw_label \<Rightarrow> 's rw_system \<Rightarrow> 's rw_system option" where
  "rw_step A (R_Lock t md) s =
     map_option (\<lambda>l. rw_held t md l s) (case md of Read \<Rightarrow> rw_LockRead A (rw_lock s) | Write \<Rightarrow> rw_LockWrite A (rw_lock s))"
| "rw_step A (R_TryLock t md) s =
     (case (case md of Read \<Rightarrow> rw_TryLockRead A (rw_lock s) | Write \<Rightarrow> rw_TryLockWrite A (rw_lock s)) of
        (ok, l) \<Rightarrow> Some (if ok then rw_held t md l s else s\<lparr>rw_lock := l\<rparr>))"
| "rw_step A (R_Scoped t md) s =
     map_option (\<lambda>l. rw_held t md l s) (case md of Read \<Rightarrow> read_lock_new A (rw_lock s) | Write \<Rightarrow> write_lock_new A (rw_lock s))"
| "rw_step A (R_Unlock t md) s =
     rw_release t md (case md of Read \<Rightarrow> rw_UnlockRead A (rw_lock s) | Write \<Rightarrow> rw_UnlockWrite A (rw_lock s)) s"
| "rw_step A (R_Scope_End t md) s =
     rw_release t md (case md of Read \<Rightarrow> read_lock_destroy A (rw_lock s) | Write \<Rightarrow> write_lock_destroy A (rw_lock s)) s"

definition rw_start :: "'s srw_api \<Rightarrow> 's rw_system" where
  "rw_start A = \<lparr>rw_lock = rw_new A, rw_holds = []\<rparr>"

text \<open>The view that the holds require.\<close>

fun view_of :: "(tid \<times> rw_mode) list \<Rightarrow> srw_view" where
  "view_of [] = Srw_Free"
| "view_of ((t, Write) # hs) = Srw_Exclusive"
| "view_of ((t, Read) # hs) = Srw_Shared (Suc (length hs))"

definition rw_inv :: "'s srw_api \<Rightarrow> 's rw_system \<Rightarrow> bool" where
  "rw_inv A s \<longleftrightarrow> srw_view A (rw_lock s) = view_of (rw_holds s) \<and>
     ((\<exists>t. rw_holds s = [(t, Write)]) \<or> (\<forall>h\<in>set (rw_holds s). snd h = Read))"

lemma view_of_readers: "\<forall>h\<in>set hs. snd h = Read \<Longrightarrow> view_of hs = (if hs = [] then Srw_Free else Srw_Shared (length hs))"
  by (cases hs rule: view_of.cases) auto

lemma rw_inv_shared:
  assumes "rw_inv A s" and "shared_more (srw_view A (rw_lock s)) = Some (srw_view A l)"
  shows "rw_inv A (rw_held t Read l s)"
  using assms view_of_readers [of "rw_holds s"] by (auto simp: rw_inv_def rw_held_def split: if_splits)

lemma rw_inv_exclusive:
  assumes "rw_inv A s" and "srw_view A (rw_lock s) = Srw_Free \<and> srw_view A l = Srw_Exclusive"
  shows "rw_inv A (rw_held t Write l s)"
  using assms by (cases "rw_holds s" rule: view_of.cases) (auto simp: rw_inv_def rw_held_def)

lemma rw_inv_release_read:
  assumes A: "srw_ok A" and inv: "rw_inv A s" and st: "rw_release t Read (srw_release_shared A (rw_lock s)) s = Some s'"
  shows "rw_inv A s'"
proof -
  have h: "(t, Read) \<in> set (rw_holds s)" and s': "s' = s\<lparr>rw_lock := srw_release_shared A (rw_lock s), rw_holds := remove1 (t, Read) (rw_holds s)\<rparr>"
    using st by (auto simp: rw_release_def split: if_splits)
  then have r: "\<forall>h\<in>set (rw_holds s). snd h = Read" using inv by (auto simp: rw_inv_def)
  then have v: "srw_view A (rw_lock s) = Srw_Shared (length (rw_holds s))"
    using inv view_of_readers [OF r] h by (auto simp: rw_inv_def)
  have r': "\<forall>h\<in>set (remove1 (t, Read) (rw_holds s)). snd h = Read" using r by (metis notin_set_remove1)
  have len: "length (remove1 (t, Read) (rw_holds s)) = length (rw_holds s) - 1" using h by (simp add: length_remove1)
  then have "remove1 (t, Read) (rw_holds s) = [] \<longleftrightarrow> length (rw_holds s) \<le> 1" by (metis diff_is_0_eq length_0_conv)
  then show ?thesis
    using srw_okD(6) [OF A v] v r' len view_of_readers [OF r'] by (auto simp: rw_inv_def s')
qed

lemma rw_inv_release_write:
  assumes A: "srw_ok A" and inv: "rw_inv A s" and st: "rw_release t Write (srw_release_exclusive A (rw_lock s)) s = Some s'"
  shows "rw_inv A s'"
proof -
  have h: "(t, Write) \<in> set (rw_holds s)" and s': "s' = s\<lparr>rw_lock := srw_release_exclusive A (rw_lock s), rw_holds := remove1 (t, Write) (rw_holds s)\<rparr>"
    using st by (auto simp: rw_release_def split: if_splits)
  then have "rw_holds s = [(t, Write)]" using inv by (auto simp: rw_inv_def)
  then show ?thesis using inv srw_okD(10) [OF A, of "rw_lock s"] by (simp add: rw_inv_def s')
qed

lemma rw_inv_step:
  assumes A: "srw_ok A" and inv: "rw_inv A s" and st: "rw_step A l s = Some s'"
  shows "rw_inv A s'"
proof (cases l)
  case (R_Lock t md)
  then show ?thesis
    using st rw_inv_shared [OF inv] rw_inv_exclusive [OF inv] srw_okD(2,7) [OF A]
    by (cases md) (auto simp: rw_defs)
next
  case (R_TryLock t md)
  have same: "rw_inv A (s\<lparr>rw_lock := l\<rparr>)" if "srw_view A l = srw_view A (rw_lock s)" for l
    using inv that by (simp add: rw_inv_def)
  show ?thesis
    using st R_TryLock rw_inv_shared [OF inv] rw_inv_exclusive [OF inv] srw_okD(3,4,8,9) [OF A] same
    by (cases md) (auto simp: rw_defs split: prod.splits if_splits)
next
  case (R_Scoped t md)
  then show ?thesis
    using st rw_inv_shared [OF inv] rw_inv_exclusive [OF inv] srw_okD(2,7) [OF A]
    by (cases md) (auto simp: rw_defs)
next
  case (R_Unlock t md)
  then show ?thesis
    using st rw_inv_release_read [OF A inv] rw_inv_release_write [OF A inv] by (cases md) (auto simp: rw_defs)
next
  case (R_Scope_End t md)
  then show ?thesis
    using st rw_inv_release_read [OF A inv] rw_inv_release_write [OF A inv] by (cases md) (auto simp: rw_defs)
qed

lemma rw_inv_reach:
  assumes A: "srw_ok A" and "reach (rw_step A) (rw_start A) s"
  shows "rw_inv A s"
  using assms(2)
proof (induction rule: reach.induct)
  case reach_init
  then show ?case using srw_okD(1) [OF A] by (simp add: rw_inv_def rw_start_def rw_new_def)
qed (rule rw_inv_step [OF A])

text \<open>
  C33. Whatever the lock of the system is, within its documented behaviour, and whatever threads use
  it through the methods or the scoped locks: a hold for writing is the only hold of any
  thread. While a thread holds the lock for reading, \<open>LockWrite\<close> blocks in every thread, its own
  included, and \<open>TryLockWrite\<close> fails; a lock that nobody holds blocks nobody.
\<close>

theorem rw_lock_excludes:
  assumes A: "srw_ok A" and "reach (rw_step A) (rw_start A) s"
  shows "((t, Write) \<in> set (rw_holds s) \<longrightarrow> rw_holds s = [(t, Write)]) \<and>
    ((t, Read) \<in> set (rw_holds s) \<longrightarrow> rw_step A (R_Lock u Write) s = None \<and> \<not> fst (rw_TryLockWrite A (rw_lock s))) \<and>
    (rw_holds s = [] \<longrightarrow> rw_step A (R_Lock u md) s \<noteq> None \<and> fst (rw_TryLockWrite A (rw_lock s)))"
proof -
  have inv: "rw_inv A s" by (rule rw_inv_reach [OF assms])
  have busy: "rw_LockWrite A (rw_lock s) = None \<and> \<not> fst (rw_TryLockWrite A (rw_lock s))" if "srw_view A (rw_lock s) \<noteq> Srw_Free"
    using that srw_okD(7,8) [OF A, of "rw_lock s"]
    by (cases "srw_acquire_exclusive A (rw_lock s)"; cases "srw_try_exclusive A (rw_lock s)") (auto simp: rw_defs)
  have free: "fst (rw_TryLockWrite A (rw_lock s)) \<and> rw_LockRead A (rw_lock s) \<noteq> None \<and> rw_LockWrite A (rw_lock s) \<noteq> None"
    if "srw_view A (rw_lock s) = Srw_Free"
    using that srw_okD(5,9) [OF A, of "rw_lock s"] by (cases "srw_try_exclusive A (rw_lock s)") (auto simp: rw_defs)
  have v: "srw_view A (rw_lock s) = Srw_Free \<longleftrightarrow> rw_holds s = []"
    using inv by (cases "rw_holds s" rule: view_of.cases) (auto simp: rw_inv_def)
  have "(t, Write) \<in> set (rw_holds s) \<longrightarrow> rw_holds s = [(t, Write)]" using inv by (auto simp: rw_inv_def)
  moreover have "(t, Read) \<in> set (rw_holds s) \<longrightarrow> rw_step A (R_Lock u Write) s = None \<and> \<not> fst (rw_TryLockWrite A (rw_lock s))"
    using busy v by auto
  moreover have "rw_holds s = [] \<longrightarrow> rw_step A (R_Lock u md) s \<noteq> None \<and> fst (rw_TryLockWrite A (rw_lock s))"
    using free v by (cases md) auto
  ultimately show ?thesis by blast
qed

lemma rw_lock_excludes_witness:
  "\<exists>s. run (rw_step view_srw) [R_Lock 1 Read, R_Scoped 2 Read, R_Unlock 1 Read] (rw_start view_srw) = Some s \<and>
     rw_holds s = [(2, Read)] \<and> rw_step view_srw (R_Lock 2 Write) s = None"
proof -
  obtain s where s: "run (rw_step view_srw) [R_Lock 1 Read, R_Scoped 2 Read, R_Unlock 1 Read] (rw_start view_srw) = Some s"
    "rw_holds s = [(2, Read)]"
    by (simp add: rw_start_def rw_defs rw_held_def rw_release_def view_srw_def)
  from rw_lock_excludes [OF view_srw_ok run_reach [OF s(1)], of 2 2 Read] s show ?thesis by auto
qed

section \<open>Condition variables on such a lock\<close>

definition LOCKMODE_EXCLUSIVE :: dword where "LOCKMODE_EXCLUSIVE = 0"
definition LOCKMODE_SHARED :: dword where "LOCKMODE_SHARED = 1"

text \<open>
  \<open>sleep\<close> is \<open>SleepConditionVariableSRW\<close> on the variable and the lock, with the time-out and the mode,
  over a state \<open>'w\<close>; it is \<open>None\<close> while it blocks.
\<close>

definition cv_new :: "('c, 'v) win_sync \<Rightarrow> 'v" where "cv_new api = api_init_cv api"

definition cv_Wait_RW ::
  "(dword \<Rightarrow> dword \<Rightarrow> 'w \<Rightarrow> (cv_result \<times> 'w) option) \<Rightarrow> bool \<Rightarrow> 'w \<Rightarrow> (('x, unit) result \<times> 'w) option" where
  "cv_Wait_RW sleep exclusive w =
     map_option (\<lambda>(r, w'). (case r of Cv_True \<Rightarrow> Inr () | Cv_False e \<Rightarrow> Inl (Thread_Exn ''SleepConditionVariableSRW failed'' e), w'))
       (sleep INFINITE (if exclusive then LOCKMODE_EXCLUSIVE else LOCKMODE_SHARED) w)"

definition cv_WaitFor_RW ::
  "(dword \<Rightarrow> dword \<Rightarrow> 'w \<Rightarrow> (cv_result \<times> 'w) option) \<Rightarrow> bool \<Rightarrow> dword \<Rightarrow> 'w \<Rightarrow> (('x, bool) result \<times> 'w) option" where
  "cv_WaitFor_RW sleep exclusive timeoutMs w =
     map_option (\<lambda>(r, w'). (case r of
         Cv_True \<Rightarrow> Inr True
       | Cv_False e \<Rightarrow> if e = ERROR_TIMEOUT then Inr False
           else Inl (Thread_Exn ''SleepConditionVariableSRW failed'' e), w'))
       (sleep INFINITE (if exclusive then LOCKMODE_EXCLUSIVE else LOCKMODE_SHARED) w)"

text \<open>
  \<open>WaitFor\<close> on a reader/writer lock ignores its time-out: it waits without limit, and never returns
  false when the system reports no time-out for an unlimited sleep.
\<close>

lemma cv_WaitFor_RW_ignores_timeout:
  assumes "\<And>md w e w'. sleep INFINITE md w = Some (Cv_False e, w') \<Longrightarrow> e \<noteq> ERROR_TIMEOUT"
  shows "cv_WaitFor_RW sleep exclusive ms w = cv_WaitFor_RW sleep exclusive ms' w"
    and "cv_WaitFor_RW sleep exclusive ms w \<noteq> Some (Inr False, w')"
  using assms by (auto simp: cv_WaitFor_RW_def split: cv_result.splits)

end
