(* ===== verification/Debug.thy ===== *)
theory Debug
  imports Kernel
begin

text \<open>
  \<open>src/src/ezthread/debug.hpp\<close> and \<open>debug.cpp\<close>: class \<open>DeadlockDetector\<close>, the names of threads, and the
  classes \<open>PerformanceCounter\<close> and \<open>ScopedProfiler\<close>.
\<close>

section \<open>\<open>DeadlockDetector\<close>\<close>

type_synonym address = nat

text \<open>A name is a pointer to the buffer of the thread that asked for it.\<close>

type_synonym name_buffer = dword

record lock_info =
  li_address :: address
  li_name :: "string option"
  li_threadId :: dword
  li_acquireTime :: "64 word"

record deadlock_info =
  dl_lockAddress1 :: address
  dl_lockAddress2 :: address
  dl_thread1Name :: name_buffer
  dl_thread2Name :: name_buffer
  dl_thread1Id :: dword
  dl_thread2Id :: dword

text \<open>
  The static members, with the buffers that \<open>GetThreadName\<close> fills and the reports made so far: a
  call of the callback, when there is one, and a message.
\<close>

datatype dd_report = Dd_Callback deadlock_info | Dd_Message deadlock_info

record detector =
  dd_enabled :: bool
  dd_callback :: bool
  dd_locks :: "address \<Rightarrow> lock_info option"
  dd_threadLocks :: "dword \<Rightarrow> address list option"
  dd_names :: "name_buffer \<Rightarrow> string"
  dd_reports :: "dd_report list"

definition detector_init :: detector where
  "detector_init = \<lparr>dd_enabled = False, dd_callback = False, dd_locks = Map.empty, dd_threadLocks = Map.empty,
     dd_names = (\<lambda>_. ''''), dd_reports = []\<rparr>"

definition dd_Enable :: "bool \<Rightarrow> detector \<Rightarrow> detector" where
  "dd_Enable enable s = s\<lparr>dd_enabled := enable\<rparr>"

definition dd_IsEnabled :: "detector \<Rightarrow> bool" where
  "dd_IsEnabled s = dd_enabled s"

definition dd_SetCallback :: "bool \<Rightarrow> detector \<Rightarrow> detector" where
  "dd_SetCallback callback s = s\<lparr>dd_callback := callback\<rparr>"

text \<open>\<open>GetThreadName\<close> by thread \<open>me\<close>: \<open>naming\<close> is what the name of a thread is.\<close>

definition dd_GetThreadName :: "(dword \<Rightarrow> string) \<Rightarrow> dword \<Rightarrow> dword \<Rightarrow> detector \<Rightarrow> name_buffer \<times> detector" where
  "dd_GetThreadName naming me threadId s = (me, s\<lparr>dd_names := (dd_names s)(me := naming threadId)\<rparr>)"

text \<open>The two nested loops: the first lock of the owner that the current thread has, too.\<close>

fun dd_inner :: "address \<Rightarrow> address list \<Rightarrow> bool" where
  "dd_inner ownerLock [] \<longleftrightarrow> False"
| "dd_inner ownerLock (currentLock # rest) \<longleftrightarrow> (if ownerLock = currentLock then True else dd_inner ownerLock rest)"

fun dd_common :: "address list \<Rightarrow> address list \<Rightarrow> address option" where
  "dd_common [] currentLocks = None"
| "dd_common (ownerLock # rest) currentLocks =
     (if dd_inner ownerLock currentLocks then Some ownerLock else dd_common rest currentLocks)"

definition dd_CheckForDeadlock ::
  "(dword \<Rightarrow> string) \<Rightarrow> dword \<Rightarrow> address \<Rightarrow> dword \<Rightarrow> detector \<Rightarrow> detector" where
  "dd_CheckForDeadlock naming me lockAddress threadId s =
     (case dd_locks s lockAddress of
        None \<Rightarrow> s
      | Some info \<Rightarrow>
          if li_threadId info = threadId then s
          else
            (let ownerTid = li_threadId info in
             case dd_threadLocks s ownerTid of
               None \<Rightarrow> s
             | Some ownerLocks \<Rightarrow>
                 (case dd_threadLocks s threadId of
                    None \<Rightarrow> s
                  | Some currentLocks \<Rightarrow>
                      (case dd_common ownerLocks currentLocks of
                         None \<Rightarrow> s
                       | Some ownerLock \<Rightarrow>
                           (case dd_GetThreadName naming me threadId s of
                              (n1, s1) \<Rightarrow> (case dd_GetThreadName naming me ownerTid s1 of
                                (n2, s2) \<Rightarrow>
                                  (let dl = \<lparr>dl_lockAddress1 = lockAddress, dl_lockAddress2 = ownerLock,
                                     dl_thread1Name = n1, dl_thread2Name = n2,
                                     dl_thread1Id = threadId, dl_thread2Id = ownerTid\<rparr>
                                   in s2\<lparr>dd_reports := dd_reports s2 @
                                        (if dd_callback s2 then [Dd_Callback dl] else []) @ [Dd_Message dl]\<rparr>)))))))"

text \<open>
  \<open>OnLockAcquired\<close> and \<open>OnLockReleased\<close> by the thread \<open>tid\<close>, each under the mutex of the detector:
  the map of locks is written before \<open>CheckForDeadlock\<close> looks for the owner of the lock.
\<close>

definition dd_OnLockAcquired ::
  "(dword \<Rightarrow> string) \<Rightarrow> dword \<Rightarrow> 64 word \<Rightarrow> address \<Rightarrow> string option \<Rightarrow> detector \<Rightarrow> detector" where
  "dd_OnLockAcquired naming tid currentTime lockAddress lockName s =
     (if \<not> dd_enabled s \<or> lockAddress = 0 then s
      else
        let info = \<lparr>li_address = lockAddress, li_name = lockName, li_threadId = tid, li_acquireTime = currentTime\<rparr>;
            s1 = s\<lparr>dd_locks := (dd_locks s)(lockAddress \<mapsto> info)\<rparr>;
            s2 = s1\<lparr>dd_threadLocks := (dd_threadLocks s1)(tid \<mapsto>
              (case dd_threadLocks s1 tid of None \<Rightarrow> [] | Some locks \<Rightarrow> locks) @ [lockAddress])\<rparr>
        in dd_CheckForDeadlock naming tid lockAddress tid s2)"

definition dd_OnLockReleased :: "dword \<Rightarrow> address \<Rightarrow> detector \<Rightarrow> detector" where
  "dd_OnLockReleased tid lockAddress s =
     (if \<not> dd_enabled s \<or> lockAddress = 0 then s
      else
        let s1 = s\<lparr>dd_locks := (dd_locks s)(lockAddress := None)\<rparr>
        in case dd_threadLocks s1 tid of
             None \<Rightarrow> s1
           | Some locks \<Rightarrow>
               (let locks' = filter (\<lambda>a. a \<noteq> lockAddress) locks
                in s1\<lparr>dd_threadLocks := (dd_threadLocks s1)(tid := if locks' = [] then None else Some locks')\<rparr>))"

text \<open>Histories of calls.\<close>

datatype dd_call =
    D_Enable bool
  | D_SetCallback bool
  | D_Acquired dword "64 word" address "string option"
  | D_Released dword address

fun dd_step :: "(dword \<Rightarrow> string) \<Rightarrow> dd_call \<Rightarrow> detector \<Rightarrow> detector" where
  "dd_step naming (D_Enable b) s = dd_Enable b s"
| "dd_step naming (D_SetCallback b) s = dd_SetCallback b s"
| "dd_step naming (D_Acquired t now a nm) s = dd_OnLockAcquired naming t now a nm s"
| "dd_step naming (D_Released t a) s = dd_OnLockReleased t a s"

definition dd_run :: "(dword \<Rightarrow> string) \<Rightarrow> dd_call list \<Rightarrow> detector \<Rightarrow> detector" where
  "dd_run naming cs s = fold (dd_step naming) cs s"

section \<open>What the detector does\<close>

lemma dd_run_simps [simp]:
  "dd_run naming [] s = s" "dd_run naming (cs @ [c]) s = dd_step naming c (dd_run naming cs s)"
  "dd_run naming (c # cs) s = dd_run naming cs (dd_step naming c s)"
  by (simp_all add: dd_run_def)

lemma check_own_lock:
  "dd_locks s a = Some info \<Longrightarrow> li_threadId info = t \<Longrightarrow> dd_CheckForDeadlock naming me a t s = s"
  by (simp add: dd_CheckForDeadlock_def)

lemma acquired_state:
  "dd_enabled s \<Longrightarrow> a \<noteq> 0 \<Longrightarrow> dd_OnLockAcquired naming t now a nm s =
     s\<lparr>dd_locks := (dd_locks s)(a \<mapsto> \<lparr>li_address = a, li_name = nm, li_threadId = t, li_acquireTime = now\<rparr>),
       dd_threadLocks := (dd_threadLocks s)(t \<mapsto>
         (case dd_threadLocks s t of None \<Rightarrow> [] | Some locks \<Rightarrow> locks) @ [a])\<rparr>"
  by (simp add: dd_OnLockAcquired_def Let_def check_own_lock)

lemma dd_step_reports: "dd_reports (dd_step naming c s) = dd_reports s"
proof (cases c)
  case (D_Acquired t now a nm)
  then show ?thesis
    using acquired_state [of s a naming t now nm] by (cases "dd_enabled s \<and> a \<noteq> 0") (auto simp: dd_OnLockAcquired_def)
qed (auto simp: dd_Enable_def dd_SetCallback_def dd_OnLockReleased_def Let_def split: option.splits)

text \<open>
  C8. The detector never reports anything: in no history of calls, by any threads on any locks,
  with any callback, is the callback called or a message printed. \<open>OnLockAcquired\<close> records the
  calling thread as the owner of the lock before it looks for a conflicting owner, and always
  finds the calling thread.
\<close>

theorem detector_never_reports: "dd_reports (dd_run naming cs detector_init) = []"
proof -
  have "dd_reports (dd_run naming cs s) = dd_reports s" for s
    by (induction cs arbitrary: s) (simp_all add: dd_step_reports)
  then show ?thesis by (simp add: detector_init_def)
qed

text \<open>A direct check that does report gives both threads the same name: that of the owner.\<close>

lemma report_names_alias:
  assumes "dd_reports (dd_CheckForDeadlock naming me a t s) = dd_reports s @ rs @ [Dd_Message dl]"
  shows "dl_thread1Name dl = dl_thread2Name dl \<and>
    dd_names (dd_CheckForDeadlock naming me a t s) (dl_thread1Name dl) = naming (dl_thread2Id dl)"
  using assms
  by (auto simp: dd_CheckForDeadlock_def dd_GetThreadName_def Let_def split: option.splits if_splits)

text \<open>
  The abstract view: the locks that are held, with their holders, in the order in which they were
  acquired. A disciplined history acquires a lock that is free and releases one that it holds.
\<close>

fun held_step :: "dd_call \<Rightarrow> (dword \<times> address) list \<Rightarrow> (dword \<times> address) list option" where
  "held_step (D_Acquired t now a nm) hs = (if a = 0 \<or> a \<in> snd ` set hs then None else Some (hs @ [(t, a)]))"
| "held_step (D_Released t a) hs = (if (t, a) \<in> set hs then Some (filter (\<lambda>h. h \<noteq> (t, a)) hs) else None)"
| "held_step (D_SetCallback b) hs = Some hs"
| "held_step (D_Enable b) hs = (if b then Some hs else None)"

fun held_run :: "dd_call list \<Rightarrow> (dword \<times> address) list \<Rightarrow> (dword \<times> address) list option" where
  "held_run [] hs = Some hs"
| "held_run (c # cs) hs = (case held_step c hs of None \<Rightarrow> None | Some hs' \<Rightarrow> held_run cs hs')"

definition held_by :: "(dword \<times> address) list \<Rightarrow> dword \<Rightarrow> address list" where
  "held_by hs t = map snd (filter (\<lambda>h. fst h = t) hs)"

definition tracks :: "detector \<Rightarrow> (dword \<times> address) list \<Rightarrow> bool" where
  "tracks s hs \<longleftrightarrow> dd_enabled s \<and>
     (\<forall>t. dd_threadLocks s t = (if held_by hs t = [] then None else Some (held_by hs t))) \<and>
     (\<forall>a. map_option li_threadId (dd_locks s a) = map_of (map prod.swap hs) a)"

definition held_ok :: "(dword \<times> address) list \<Rightarrow> bool" where
  "held_ok hs \<longleftrightarrow> distinct (map snd hs) \<and> 0 \<notin> set (map snd hs)"

lemma held_step_ok: "held_ok hs \<Longrightarrow> held_step c hs = Some hs' \<Longrightarrow> held_ok hs'"
  by (cases c) (auto simp: held_ok_def distinct_map_filter split: if_splits)

lemma map_of_swap_filter:
  assumes "distinct (map snd hs)" and "(t, a) \<in> set hs"
  shows "map_of (map prod.swap (filter (\<lambda>h. h \<noteq> (t, a)) hs)) = (map_of (map prod.swap hs))(a := None)"
  using assms
proof (induction hs)
  case (Cons h hs)
  show ?case
  proof (cases "h = (t, a)")
    case True
    with Cons.prems have free: "a \<notin> snd ` set hs" by auto
    then have "filter (\<lambda>h. h \<noteq> (t, a)) hs = hs" by (auto simp: filter_id_conv intro: rev_image_eqI)
    moreover have "map_of (map prod.swap hs) a = None" using free by (auto simp: map_of_eq_None_iff image_iff)
    ultimately show ?thesis using True by (auto simp: fun_eq_iff)
  next
    case False
    with Cons show ?thesis by (cases h) (auto simp: fun_eq_iff image_iff)
  qed
qed simp

lemma held_by_simps [simp]:
  "held_by [] t = []"
  "held_by (hs @ [(u, a)]) t = held_by hs t @ (if u = t then [a] else [])"
  by (auto simp: held_by_def)

lemma held_by_filter:
  assumes "distinct (map snd hs)" and "(u, a) \<in> set hs"
  shows "held_by (filter (\<lambda>h. h \<noteq> (u, a)) hs) t =
    (if t = u then filter (\<lambda>b. b \<noteq> a) (held_by hs t) else held_by hs t)"
proof (cases "t = u")
  case True
  then show ?thesis using assms(1) unfolding held_by_def by (induction hs) auto
next
  case False
  then show ?thesis unfolding held_by_def by (induction hs) auto
qed

lemma map_of_swap_snoc:
  "a \<notin> snd ` set hs \<Longrightarrow> map_of (map prod.swap (hs @ [(t, a)])) = (map_of (map prod.swap hs))(a \<mapsto> t)"
  by (induction hs) (auto simp: fun_eq_iff)

lemma tracks_acquired:
  assumes tr: "tracks s hs" and a: "a \<noteq> 0" "a \<notin> snd ` set hs"
  shows "tracks (dd_OnLockAcquired naming t now a nm s) (hs @ [(t, a)])"
proof -
  have en: "dd_enabled s" using tr by (simp add: tracks_def)
  show ?thesis
    unfolding acquired_state [OF en a(1)] tracks_def
    using tr map_of_swap_snoc [OF a(2), of t] by (auto simp: tracks_def)
qed

lemma tracks_released:
  assumes tr: "tracks s hs" and ok: "held_ok hs" and h: "(t, a) \<in> set hs"
  shows "tracks (dd_OnLockReleased t a s) (filter (\<lambda>h. h \<noteq> (t, a)) hs)"
proof -
  have d: "distinct (map snd hs)" and en: "dd_enabled s" and a: "a \<noteq> 0"
    using ok tr h by (auto simp: held_ok_def tracks_def image_iff)
  have ne: "held_by hs t \<noteq> []" using h by (force simp: held_by_def filter_empty_conv)
  from ne have tl: "dd_threadLocks s t = Some (held_by hs t)" using tr by (simp add: tracks_def)
  show ?thesis
    using tr map_of_swap_filter [OF d h] held_by_filter [OF d h]
    by (auto simp: tracks_def dd_OnLockReleased_def Let_def en a tl ne)
qed

text \<open>
  C31. In a disciplined history, once enabled, the detector keeps exactly the locks that are held:
  each thread with its locks in the order in which it acquired them, and no entry for a thread
  without one; each held lock with its holder, and no entry for a free one.
\<close>

theorem detector_tracks_locks:
  assumes "held_run cs [] = Some hs"
  shows "tracks (dd_run naming cs (dd_Enable True detector_init)) hs"
proof -
  have "tracks (dd_run naming cs s) hs'" if "tracks s hs" "held_ok hs" "held_run cs hs = Some hs'" for s hs hs'
    using that
  proof (induction cs arbitrary: s hs)
    case (Cons c cs)
    then obtain hs1 where h: "held_step c hs = Some hs1" "held_run cs hs1 = Some hs'" by (auto split: option.splits)
    have "tracks (dd_step naming c s) hs1"
    proof (cases c)
      case (D_Acquired t now a nm)
      with h(1) Cons.prems show ?thesis by (auto intro: tracks_acquired split: if_splits)
    next
      case (D_Released t a)
      with h(1) Cons.prems show ?thesis by (auto intro: tracks_released split: if_splits)
    qed (use h(1) Cons.prems in \<open>auto simp: tracks_def dd_Enable_def dd_SetCallback_def split: if_splits\<close>)
    from Cons.IH [OF this held_step_ok [OF Cons.prems(2) h(1)] h(2)] show ?case by simp
  qed simp
  moreover have "tracks (dd_Enable True detector_init) []" "held_ok []"
    by (simp_all add: tracks_def dd_Enable_def detector_init_def held_ok_def)
  ultimately show ?thesis using assms by blast
qed

lemma detector_tracks_locks_witness:
  "tracks (dd_run (\<lambda>_. '''') [D_Acquired 1 5 100 None, D_Acquired 2 6 200 None, D_Acquired 1 7 300 None, D_Released 1 100]
     (dd_Enable True detector_init)) [(2, 200), (1, 300)]"
  by (rule detector_tracks_locks) simp

text \<open>A lock that a thread enters twice and leaves once is held, and the detector has forgotten it.\<close>

lemma detector_forgets_reentrant:
  "let s = dd_run naming [D_Acquired 1 5 100 None, D_Acquired 1 6 100 None, D_Released 1 100] (dd_Enable True detector_init)
   in dd_locks s 100 = None \<and> dd_threadLocks s 1 = None"
  by (simp add: Let_def acquired_state dd_OnLockReleased_def dd_Enable_def detector_init_def)

section \<open>The names of threads\<close>

text \<open>Decimal digits, as \<open>%lu\<close> prints them, and how to read them back.\<close>

fun decimal :: "nat \<Rightarrow> string" where
  "decimal n = (if n < 10 then [char_of (48 + n)] else decimal (n div 10) @ [char_of (48 + n mod 10)])"

declare decimal.simps [simp del]

definition read_decimal :: "string \<Rightarrow> nat" where
  "read_decimal s = fold (\<lambda>c n. 10 * n + (of_char c - 48)) s 0"

lemma read_decimal: "read_decimal (decimal n) = n"
proof (induction n rule: decimal.induct)
  case (1 n)
  show ?case
  proof (cases "n < 10")
    case True
    then show ?thesis by (subst decimal.simps) (simp add: read_decimal_def of_char_of)
  next
    case False
    have "of_char (char_of (48 + n mod 10) :: char) = (48 + n mod 10 :: nat)"
      by (simp add: of_char_of)
    with 1 [OF False] False show ?thesis by (subst decimal.simps) (simp add: read_decimal_def)
  qed
qed

lemma length_decimal: "n < 10 ^ k \<Longrightarrow> 0 < k \<Longrightarrow> length (decimal n) \<le> k"
proof (induction k arbitrary: n)
  case (Suc k)
  show ?case
  proof (cases "n < 10")
    case False
    then have "0 < k" using Suc.prems by (cases k) auto
    moreover have "n div 10 < 10 ^ k" using Suc.prems(1) by (simp add: less_mult_imp_div_less)
    ultimately show ?thesis using Suc.IH [of "n div 10"] False by (subst decimal.simps) simp
  qed (subst decimal.simps, simp)
qed simp

text \<open>
  The calls of the system, over a state \<open>'w\<close>: \<open>OpenThread\<close> with access rights, \<open>GetThreadDescription\<close>
  with its \<open>HRESULT\<close>, \<open>SetThreadDescription\<close>, \<open>CloseHandle\<close>, and the two conversions:
  \<open>WideCharToMultiByte\<close> into a buffer of some size with old contents, and \<open>MultiByteToWideChar\<close>, which
  gives the characters that it writes when the buffer has the stated number of them.
\<close>

type_synonym wide = "16 word list"

record 'w name_api =
  na_open :: "dword \<Rightarrow> dword \<Rightarrow> 'w \<Rightarrow> win_handle \<times> 'w"
  na_describe :: "win_handle \<Rightarrow> 'w \<Rightarrow> 32 word \<times> wide option"
  na_set :: "win_handle \<Rightarrow> wide \<Rightarrow> 'w \<Rightarrow> 'w"
  na_close :: "win_handle \<Rightarrow> 'w \<Rightarrow> 'w"
  na_narrow :: "wide \<Rightarrow> nat \<Rightarrow> string \<Rightarrow> string"
  na_widen :: "string \<Rightarrow> nat \<Rightarrow> wide"
  na_last_error :: "'w \<Rightarrow> dword"

definition THREAD_QUERY_INFORMATION :: dword where "THREAD_QUERY_INFORMATION = 0x40"
definition THREAD_QUERY_LIMITED_INFORMATION :: dword where "THREAD_QUERY_LIMITED_INFORMATION = 0x800"

definition fallback_name :: "dword \<Rightarrow> string" where
  "fallback_name threadId = take 255 (''Thread-'' @ decimal (unat threadId))"

text \<open>
  \<open>GetThreadName\<close> by the thread \<open>me\<close>: the contents of its buffer of 256 characters, to which the
  result points.
\<close>

definition GetThreadName :: "'w name_api \<Rightarrow> dword \<Rightarrow> 'w \<Rightarrow> string \<Rightarrow> string \<times> 'w" where
  "GetThreadName A threadId w buffer =
     (case na_open A THREAD_QUERY_LIMITED_INFORMATION threadId w of
        (hThread, w1) \<Rightarrow>
          if hThread = 0 \<or> hThread = INVALID_HANDLE_VALUE then (fallback_name threadId, w1)
          else (case na_describe A hThread w1 of
            (hr, description) \<Rightarrow>
              (let w2 = na_close A hThread w1 in
               (case description of
                  Some d \<Rightarrow> if 0 \<le> sint hr then na_narrow A d 256 buffer else fallback_name threadId
                | None \<Rightarrow> fallback_name threadId, w2))))"

text \<open>
  \<open>SetThreadName\<close> for a narrow name: the buffer has 128 wide characters, and its size in bytes is
  passed for their number. What is written past the buffer is undefined.
\<close>

datatype 'a defined = Defined 'a | Overflow

definition SetThreadName_narrow :: "'w name_api \<Rightarrow> dword \<Rightarrow> string \<Rightarrow> 'w \<Rightarrow> ('x, unit) result defined \<times> 'w" where
  "SetThreadName_narrow A threadId nm w =
     (case na_open A THREAD_QUERY_INFORMATION threadId w of
        (hThread, w1) \<Rightarrow>
          if hThread = 0 \<or> hThread = INVALID_HANDLE_VALUE
          then (Defined (Inl (Thread_Exn ''OpenThread Failed'' (na_last_error A w1))), w1)
          else (let written = na_widen A nm (2 * 128) in
            if 128 < length written then (Overflow, w1)
            else (Defined (Inr ()), na_close A hThread (na_set A hThread written w1))))"

text \<open>\<open>SetThreadName\<close> for a wide name.\<close>

definition SetThreadName_wide :: "'w name_api \<Rightarrow> dword \<Rightarrow> wide \<Rightarrow> 'w \<Rightarrow> ('x, unit) result \<times> 'w" where
  "SetThreadName_wide A threadId nm w =
     (case na_open A THREAD_QUERY_INFORMATION threadId w of
        (hThread, w1) \<Rightarrow>
          if hThread = 0 \<or> hThread = INVALID_HANDLE_VALUE
          then (Inl (Thread_Exn ''OpenThread Failed'' (na_last_error A w1)), w1)
          else (Inr (), na_close A hThread (na_set A hThread nm w1)))"

text \<open>
  When the system has no description for two threads, the names of different threads are
  different; each fits the buffer with nothing cut off, and the identifier can be read back
  from it.
\<close>

theorem fallback_names_distinct:
  "fallback_name i = ''Thread-'' @ decimal (unat i) \<and> length (fallback_name i) \<le> 17 \<and>
   read_decimal (drop 7 (fallback_name i)) = unat i \<and> inj fallback_name"
proof -
  have len: "length (decimal (unat i)) \<le> 10" for i :: dword
  proof (rule length_decimal)
    have "unat i < 2 ^ 32" using unsigned_less [of i, where ?'a = nat] by simp
    then show "unat i < 10 ^ 10" by simp
  qed simp
  have eq: "fallback_name i = ''Thread-'' @ decimal (unat i)" for i
    using len [of i] by (simp add: fallback_name_def)
  have "inj fallback_name"
  proof (rule injI)
    fix i j assume "fallback_name i = fallback_name j"
    then have "read_decimal (decimal (unat i)) = read_decimal (decimal (unat j))" by (simp add: eq)
    then show "i = j" by (simp add: read_decimal word_unat_eq_iff)
  qed
  then show ?thesis using len [of i] by (simp add: eq read_decimal)
qed

text \<open>A narrow name of 128 characters or more writes past the buffer, when each becomes one wide character.\<close>

lemma long_name_overflows:
  assumes "\<And>n k. length n < k \<Longrightarrow> length (na_widen A n k) = length n + 1"
    and "na_open A THREAD_QUERY_INFORMATION i w = (h, w')" and "h \<noteq> 0" "h \<noteq> INVALID_HANDLE_VALUE"
    and "128 \<le> length nm" "length nm < 256"
  shows "fst (SetThreadName_narrow A i nm w) = Overflow"
  using assms by (simp add: SetThreadName_narrow_def Let_def)

section \<open>Output\<close>

text \<open>
  \<open>vsnprintf_s\<close> and \<open>_vsnwprintf_s\<close> of the C library of the compiler, on a formatted message: it is written when it
  fits the buffer with its terminator and the limit, cut off when the limit is below the size of the buffer,
  and otherwise the handler for invalid parameters runs, which ends the program. \<open>DebugPrint\<close>
  passes 4096 for both, and hands the buffer to the debugger.
\<close>

datatype 'c printed = Printed "'c list" | Invalid_Parameter

definition vsnprintf_s :: "nat \<Rightarrow> nat \<Rightarrow> 'c list \<Rightarrow> 'c printed" where
  "vsnprintf_s buffer limit msg =
     (if length msg \<le> limit \<and> length msg < buffer then Printed msg
      else if limit < buffer then Printed (take limit msg)
      else Invalid_Parameter)"

definition DebugPrint_narrow :: "string \<Rightarrow> char printed" where
  "DebugPrint_narrow msg = vsnprintf_s 4096 4096 msg"

definition DebugPrint_wide :: "16 word list \<Rightarrow> 16 word printed" where
  "DebugPrint_wide msg = vsnprintf_s 4096 4096 msg"

text \<open>Messages of fewer than 4096 characters are printed as they are; a longer one ends the program instead of being cut off.\<close>

lemma DebugPrint_outcome:
  "DebugPrint_narrow msg = (if length msg < 4096 then Printed msg else Invalid_Parameter)"
  "DebugPrint_wide wide = (if length wide < 4096 then Printed wide else Invalid_Parameter)"
  by (simp_all add: DebugPrint_narrow_def DebugPrint_wide_def vsnprintf_s_def)

section \<open>The clocks\<close>

text \<open>Arithmetic on \<open>double\<close>, and the constants 1000 and 1 as members of it.\<close>

record 'd doubles =
  db_of_int :: "int \<Rightarrow> 'd"
  db_mul :: "'d \<Rightarrow> 'd \<Rightarrow> 'd"
  db_div :: "'d \<Rightarrow> 'd \<Rightarrow> 'd"

type_synonym large_integer = "64 word"

record perf_counter =
  pc_startTime :: large_integer
  pc_endTime :: large_integer
  pc_frequency :: large_integer
  pc_running :: bool

definition elapsed_ms :: "'d doubles \<Rightarrow> large_integer \<Rightarrow> large_integer \<Rightarrow> large_integer \<Rightarrow> 'd" where
  "elapsed_ms D start end freq =
     db_div D (db_mul D (db_of_int D (sint (end - start))) (db_of_int D 1000)) (db_of_int D (sint freq))"

definition pc_new :: "large_integer \<Rightarrow> perf_counter" where
  "pc_new freq = \<lparr>pc_startTime = 0, pc_endTime = 0, pc_frequency = freq, pc_running = False\<rparr>"

definition pc_Start :: "large_integer \<Rightarrow> perf_counter \<Rightarrow> perf_counter" where
  "pc_Start now c = c\<lparr>pc_startTime := now, pc_running := True\<rparr>"

definition pc_Stop :: "large_integer \<Rightarrow> perf_counter \<Rightarrow> perf_counter" where
  "pc_Stop now c = (if pc_running c then c\<lparr>pc_endTime := now, pc_running := False\<rparr> else c)"

definition pc_Reset :: "perf_counter \<Rightarrow> perf_counter" where
  "pc_Reset c = c\<lparr>pc_startTime := 0, pc_endTime := 0, pc_running := False\<rparr>"

definition pc_GetElapsedMilliseconds :: "'d doubles \<Rightarrow> large_integer \<Rightarrow> perf_counter \<Rightarrow> 'd" where
  "pc_GetElapsedMilliseconds D now c =
     (if pc_running c then elapsed_ms D (pc_startTime c) now (pc_frequency c)
      else elapsed_ms D (pc_startTime c) (pc_endTime c) (pc_frequency c))"

definition pc_GetElapsedSeconds :: "'d doubles \<Rightarrow> large_integer \<Rightarrow> perf_counter \<Rightarrow> 'd" where
  "pc_GetElapsedSeconds D now c = db_div D (pc_GetElapsedMilliseconds D now c) (db_of_int D 1000)"

definition pc_GetElapsedMicroseconds :: "'d doubles \<Rightarrow> large_integer \<Rightarrow> perf_counter \<Rightarrow> 'd" where
  "pc_GetElapsedMicroseconds D now c = db_mul D (pc_GetElapsedMilliseconds D now c) (db_of_int D 1000)"

definition pc_GetFrequency :: "'d doubles \<Rightarrow> large_integer \<Rightarrow> 'd" where
  "pc_GetFrequency D freq = db_of_int D (sint freq)"

text \<open>\<open>ScopedProfiler\<close>: the constructor, and the milliseconds that the destructor prints.\<close>

record profiler =
  sp_name :: string
  sp_startTime :: large_integer
  sp_frequency :: large_integer

definition sp_new :: "string \<Rightarrow> large_integer \<Rightarrow> large_integer \<Rightarrow> profiler" where
  "sp_new nm freq now = \<lparr>sp_name = nm, sp_startTime = now, sp_frequency = freq\<rparr>"

definition sp_destroy :: "'d doubles \<Rightarrow> large_integer \<Rightarrow> profiler \<Rightarrow> string \<times> 'd" where
  "sp_destroy D now p = (sp_name p, elapsed_ms D (sp_startTime p) now (sp_frequency p))"

text \<open>A stopped counter keeps the time of its first stop, as the profiler of the same scope measures it.\<close>

lemma counter_measures_interval:
  "pc_GetElapsedMilliseconds D now (fold pc_Stop bs (pc_Stop b (pc_Start a c))) =
   snd (sp_destroy D b (sp_new nm (pc_frequency c) a))"
proof -
  have "fold pc_Stop bs c' = c'" if "\<not> pc_running c'" for c'
    using that by (induction bs) (simp_all add: pc_Stop_def)
  then show ?thesis
    by (simp add: pc_Stop_def pc_Start_def pc_GetElapsedMilliseconds_def sp_destroy_def sp_new_def)
qed

end
