(* ===== verification/Pool.thy ===== *)
theory Pool
  imports Monitor "HOL-Library.Sublist"
begin

text \<open>
  Class \<open>ThreadPool\<close> of \<open>src/src/ezthread/pool.hpp\<close> and \<open>pool.cpp\<close>: the worker threads and
  any number of client threads, interleaved at every statement, with the two critical
  sections of a pool and its atomic members. A task is known by the number of its
  allocation; how \<open>ParallelFor\<close> splits an interval is in theory \<open>Parallel\<close>, what the function
  of a task does to its promise in \<open>Future_Promise\<close>.
\<close>

section \<open>The state of a pool\<close>

record pool_config =
  cfg_minThreads :: size_t
  cfg_maxThreads :: size_t
  cfg_threadTimeoutMs :: dword
  cfg_useWorkStealing :: bool

type_synonym task = nat

text \<open>
  The members, with a worker known by its index, and what the system keeps of the threads:
  those it has created that do not run yet, and those that have ended. \<open>pl_next\<close> is the
  supply of tasks.
\<close>

record pool =
  pl_config :: pool_config
  pl_taskQueue :: "task list"
  pl_workers :: "nat option list"
  pl_workerActive :: "bool list"
  pl_stopping :: bool
  pl_paused :: bool
  pl_pendingTasks :: size_t
  pl_idleWorkers :: size_t
  pl_created :: "nat set"
  pl_ended :: "nat set"
  pl_next :: task

text \<open>The default configuration; \<open>hw\<close> is \<open>std::thread::hardware_concurrency()\<close>.\<close>

definition pool_config_default :: "size_t \<Rightarrow> pool_config" where
  "pool_config_default hw = \<lparr>cfg_minThreads = 0, cfg_maxThreads = hw, cfg_threadTimeoutMs = 60000,
     cfg_useWorkStealing = True\<rparr>"

text \<open>The thread of a worker without a thread, or whose thread was joined, is not joinable.\<close>

definition create_worker :: "pool \<Rightarrow> pool" where
  "create_worker p =
     (let threadIndex = length (pl_workers p)
      in p\<lparr>pl_created := insert threadIndex (pl_created p), pl_workers := pl_workers p @ [Some threadIndex],
           pl_workerActive := pl_workerActive p @ [False]\<rparr>)"

definition pool_clamp :: "size_t \<Rightarrow> pool_config \<Rightarrow> pool_config" where
  "pool_clamp hw c =
     (let c' = if cfg_maxThreads c = 0 then c\<lparr>cfg_maxThreads := hw\<rparr> else c
      in if cfg_minThreads c' > cfg_maxThreads c' then c'\<lparr>cfg_minThreads := cfg_maxThreads c'\<rparr> else c')"

definition pool_new :: "size_t \<Rightarrow> pool_config \<Rightarrow> pool" where
  "pool_new hw c =
     (create_worker ^^ unat (cfg_minThreads (pool_clamp hw c)))
       \<lparr>pl_config = pool_clamp hw c, pl_taskQueue = [], pl_workers = [], pl_workerActive = [],
        pl_stopping = False, pl_paused = False, pl_pendingTasks = 0, pl_idleWorkers = 0,
        pl_created = {}, pl_ended = {}, pl_next = 0\<rparr>"

text \<open>\<open>CleanupIdleWorkers\<close>, which nothing calls; a worker without a thread is a null pointer.\<close>

fun cleanup_from :: "(nat \<Rightarrow> bool) \<Rightarrow> nat \<Rightarrow> nat \<Rightarrow> nat option list \<times> bool list \<Rightarrow> nat option list \<times> bool list" where
  "cleanup_from joinable 0 i wa = wa"
| "cleanup_from joinable (Suc n) i (ws, as) =
     cleanup_from joinable n (Suc i)
       (case ws ! i of
          Some w \<Rightarrow> if \<not> joinable w then (ws[i := None], as[i := False]) else (ws, as)
        | None \<Rightarrow> (ws, as))"

definition pool_CleanupIdleWorkers :: "(nat \<Rightarrow> bool) \<Rightarrow> pool \<Rightarrow> pool" where
  "pool_CleanupIdleWorkers joinable p =
     (let m = unat (cfg_minThreads (pl_config p));
          (ws, as) = cleanup_from joinable (length (pl_workers p) - m) m (pl_workers p, pl_workerActive p)
      in p\<lparr>pl_workers := ws, pl_workerActive := as\<rparr>)"

section \<open>The methods\<close>

datatype pool_mutex = Queue_Mutex | Workers_Mutex

text \<open>The program points of a worker with its index.\<close>

datatype worker_pc =
    W_Start
  | W_Loop
  | W_Pause_Test
  | W_Empty
  | W_Empty_Stop
  | W_Woken cv_result
  | W_Take
  | W_Take_Stop
  | W_Front
  | W_Pop task
  | W_Sub task
  | W_Unlock "task option"
  | W_Throw_Unlock
  | W_Thrown
  | W_Activate task
  | W_Set_Active task
  | W_Active_Unlock task
  | W_Execute task
  | W_Deactivate
  | W_Reset_Active
  | W_Reset_Unlock
  | W_Ended

text \<open>
  The program points of the clients: \<open>Submit\<close> and \<open>SubmitDetached\<close>, \<open>Pause\<close>, \<open>Resume\<close>, \<open>Stop\<close> (which the
  destructor calls with \<open>true\<close>), \<open>GetPendingTaskCount\<close>, \<open>GetThreadCount\<close>.
\<close>

datatype client_pc =
    C_Submit
  | C_Submit_Lock task
  | C_Push task
  | C_Count task
  | C_Submit_Unlock task
  | C_Submit_Notify task
  | C_Submitted task
  | C_Pause
  | C_Resume
  | C_Resume_Notify
  | C_Stop bool
  | C_Stop_Notify bool
  | C_Stop_Poll
  | C_Stop_Lock
  | C_Stop_Move
  | C_Stop_Unlock "nat option list"
  | C_Join "nat option list"
  | C_Clear_Test
  | C_Clear_Pop
  | C_Clear_Unlock
  | C_Stop_Zero
  | C_Stop_Again
  | C_Pending
  | C_Threads
  | C_Threads_Size
  | C_Threads_Unlock nat
  | C_Done
  | C_Got_Pending size_t
  | C_Got_Threads nat

datatype pool_pc = PW nat worker_pc | PC client_pc

fun pool_start :: "pool_pc \<Rightarrow> bool" where
  "pool_start (PW i W_Start) \<longleftrightarrow> True"
| "pool_start (PC C_Submit) \<longleftrightarrow> True"
| "pool_start (PC C_Pause) \<longleftrightarrow> True"
| "pool_start (PC C_Resume) \<longleftrightarrow> True"
| "pool_start (PC (C_Stop b)) \<longleftrightarrow> True"
| "pool_start (PC C_Pending) \<longleftrightarrow> True"
| "pool_start (PC C_Threads) \<longleftrightarrow> True"
| "pool_start _ \<longleftrightarrow> False"

text \<open>
  \<open>WorkerLoop\<close>. A thread of the system runs it for an index that was created and does not run
  yet. \<open>WaitFor\<close> may throw, which ends the thread and leaves the critical section.
\<close>

definition set_active :: "nat \<Rightarrow> bool \<Rightarrow> pool \<Rightarrow> pool" where
  "set_active i b p =
     (if i < length (pl_workerActive p) then p\<lparr>pl_workerActive := (pl_workerActive p)[i := b]\<rparr> else p)"

fun worker_prog :: "nat \<Rightarrow> worker_pc \<Rightarrow> pool \<Rightarrow> pool \<times> (pool_mutex, worker_pc) instr" where
  "worker_prog i W_Start p =
     (if i \<in> pl_created p then (p\<lparr>pl_created := pl_created p - {i}\<rparr>, I_Goto W_Loop)
      else (p, I_Goto W_Start))"
| "worker_prog i W_Loop p =
     (if \<not> pl_stopping p then (p, I_Goto W_Pause_Test)
      else (p\<lparr>pl_ended := insert i (pl_ended p)\<rparr>, I_Finish W_Ended))"
| "worker_prog i W_Pause_Test p =
     (p, if pl_paused p then I_Goto W_Loop else I_Enter Queue_Mutex W_Empty)"
| "worker_prog i W_Empty p = (p, if pl_taskQueue p = [] then I_Goto W_Empty_Stop else I_Goto W_Take)"
| "worker_prog i W_Empty_Stop p =
     (p, if \<not> pl_stopping p then I_Sleep Queue_Mutex 100 W_Woken else I_Goto W_Take)"
| "worker_prog i (W_Woken r) p =
     (p, case (cv_WaitFor r :: (unit, bool) result) of Inl e \<Rightarrow> I_Goto W_Throw_Unlock | Inr b \<Rightarrow> I_Goto W_Empty)"
| "worker_prog i W_Take p =
     (p, if pl_taskQueue p \<noteq> [] then I_Goto W_Take_Stop else I_Goto (W_Unlock None))"
| "worker_prog i W_Take_Stop p =
     (p, if \<not> pl_stopping p then I_Goto W_Front else I_Goto (W_Unlock None))"
| "worker_prog i W_Front p = (p, I_Goto (W_Pop (hd (pl_taskQueue p))))"
| "worker_prog i (W_Pop x) p = (p\<lparr>pl_taskQueue := tl (pl_taskQueue p)\<rparr>, I_Goto (W_Sub x))"
| "worker_prog i (W_Sub x) p = (p\<lparr>pl_pendingTasks := pl_pendingTasks p - 1\<rparr>, I_Goto (W_Unlock (Some x)))"
| "worker_prog i (W_Unlock tk) p =
     (p, I_Leave Queue_Mutex (case tk of None \<Rightarrow> W_Loop | Some x \<Rightarrow> W_Activate x))"
| "worker_prog i W_Throw_Unlock p = (p, I_Leave Queue_Mutex W_Thrown)"
| "worker_prog i W_Thrown p = (p\<lparr>pl_ended := insert i (pl_ended p)\<rparr>, I_Finish W_Ended)"
| "worker_prog i (W_Activate x) p = (p, I_Enter Workers_Mutex (W_Set_Active x))"
| "worker_prog i (W_Set_Active x) p = (set_active i True p, I_Goto (W_Active_Unlock x))"
| "worker_prog i (W_Active_Unlock x) p = (p, I_Leave Workers_Mutex (W_Execute x))"
| "worker_prog i (W_Execute x) p = (p, I_Goto W_Deactivate)"
| "worker_prog i W_Deactivate p = (p, I_Enter Workers_Mutex W_Reset_Active)"
| "worker_prog i W_Reset_Active p = (set_active i False p, I_Goto W_Reset_Unlock)"
| "worker_prog i W_Reset_Unlock p = (p, I_Leave Workers_Mutex W_Loop)"
| "worker_prog i W_Ended p = (p, I_Finish W_Ended)"

text \<open>The joins of \<open>Stop\<close>: the next worker that is left, once its thread has ended.\<close>

fun join_next :: "nat set \<Rightarrow> nat option list \<Rightarrow> nat option list" where
  "join_next ended [] = []"
| "join_next ended (None # ws) = ws"
| "join_next ended (Some w # ws) = (if w \<in> ended then ws else Some w # ws)"

text \<open>
  \<open>Submit\<close> and \<open>SubmitDetached\<close>: a new task is pushed and counted in the critical section of the queue,
  and a worker is notified after it.
\<close>

fun submit_prog :: "client_pc \<Rightarrow> pool \<Rightarrow> pool \<times> (pool_mutex, client_pc) instr" where
  "submit_prog C_Submit p = (p\<lparr>pl_next := Suc (pl_next p)\<rparr>, I_Goto (C_Submit_Lock (pl_next p)))"
| "submit_prog (C_Submit_Lock x) p = (p, I_Enter Queue_Mutex (C_Push x))"
| "submit_prog (C_Push x) p = (p\<lparr>pl_taskQueue := pl_taskQueue p @ [x]\<rparr>, I_Goto (C_Count x))"
| "submit_prog (C_Count x) p = (p\<lparr>pl_pendingTasks := pl_pendingTasks p + 1\<rparr>, I_Goto (C_Submit_Unlock x))"
| "submit_prog (C_Submit_Unlock x) p = (p, I_Leave Queue_Mutex (C_Submit_Notify x))"
| "submit_prog (C_Submit_Notify x) p = (p, I_Wake_One Queue_Mutex (C_Submitted x))"
| "submit_prog k p = (p, I_Finish k)"

text \<open>All methods of the clients; the points of \<open>Submit\<close> and \<open>SubmitDetached\<close> are those of \<open>submit_prog\<close>.\<close>

fun client_prog :: "client_pc \<Rightarrow> pool \<Rightarrow> pool \<times> (pool_mutex, client_pc) instr" where
  "client_prog C_Submit p = submit_prog C_Submit p"
| "client_prog (C_Submit_Lock x) p = submit_prog (C_Submit_Lock x) p"
| "client_prog (C_Push x) p = submit_prog (C_Push x) p"
| "client_prog (C_Count x) p = submit_prog (C_Count x) p"
| "client_prog (C_Submit_Unlock x) p = submit_prog (C_Submit_Unlock x) p"
| "client_prog (C_Submit_Notify x) p = submit_prog (C_Submit_Notify x) p"
| "client_prog (C_Submitted x) p = submit_prog (C_Submitted x) p"
| "client_prog C_Pause p = (p\<lparr>pl_paused := True\<rparr>, I_Finish C_Done)"
| "client_prog C_Resume p = (p\<lparr>pl_paused := False\<rparr>, I_Goto C_Resume_Notify)"
| "client_prog C_Resume_Notify p = (p, I_Wake_All Queue_Mutex C_Done)"
| "client_prog (C_Stop w) p =
     (p\<lparr>pl_stopping := True\<rparr>, if pl_stopping p then I_Goto C_Done else I_Goto (C_Stop_Notify w))"
| "client_prog (C_Stop_Notify w) p =
     (p, I_Wake_All Queue_Mutex (if w then C_Stop_Poll else C_Stop_Lock))"
| "client_prog C_Stop_Poll p = (p, if pl_pendingTasks p > 0 then I_Goto C_Stop_Poll else I_Goto C_Stop_Lock)"
| "client_prog C_Stop_Lock p = (p, I_Enter Workers_Mutex C_Stop_Move)"
| "client_prog C_Stop_Move p =
     (p\<lparr>pl_workers := [], pl_workerActive := []\<rparr>, I_Goto (C_Stop_Unlock (pl_workers p)))"
| "client_prog (C_Stop_Unlock ws) p = (p, I_Leave Workers_Mutex (C_Join ws))"
| "client_prog (C_Join ws) p =
     (p, if ws = [] then I_Enter Queue_Mutex C_Clear_Test else I_Goto (C_Join (join_next (pl_ended p) ws)))"
| "client_prog C_Clear_Test p =
     (p, if pl_taskQueue p \<noteq> [] then I_Goto C_Clear_Pop else I_Goto C_Clear_Unlock)"
| "client_prog C_Clear_Pop p = (p\<lparr>pl_taskQueue := tl (pl_taskQueue p)\<rparr>, I_Goto C_Clear_Test)"
| "client_prog C_Clear_Unlock p = (p, I_Leave Queue_Mutex C_Stop_Zero)"
| "client_prog C_Stop_Zero p = (p\<lparr>pl_pendingTasks := 0\<rparr>, I_Goto C_Stop_Again)"
| "client_prog C_Stop_Again p = (p\<lparr>pl_stopping := True\<rparr>, I_Goto C_Done)"
| "client_prog C_Pending p = (p, I_Goto (C_Got_Pending (pl_pendingTasks p)))"
| "client_prog C_Threads p = (p, I_Enter Workers_Mutex C_Threads_Size)"
| "client_prog C_Threads_Size p = (p, I_Goto (C_Threads_Unlock (length (pl_workers p))))"
| "client_prog (C_Threads_Unlock n) p = (p, I_Leave Workers_Mutex (C_Got_Threads n))"
| "client_prog C_Done p = (p, I_Finish C_Done)"
| "client_prog (C_Got_Pending n) p = (p, I_Finish (C_Got_Pending n))"
| "client_prog (C_Got_Threads n) p = (p, I_Finish (C_Got_Threads n))"

fun pool_prog :: "pool_pc \<Rightarrow> pool \<Rightarrow> pool \<times> (pool_mutex, pool_pc) instr" where
  "pool_prog (PW i k) p = apsnd (map_instr id (PW i)) (worker_prog i k p)"
| "pool_prog (PC k) p = apsnd (map_instr id PC) (client_prog k p)"

abbreviation pool_step ::
  "('c, 'v) win_sync \<Rightarrow> pool_pc mon_label \<Rightarrow>
   ('c, 'v, pool_mutex, pool_pc, pool) mon \<Rightarrow> ('c, 'v, pool_mutex, pool_pc, pool) mon option" where
  "pool_step api \<equiv> mon_step api pool_start pool_prog"

fun worker_holds :: "worker_pc \<Rightarrow> pool_mutex option" where
  "worker_holds W_Empty = Some Queue_Mutex"
| "worker_holds W_Empty_Stop = Some Queue_Mutex"
| "worker_holds (W_Woken r) = Some Queue_Mutex"
| "worker_holds W_Take = Some Queue_Mutex"
| "worker_holds W_Take_Stop = Some Queue_Mutex"
| "worker_holds W_Front = Some Queue_Mutex"
| "worker_holds (W_Pop x) = Some Queue_Mutex"
| "worker_holds (W_Sub x) = Some Queue_Mutex"
| "worker_holds (W_Unlock tk) = Some Queue_Mutex"
| "worker_holds W_Throw_Unlock = Some Queue_Mutex"
| "worker_holds (W_Set_Active x) = Some Workers_Mutex"
| "worker_holds (W_Active_Unlock x) = Some Workers_Mutex"
| "worker_holds W_Reset_Active = Some Workers_Mutex"
| "worker_holds W_Reset_Unlock = Some Workers_Mutex"
| "worker_holds _ = None"

fun client_holds :: "client_pc \<Rightarrow> pool_mutex option" where
  "client_holds (C_Push x) = Some Queue_Mutex"
| "client_holds (C_Count x) = Some Queue_Mutex"
| "client_holds (C_Submit_Unlock x) = Some Queue_Mutex"
| "client_holds C_Stop_Move = Some Workers_Mutex"
| "client_holds (C_Stop_Unlock ws) = Some Workers_Mutex"
| "client_holds C_Clear_Test = Some Queue_Mutex"
| "client_holds C_Clear_Pop = Some Queue_Mutex"
| "client_holds C_Clear_Unlock = Some Queue_Mutex"
| "client_holds C_Threads_Size = Some Workers_Mutex"
| "client_holds (C_Threads_Unlock n) = Some Workers_Mutex"
| "client_holds _ = None"

fun pool_holds :: "pool_pc \<Rightarrow> pool_mutex option" where
  "pool_holds (PW i k) = worker_holds k"
| "pool_holds (PC k) = client_holds k"

lemma pool_disciplined: "disciplined pool_holds k (snd (pool_prog k p))"
proof (cases k)
  case (PW i w)
  then show ?thesis by (cases w) (auto split: sum.splits option.splits)
next
  case (PC c)
  then show ?thesis by (cases c) auto
qed

lemma pool_start_free: "pool_start k \<Longrightarrow> pool_holds k = None"
  by (erule pool_start.elims) auto

section \<open>Histories and roles\<close>

definition history :: "('k \<Rightarrow> 'b option) \<Rightarrow> (tid \<times> 'k) list \<Rightarrow> 'b list" where
  "history f lg = List.map_filter (\<lambda>(t, k). f k) lg"

lemma history_simps [simp]:
  "history f [] = []" "history f (lg @ lg') = history f lg @ history f lg'"
  "history f ((t, k) # lg) = (case f k of None \<Rightarrow> [] | Some x \<Rightarrow> [x]) @ history f lg"
  by (auto simp: history_def map_filter_def split: option.splits)

lemma in_history: "x \<in> set (history f lg) \<longleftrightarrow> (\<exists>t k. (t, k) \<in> set lg \<and> f k = Some x)"
  by (force simp: history_def map_filter_def split: option.splits)

text \<open>
  The tasks in the order in which they were pushed, taken by workers and executed; whether
  \<open>Stop\<close> has discarded a task or reset the count.
\<close>

fun pushing_task :: "pool_pc \<Rightarrow> task option" where
  "pushing_task (PC (C_Push x)) = Some x"
| "pushing_task _ = None"

fun taking_task :: "pool_pc \<Rightarrow> task option" where
  "taking_task (PW i (W_Pop x)) = Some x"
| "taking_task _ = None"

fun executing_task :: "pool_pc \<Rightarrow> task option" where
  "executing_task (PW i (W_Execute x)) = Some x"
| "executing_task _ = None"

fun discarding :: "pool_pc \<Rightarrow> unit option" where
  "discarding (PC C_Clear_Pop) = Some ()"
| "discarding (PC C_Stop_Zero) = Some ()"
| "discarding _ = None"

abbreviation pushed :: "(tid \<times> pool_pc) list \<Rightarrow> task list" where "pushed \<equiv> history pushing_task"
abbreviation taken :: "(tid \<times> pool_pc) list \<Rightarrow> task list" where "taken \<equiv> history taking_task"
abbreviation executed :: "(tid \<times> pool_pc) list \<Rightarrow> task list" where "executed \<equiv> history executing_task"
abbreviation discarded :: "(tid \<times> pool_pc) list \<Rightarrow> bool" where "discarded lg \<equiv> history discarding lg \<noteq> []"

text \<open>The point a thread is at or goes on from, and what a thread claims there.\<close>

fun next_pc :: "('m, 'k) thread_pc \<Rightarrow> 'k option" where
  "next_pc (T_At k) = Some k"
| "next_pc (T_Entering m k) = Some k"
| "next_pc (T_Asleep m ms f) = Some (f Cv_True)"
| "next_pc _ = None"

definition role :: "('k \<Rightarrow> 'b option) \<Rightarrow> ('m, 'k) thread_pc \<Rightarrow> 'b option" where
  "role f pc = Option.bind (next_pc pc) f"

lemma role_simps [simp]:
  "role f T_Idle = None" "role f (T_At k) = f k" "role f (T_Entering m k) = f k"
  "role f (T_Asleep m ms g) = f (g Cv_True)" "role f (T_Ended k) = None"
  by (simp_all add: role_def)

text \<open>The task of a client that is not pushed yet, and of a worker that does not run yet.\<close>

fun offering :: "pool_pc \<Rightarrow> task option" where
  "offering (PC (C_Submit_Lock x)) = Some x"
| "offering (PC (C_Push x)) = Some x"
| "offering _ = None"

fun carrying :: "pool_pc \<Rightarrow> task option" where
  "carrying (PW i (W_Sub x)) = Some x"
| "carrying (PW i (W_Unlock tk)) = tk"
| "carrying (PW i (W_Activate x)) = Some x"
| "carrying (PW i (W_Set_Active x)) = Some x"
| "carrying (PW i (W_Active_Unlock x)) = Some x"
| "carrying (PW i (W_Execute x)) = Some x"
| "carrying _ = None"

text \<open>What a thread in the queue's critical section knows of the queue.\<close>

fun queue_known :: "pool \<Rightarrow> pool_pc \<Rightarrow> bool" where
  "queue_known p (PW i W_Take_Stop) \<longleftrightarrow> pl_taskQueue p \<noteq> []"
| "queue_known p (PW i W_Front) \<longleftrightarrow> pl_taskQueue p \<noteq> []"
| "queue_known p (PW i (W_Pop x)) \<longleftrightarrow> pl_taskQueue p \<noteq> [] \<and> hd (pl_taskQueue p) = x"
| "queue_known p (PC C_Clear_Pop) \<longleftrightarrow> pl_taskQueue p \<noteq> []"
| "queue_known p _ \<longleftrightarrow> True"

text \<open>What a thread will add to the number of pending tasks before it leaves.\<close>

fun uncounted :: "pool_pc \<Rightarrow> size_t" where
  "uncounted (PC (C_Count x)) = 1"
| "uncounted (PW i (W_Sub x)) = - 1"
| "uncounted _ = 0"

fun pool_thread :: "pool \<Rightarrow> (pool_mutex, pool_pc) thread_pc \<Rightarrow> bool" where
  "pool_thread p (T_At k) \<longleftrightarrow> queue_known p k"
| "pool_thread p (T_Entering m k) \<longleftrightarrow> (\<forall>p'. queue_known p' k) \<and> uncounted k = 0"
| "pool_thread p (T_Asleep m ms f) \<longleftrightarrow> (\<exists>i. f = (\<lambda>r. PW i (W_Woken r)))"
| "pool_thread p _ \<longleftrightarrow> True"

lemma queue_known_outside:
  "pool_holds k \<noteq> Some Queue_Mutex \<Longrightarrow> queue_known p k"
  by (cases "(p, k)" rule: queue_known.cases) simp_all

lemma pool_thread_other:
  assumes "pool_thread p pc" and "pl_taskQueue p' = pl_taskQueue p \<or> \<not> inside pool_holds Queue_Mutex pc"
  shows "pool_thread p' pc"
proof (cases pc)
  case (T_At k)
  have "queue_known p' k = queue_known p k" if "pl_taskQueue p' = pl_taskQueue p"
    using that by (cases "(p, k)" rule: queue_known.cases) simp_all
  with T_At assms queue_known_outside [of k p'] show ?thesis by auto
qed (use assms in auto)

lemma pool_threads_upd:
  assumes "\<forall>u. pool_thread p (pcs u)" and "pool_thread p' pc"
    and "pl_taskQueue p' = pl_taskQueue p \<or> (\<forall>u. u \<noteq> t \<longrightarrow> \<not> inside pool_holds Queue_Mutex (pcs u))"
  shows "\<forall>u. pool_thread p' ((pcs(t := pc)) u)"
  using assms pool_thread_other by (simp split: if_splits) blast

text \<open>Every step keeps what the threads know; only four points change the queue.\<close>

lemma pool_run_thread:
  assumes "pool_thread p (T_At k)" and "pool_prog k p = (p', i)"
  shows "pool_thread p' (pc_after i)"
proof (cases k)
  case (PW j w)
  then show ?thesis using assms
    by (cases w) (auto simp: fun_eq_iff split: if_splits sum.splits option.splits)
next
  case (PC c)
  then show ?thesis using assms by (cases c) (auto split: if_splits)
qed

lemma pool_run_queue:
  assumes "pool_prog k p = (p', i)"
  shows "pl_taskQueue p' = (case k of
      PW j (W_Pop x) \<Rightarrow> tl (pl_taskQueue p)
    | PC (C_Push x) \<Rightarrow> pl_taskQueue p @ [x]
    | PC C_Clear_Pop \<Rightarrow> tl (pl_taskQueue p)
    | _ \<Rightarrow> pl_taskQueue p)"
proof (cases k)
  case (PW j w)
  then show ?thesis using assms by (cases w) (auto simp: set_active_def split: if_splits)
next
  case (PC c)
  then show ?thesis using assms by (cases c) (auto split: if_splits)
qed

lemma pool_run_threads:
  assumes "\<forall>u. pool_thread p (pcs u)" and "pcs t = T_At k"
    and "\<And>m u. pool_holds k = Some m \<Longrightarrow> u \<noteq> t \<Longrightarrow> \<not> inside pool_holds m (pcs u)"
    and "pool_prog k p = (p', i)"
  shows "\<forall>u. pool_thread p' ((pcs(t := pc_after i)) u)"
proof (rule pool_threads_upd [OF assms(1)])
  have "pool_thread p (T_At k)" using assms(1,2) by metis
  then show "pool_thread p' (pc_after i)" using assms(4) by (rule pool_run_thread)
  have "pl_taskQueue p' = pl_taskQueue p \<or> pool_holds k = Some Queue_Mutex"
    unfolding pool_run_queue [OF assms(4)]
    by (auto split: pool_pc.splits worker_pc.splits client_pc.splits)
  then show "pl_taskQueue p' = pl_taskQueue p \<or> (\<forall>u. u \<noteq> t \<longrightarrow> \<not> inside pool_holds Queue_Mutex (pcs u))"
    using assms(3) by blast
qed

section \<open>Every task once, in order\<close>

definition tasks_J ::
  "pool \<Rightarrow> (tid \<Rightarrow> (pool_mutex, pool_pc) thread_pc) \<Rightarrow> (tid \<times> pool_pc) list \<Rightarrow>
   (pool_mutex \<Rightarrow> tid \<Rightarrow> bool) \<Rightarrow> bool" where
  "tasks_J p pcs lg A \<longleftrightarrow>
     (\<forall>t. pool_thread p (pcs t)) \<and>
     distinct (pushed lg) \<and> (\<forall>x\<in>set (pushed lg). x < pl_next p) \<and>
     claims_unique (role offering) pcs \<and>
     (\<forall>x\<in>claims (role offering) pcs. x < pl_next p \<and> x \<notin> set (pushed lg)) \<and>
     (\<exists>gone. pushed lg = gone @ pl_taskQueue p \<and> subseq (taken lg) gone \<and>
        (\<not> discarded lg \<longrightarrow> taken lg = gone)) \<and>
     distinct (executed lg) \<and> claims_unique (role carrying) pcs \<and>
     set (taken lg) = set (executed lg) \<union> claims (role carrying) pcs \<and>
     set (executed lg) \<inter> claims (role carrying) pcs = {}"

text \<open>A step that moves no task.\<close>

lemma tasks_J_still:
  assumes "tasks_J p pcs lg A" and "\<forall>u. pool_thread p' ((pcs(t := pc)) u)"
    and "pl_taskQueue p' = pl_taskQueue p" and "pl_next p' = pl_next p"
    and "role offering pc = role offering (pcs t)" and "role carrying pc = role carrying (pcs t)"
    and "lg' = lg \<or> (\<exists>k. lg' = lg @ [(t, k)] \<and> pushing_task k = None \<and> taking_task k = None \<and>
      executing_task k = None)"
  shows "tasks_J p' (pcs(t := pc)) lg' A'"
proof -
  have "pushed lg' = pushed lg" "taken lg' = taken lg" "executed lg' = executed lg"
    "discarded lg \<longrightarrow> discarded lg'"
    using assms(7) by auto
  with assms show ?thesis unfolding tasks_J_def by (simp add: claims_same; blast)
qed

text \<open>The five points that do.\<close>

lemma tasks_J_alloc:
  assumes J: "tasks_J p pcs lg A" and pc: "pcs t = T_At (PC C_Submit)"
    and th: "\<forall>u. pool_thread p' ((pcs(t := T_At (PC (C_Submit_Lock (pl_next p))))) u)"
    and p': "p' = p\<lparr>pl_next := Suc (pl_next p)\<rparr>"
  shows "tasks_J p' (pcs(t := T_At (PC (C_Submit_Lock (pl_next p))))) (lg @ [(t, PC C_Submit)]) A'"
proof -
  let ?pc = "T_At (PC (C_Submit_Lock (pl_next p)))"
  have fresh: "pl_next p \<notin> claims (role offering) pcs" "pl_next p \<notin> set (pushed lg)"
    using J unfolding tasks_J_def by blast+
  have "claims (role offering) (pcs(t := ?pc)) = insert (pl_next p) (claims (role offering) pcs)"
    by (rule claims_add) (simp_all add: pc)
  moreover have "claims_unique (role offering) (pcs(t := ?pc))"
    using J fresh by (intro claims_unique_add) (auto simp: tasks_J_def)
  ultimately show ?thesis
    using J th fresh p' pc unfolding tasks_J_def by (auto simp: claims_same less_Suc_eq)
qed

lemma tasks_J_push:
  assumes J: "tasks_J p pcs lg A" and pc: "pcs t = T_At (PC (C_Push x))"
    and th: "\<forall>u. pool_thread p' ((pcs(t := T_At (PC (C_Count x)))) u)"
    and p': "p' = p\<lparr>pl_taskQueue := pl_taskQueue p @ [x]\<rparr>"
  shows "tasks_J p' (pcs(t := T_At (PC (C_Count x)))) (lg @ [(t, PC (C_Push x))]) A'"
proof -
  let ?pc = "T_At (PC (C_Count x)) :: (pool_mutex, pool_pc) thread_pc"
  have x: "x \<in> claims (role offering) pcs" by (rule claimsI [of _ pcs t]) (simp add: pc)
  have rm: "claims (role offering) (pcs(t := ?pc)) = claims (role offering) pcs - {x}"
    "claims_unique (role offering) (pcs(t := ?pc))"
    using J by (intro claims_remove; simp add: tasks_J_def pc)+
  obtain gone where "pushed lg = gone @ pl_taskQueue p" "subseq (taken lg) gone"
    "\<not> discarded lg \<longrightarrow> taken lg = gone"
    using J unfolding tasks_J_def by blast
  then have "\<exists>gone. pushed lg @ [x] = gone @ pl_taskQueue p @ [x] \<and> subseq (taken lg) gone \<and>
      (\<not> discarded lg \<longrightarrow> taken lg = gone)" by auto
  with J th x rm p' pc show ?thesis unfolding tasks_J_def by (simp add: claims_same; blast)
qed

lemma tasks_J_take:
  assumes J: "tasks_J p pcs lg A" and pc: "pcs t = T_At (PW i (W_Pop x))"
    and th: "\<forall>u. pool_thread p' ((pcs(t := T_At (PW i (W_Sub x)))) u)"
    and p': "p' = p\<lparr>pl_taskQueue := tl (pl_taskQueue p)\<rparr>"
  shows "tasks_J p' (pcs(t := T_At (PW i (W_Sub x)))) (lg @ [(t, PW i (W_Pop x))]) A'"
proof -
  let ?pc = "T_At (PW i (W_Sub x)) :: (pool_mutex, pool_pc) thread_pc"
  have "pool_thread p (pcs t)" using J by (simp add: tasks_J_def)
  with pc have hd: "pl_taskQueue p = x # tl (pl_taskQueue p)" by auto
  obtain gone where gone: "pushed lg = gone @ pl_taskQueue p" "subseq (taken lg) gone"
    "\<not> discarded lg \<longrightarrow> taken lg = gone"
    using J unfolding tasks_J_def by blast
  have "distinct (pushed lg)" using J by (simp add: tasks_J_def)
  with gone(1) hd have "x \<notin> set gone" by (metis disjoint_insert(1) distinct_append list.simps(15))
  moreover have sub: "set (taken lg) \<subseteq> set gone" using gone(2) subseq_order.trans by (metis subsetI subseq_singleton_left)
  ultimately have new: "x \<notin> set (executed lg)" "x \<notin> claims (role carrying) pcs"
    using J unfolding tasks_J_def by blast+
  have add: "claims (role carrying) (pcs(t := ?pc)) = insert x (claims (role carrying) pcs)"
    "claims_unique (role carrying) (pcs(t := ?pc))"
    using J new pc by (auto simp: tasks_J_def intro!: claims_add claims_unique_add)
  have "\<exists>gone'. pushed lg = gone' @ tl (pl_taskQueue p) \<and> subseq (taken lg @ [x]) gone' \<and>
      (\<not> discarded lg \<longrightarrow> taken lg @ [x] = gone')"
    by (rule exI [of _ "gone @ [x]"]) (use gone hd in \<open>auto simp: list_emb_append_mono\<close>)
  with J th p' pc add new show ?thesis unfolding tasks_J_def by (simp add: claims_same; blast)
qed

lemma tasks_J_execute:
  assumes J: "tasks_J p pcs lg A" and pc: "pcs t = T_At (PW i (W_Execute x))"
    and th: "\<forall>u. pool_thread p ((pcs(t := T_At (PW i W_Deactivate))) u)"
  shows "tasks_J p (pcs(t := T_At (PW i W_Deactivate))) (lg @ [(t, PW i (W_Execute x))]) A'"
proof -
  let ?pc = "T_At (PW i W_Deactivate) :: (pool_mutex, pool_pc) thread_pc"
  have x: "x \<in> claims (role carrying) pcs" by (rule claimsI [of _ pcs t]) (simp add: pc)
  have rm: "claims (role carrying) (pcs(t := ?pc)) = claims (role carrying) pcs - {x}"
    "claims_unique (role carrying) (pcs(t := ?pc))"
    using J by (intro claims_remove; simp add: tasks_J_def pc)+
  with J th x pc show ?thesis unfolding tasks_J_def by (simp add: claims_same; blast)
qed

lemma tasks_J_discard:
  assumes J: "tasks_J p pcs lg A" and pc: "pcs t = T_At (PC C_Clear_Pop)"
    and th: "\<forall>u. pool_thread p' ((pcs(t := T_At (PC C_Clear_Test))) u)"
    and p': "p' = p\<lparr>pl_taskQueue := tl (pl_taskQueue p)\<rparr>"
  shows "tasks_J p' (pcs(t := T_At (PC C_Clear_Test))) (lg @ [(t, PC C_Clear_Pop)]) A'"
proof -
  have "pool_thread p (pcs t)" using J by (simp add: tasks_J_def)
  with pc have hd: "pl_taskQueue p = hd (pl_taskQueue p) # tl (pl_taskQueue p)" by auto
  obtain gone where gone: "pushed lg = gone @ pl_taskQueue p" "subseq (taken lg) gone"
    using J unfolding tasks_J_def by blast
  have "\<exists>gone'. pushed lg = gone' @ tl (pl_taskQueue p) \<and> subseq (taken lg) gone'"
    by (rule exI [of _ "gone @ [hd (pl_taskQueue p)]"]) (use gone hd in auto)
  with J th p' pc show ?thesis unfolding tasks_J_def by (simp add: claims_same)
qed

lemma pool_run_next:
  "pool_prog k p = (p', i) \<Longrightarrow> k \<noteq> PC C_Submit \<Longrightarrow> pl_next p' = pl_next p"
proof (cases k)
  case (PW j w)
  then show "pool_prog k p = (p', i) \<Longrightarrow> pl_next p' = pl_next p"
    by (cases w) (auto simp: set_active_def split: if_splits)
next
  case (PC c)
  then show "pool_prog k p = (p', i) \<Longrightarrow> k \<noteq> PC C_Submit \<Longrightarrow> pl_next p' = pl_next p"
    by (cases c) (auto split: if_splits)
qed

text \<open>At every other point a thread goes on with what it had.\<close>

lemma pool_run_roles:
  assumes "pool_prog k p = (p', i)" and "pushing_task k = None" and "taking_task k = None"
    and "executing_task k = None" and "k \<noteq> PC C_Submit"
  shows "role offering (pc_after i) = role offering (T_At k)" and "role carrying (pc_after i) = role carrying (T_At k)"
proof -
  have "role offering (pc_after i) = role offering (T_At k) \<and> role carrying (pc_after i) = role carrying (T_At k)"
  proof (cases k)
    case (PW j w)
    then show ?thesis using assms by (cases w) (auto split: if_splits sum.splits option.splits)
  next
    case (PC c)
    then show ?thesis using assms by (cases c) (auto split: if_splits)
  qed
  then show "role offering (pc_after i) = role offering (T_At k)" "role carrying (pc_after i) = role carrying (T_At k)"
    by simp_all
qed

lemma tasks_J_run:
  assumes J: "tasks_J p pcs lg A" and pc: "pcs t = T_At k"
    and alone: "\<And>m u. pool_holds k = Some m \<Longrightarrow> u \<noteq> t \<Longrightarrow> \<not> inside pool_holds m (pcs u)"
    and step: "pool_prog k p = (p', i)"
  shows "tasks_J p' (pcs(t := pc_after i)) (lg @ [(t, k)]) A'"
proof -
  have th: "\<forall>u. pool_thread p' ((pcs(t := pc_after i)) u)"
    by (rule pool_run_threads [where pcs = pcs, OF _ pc alone step]) (use J in \<open>auto simp: tasks_J_def\<close>)
  consider "k = PC C_Submit" | x where "k = PC (C_Push x)" | j x where "k = PW j (W_Pop x)"
    | j x where "k = PW j (W_Execute x)" | "k = PC C_Clear_Pop"
    | "pushing_task k = None" "taking_task k = None" "executing_task k = None" "k \<noteq> PC C_Submit"
      "k \<noteq> PC C_Clear_Pop"
    by (cases "pushing_task k"; cases "taking_task k"; cases "executing_task k")
      (auto elim: pushing_task.elims taking_task.elims executing_task.elims)
  then show ?thesis
  proof cases
    case 1
    from 1 step have *: "p' = p\<lparr>pl_next := Suc (pl_next p)\<rparr>" "i = I_Goto (PC (C_Submit_Lock (pl_next p)))" by auto
    show ?thesis
      using th pc unfolding * 1 pc_after.simps by (intro tasks_J_alloc [OF J]) simp_all
  next
    case 2
    from 2 step have *: "p' = p\<lparr>pl_taskQueue := pl_taskQueue p @ [x]\<rparr>" "i = I_Goto (PC (C_Count x))" by auto
    show ?thesis
      using th pc unfolding * 2 pc_after.simps by (intro tasks_J_push [OF J]) simp_all
  next
    case 3
    from 3 step have *: "p' = p\<lparr>pl_taskQueue := tl (pl_taskQueue p)\<rparr>" "i = I_Goto (PW j (W_Sub x))" by auto
    show ?thesis
      using th pc unfolding * 3 pc_after.simps by (intro tasks_J_take [OF J]) simp_all
  next
    case 4
    from 4 step have *: "p' = p" "i = I_Goto (PW j W_Deactivate)" by auto
    show ?thesis
      using th pc unfolding * 4 pc_after.simps by (intro tasks_J_execute [OF J]) simp_all
  next
    case 5
    from 5 step have *: "p' = p\<lparr>pl_taskQueue := tl (pl_taskQueue p)\<rparr>" "i = I_Goto (PC C_Clear_Test)" by auto
    show ?thesis
      using th pc unfolding * 5 pc_after.simps by (intro tasks_J_discard [OF J]) simp_all
  next
    case 6
    have "pl_taskQueue p' = pl_taskQueue p"
      using pool_run_queue [OF step] 6
      by (auto split: pool_pc.splits worker_pc.splits client_pc.splits)
    then show ?thesis
      by (intro tasks_J_still [OF J th]) (use 6 pool_run_next [OF step] pool_run_roles [OF step] pc in auto)
  qed
qed

lemma create_workers_simps [simp]:
  "pl_taskQueue ((create_worker ^^ n) p) = pl_taskQueue p"
  "pl_pendingTasks ((create_worker ^^ n) p) = pl_pendingTasks p"
  "pl_stopping ((create_worker ^^ n) p) = pl_stopping p"
  "pl_ended ((create_worker ^^ n) p) = pl_ended p"
  "length (pl_workers ((create_worker ^^ n) p)) = n + length (pl_workers p)"
  by (induction n) (simp_all add: create_worker_def Let_def)

lemma pool_thread_moves:
  assumes "\<forall>u. pool_thread p (pcs u)"
  shows "pcs t = T_Entering m k \<Longrightarrow> \<forall>u. pool_thread p ((pcs(t := T_At k)) u)"
    and "pcs t = T_Asleep m ms f \<Longrightarrow> \<forall>u. pool_thread p ((pcs(t := T_Entering m (f r))) u)"
    and "pool_start k \<Longrightarrow> \<forall>u. pool_thread p ((pcs(t := T_At k)) u)"
proof -
  have t: "pool_thread p (pcs t)" using assms by blast
  show "pcs t = T_Entering m k \<Longrightarrow> \<forall>u. pool_thread p ((pcs(t := T_At k)) u)"
    using assms t by auto
  show "pcs t = T_Asleep m ms f \<Longrightarrow> \<forall>u. pool_thread p ((pcs(t := T_Entering m (f r))) u)"
    using assms t by auto
  show "pool_start k \<Longrightarrow> \<forall>u. pool_thread p ((pcs(t := T_At k)) u)"
    using assms by (auto elim!: pool_start.elims)
qed

text \<open>
  A thread that is asleep goes on as a worker that has woken, so that no role depends on how
  the sleep ends.
\<close>

lemma pool_woken_role:
  assumes "\<forall>u. pool_thread p (pcs u)" and "pcs t = T_Asleep m ms f"
  obtains i where "f = (\<lambda>r. PW i (W_Woken r))"
proof -
  have "pool_thread p (pcs t)" using assms(1) by blast
  with assms(2) that show thesis by auto
qed

lemma pool_start_roles: "pool_start k \<Longrightarrow> offering k = None \<and> carrying k = None"
  by (erule pool_start.elims) auto

interpretation pool_tasks: thread_program pool_start pool_prog pool_holds any_return "pool_new hw c" tasks_J
  for hw :: size_t and c :: pool_config
proof unfold_locales
  show "tasks_J (pool_new hw c) (\<lambda>_. T_Idle) [] (\<lambda>_ _. False)"
    by (simp add: tasks_J_def pool_new_def claims_none)
next
  fix d pcs lg A t k' k
  assume J: "tasks_J d pcs lg A" and "pcs t = T_Idle \<or> pcs t = T_Ended k'" and k: "pool_start k"
  then show "tasks_J d (pcs(t := T_At k)) lg A"
    using pool_thread_moves(3) [of d pcs k t] pool_start_roles [OF k]
    by (intro tasks_J_still [OF J]) (auto simp: tasks_J_def)
next
  fix d pcs lg A t m k
  assume J: "tasks_J d pcs lg A" and "pcs t = T_Entering m k"
  then show "tasks_J d (pcs(t := T_At k)) lg A"
    using pool_thread_moves(1) [of d pcs t m k]
    by (intro tasks_J_still [OF J]) (auto simp: tasks_J_def)
next
  fix d pcs lg A t m ms f r
  assume J: "tasks_J d pcs lg A" and pc: "pcs t = T_Asleep m ms f"
  obtain i where "f = (\<lambda>r. PW i (W_Woken r))"
    using J pool_woken_role [where pcs = pcs, OF _ pc] by (auto simp: tasks_J_def)
  with J pc show "tasks_J d (pcs(t := T_Entering m (f r))) lg (A(m := (A m)(t := False)))"
    using pool_thread_moves(2) [of d pcs t m ms f r]
    by (intro tasks_J_still [OF J]) (auto simp: tasks_J_def)
qed (auto intro: pool_disciplined pool_start_free tasks_J_run)

section \<open>The number of pending tasks\<close>

text \<open>
  Until \<open>Stop\<close> discards tasks or resets the count, the count is the length of the queue, up to
  the one push or pop of the thread in the critical section.
\<close>

definition balanced :: "pool \<Rightarrow> (tid \<Rightarrow> (pool_mutex, pool_pc) thread_pc) \<Rightarrow> bool" where
  "balanced p pcs \<longleftrightarrow>
     (\<forall>t k. pcs t = T_At k \<longrightarrow> pool_holds k = Some Queue_Mutex \<longrightarrow>
        pl_pendingTasks p + uncounted k = word_of_nat (length (pl_taskQueue p))) \<and>
     ((\<forall>t. \<not> inside pool_holds Queue_Mutex (pcs t)) \<longrightarrow>
        pl_pendingTasks p = word_of_nat (length (pl_taskQueue p)))"

definition count_J ::
  "pool \<Rightarrow> (tid \<Rightarrow> (pool_mutex, pool_pc) thread_pc) \<Rightarrow> (tid \<times> pool_pc) list \<Rightarrow>
   (pool_mutex \<Rightarrow> tid \<Rightarrow> bool) \<Rightarrow> bool" where
  "count_J p pcs lg A \<longleftrightarrow>
     (\<forall>t. pool_thread p (pcs t)) \<and> (\<not> discarded lg \<longrightarrow> balanced p pcs)"

lemma balancedD:
  assumes "balanced p pcs"
  shows "pcs t = T_At k \<Longrightarrow> pool_holds k = Some Queue_Mutex \<Longrightarrow>
      pl_pendingTasks p + uncounted k = word_of_nat (length (pl_taskQueue p))"
    and "(\<And>t. \<not> inside pool_holds Queue_Mutex (pcs t)) \<Longrightarrow>
      pl_pendingTasks p = word_of_nat (length (pl_taskQueue p))"
  using assms unfolding balanced_def by blast+

lemma balanced_outside:
  assumes "balanced p pcs" and "\<not> inside pool_holds Queue_Mutex (pcs t)"
    and "\<not> inside pool_holds Queue_Mutex pc"
    and "pl_pendingTasks p' = pl_pendingTasks p" and "pl_taskQueue p' = pl_taskQueue p"
  shows "balanced p' (pcs(t := pc))"
proof -
  have same: "inside pool_holds Queue_Mutex ((pcs(t := pc)) u) \<longleftrightarrow> inside pool_holds Queue_Mutex (pcs u)" for u
    using assms(2,3) by simp
  have at: "pcs u = T_At k" if "(pcs(t := pc)) u = T_At k" "pool_holds k = Some Queue_Mutex" for u k
    using assms(3) that by (cases "u = t") auto
  show ?thesis
    unfolding balanced_def same assms(4,5)
  proof (intro conjI allI impI)
    fix u k
    assume "(pcs(t := pc)) u = T_At k" "pool_holds k = Some Queue_Mutex"
    then show "pl_pendingTasks p + uncounted k = word_of_nat (length (pl_taskQueue p))"
      using at by (intro balancedD(1) [OF assms(1)])
  next
    assume "\<forall>u. \<not> inside pool_holds Queue_Mutex (pcs u)"
    then show "pl_pendingTasks p = word_of_nat (length (pl_taskQueue p))"
      by (intro balancedD(2) [OF assms(1)]) blast
  qed
qed

lemma balanced_inside:
  assumes "\<And>u. u \<noteq> t \<Longrightarrow> \<not> inside pool_holds Queue_Mutex (pcs u)"
    and "case pc of
        T_At k \<Rightarrow> pl_pendingTasks p' + (if pool_holds k = Some Queue_Mutex then uncounted k else 0) =
          word_of_nat (length (pl_taskQueue p'))
      | _ \<Rightarrow> pl_pendingTasks p' = word_of_nat (length (pl_taskQueue p'))"
  shows "balanced p' (pcs(t := pc))"
proof -
  have other: "(pcs(t := pc)) u = T_At k \<Longrightarrow> pool_holds k = Some Queue_Mutex \<Longrightarrow> u = t" for u k
    using assms(1) [of u] by (cases "u = t") auto
  show ?thesis
    unfolding balanced_def
  proof (intro conjI allI impI)
    fix u k
    assume u: "(pcs(t := pc)) u = T_At k" "pool_holds k = Some Queue_Mutex"
    from other [OF u] u(1) have "pc = T_At k" by simp
    with assms(2) u(2) show "pl_pendingTasks p' + uncounted k = word_of_nat (length (pl_taskQueue p'))" by simp
  next
    assume "\<forall>u. \<not> inside pool_holds Queue_Mutex ((pcs(t := pc)) u)"
    then have "\<not> inside pool_holds Queue_Mutex pc" by (metis fun_upd_same)
    with assms(2) show "pl_pendingTasks p' = word_of_nat (length (pl_taskQueue p'))"
      by (cases pc) auto
  qed
qed

text \<open>The statements inside the critical section keep the sum, the others keep its terms.\<close>

lemma pool_run_outside:
  assumes "pool_prog k p = (p', i)" and "pool_holds k \<noteq> Some Queue_Mutex" and "k \<noteq> PC C_Stop_Zero"
  shows "pl_pendingTasks p' = pl_pendingTasks p \<and> pl_taskQueue p' = pl_taskQueue p \<and>
    \<not> inside pool_holds Queue_Mutex (pc_after i)"
proof (cases k)
  case (PW j w)
  then show ?thesis using assms by (cases w) (auto simp: set_active_def split: if_splits)
next
  case (PC c)
  then show ?thesis using assms by (cases c) (auto split: if_splits)
qed

lemma pool_run_inside:
  assumes "pool_prog k p = (p', i)" and "pool_holds k = Some Queue_Mutex" and "queue_known p k"
    and "pl_pendingTasks p + uncounted k = word_of_nat (length (pl_taskQueue p))" and "k \<noteq> PC C_Clear_Pop"
  shows "case pc_after i of
      T_At k' \<Rightarrow> pl_pendingTasks p' + (if pool_holds k' = Some Queue_Mutex then uncounted k' else 0) =
        word_of_nat (length (pl_taskQueue p'))
    | _ \<Rightarrow> pl_pendingTasks p' = word_of_nat (length (pl_taskQueue p'))"
proof (cases k)
  case (PW j w)
  have "word_of_nat (length (pl_taskQueue p)) = (word_of_nat (length (tl (pl_taskQueue p))) + 1 :: size_t)"
    if "pl_taskQueue p \<noteq> []"
    using that by (cases "pl_taskQueue p") auto
  with PW assms show ?thesis
    by (cases w) (auto simp: eq_diff_eq split: if_splits sum.splits option.splits)
next
  case (PC c)
  then show ?thesis using assms by (cases c) (auto simp: diff_eq_eq split: if_splits)
qed

lemma count_J_run:
  assumes J: "count_J p pcs lg A" and pc: "pcs t = T_At k"
    and alone: "\<And>m u. pool_holds k = Some m \<Longrightarrow> u \<noteq> t \<Longrightarrow> \<not> inside pool_holds m (pcs u)"
    and step: "pool_prog k p = (p', i)"
  shows "count_J p' (pcs(t := pc_after i)) (lg @ [(t, k)]) A'"
proof -
  have th: "\<forall>u. pool_thread p' ((pcs(t := pc_after i)) u)"
    by (rule pool_run_threads [where pcs = pcs, OF _ pc alone step]) (use J in \<open>auto simp: count_J_def\<close>)
  have "balanced p' (pcs(t := pc_after i))" if "\<not> discarded (lg @ [(t, k)])"
  proof -
    have b: "balanced p pcs" and k: "k \<noteq> PC C_Clear_Pop" "k \<noteq> PC C_Stop_Zero"
      using J that by (auto simp: count_J_def)
    show ?thesis
    proof (cases "pool_holds k = Some Queue_Mutex")
      case True
      have "pool_thread p (pcs t)" using J by (simp add: count_J_def)
      then have known: "queue_known p k" using pc by simp
      have "pl_pendingTasks p + uncounted k = word_of_nat (length (pl_taskQueue p))"
        using pc True by (rule balancedD(1) [OF b])
      then show ?thesis
        using alone True by (intro balanced_inside pool_run_inside [OF step True known _ k(1)]) auto
    next
      case False
      show ?thesis
        using pool_run_outside [OF step False k(2)] False pc by (intro balanced_outside [OF b]) auto
    qed
  qed
  with th show ?thesis by (simp add: count_J_def)
qed

interpretation pool_count: thread_program pool_start pool_prog pool_holds any_return "pool_new hw c" count_J
  for hw :: size_t and c :: pool_config
proof unfold_locales
  show "count_J (pool_new hw c) (\<lambda>_. T_Idle) [] (\<lambda>_ _. False)"
    by (simp add: count_J_def pool_new_def balanced_def)
next
  fix d pcs lg A t k' k
  assume J: "count_J d pcs lg A" and pc: "pcs t = T_Idle \<or> pcs t = T_Ended k'" and k: "pool_start k"
  have "balanced d (pcs(t := T_At k))" if "\<not> discarded lg"
    using J pc that pool_start_free [OF k] by (intro balanced_outside) (auto simp: count_J_def)
  with J k show "count_J d (pcs(t := T_At k)) lg A"
    using pool_thread_moves(3) [of d pcs k t] by (auto simp: count_J_def)
next
  fix d pcs lg A t m k
  assume J: "count_J d pcs lg A" and pc: "pcs t = T_Entering m k" and k: "pool_holds k = Some m"
    and free: "\<And>u. \<not> inside pool_holds m (pcs u)"
  have "pool_thread d (pcs t)" using J by (simp add: count_J_def)
  then have u: "uncounted k = 0" using pc by simp
  have "balanced d (pcs(t := T_At k))" if nd: "\<not> discarded lg"
  proof (cases m)
    case Queue_Mutex
    have "pl_pendingTasks d = word_of_nat (length (pl_taskQueue d))"
      using J nd free Queue_Mutex by (intro balancedD(2)) (auto simp: count_J_def)
    then show ?thesis using free Queue_Mutex u by (intro balanced_inside) auto
  next
    case Workers_Mutex
    with J nd pc k show ?thesis by (intro balanced_outside) (auto simp: count_J_def)
  qed
  with J pc show "count_J d (pcs(t := T_At k)) lg A"
    using pool_thread_moves(1) [of d pcs t m k] by (auto simp: count_J_def)
next
  fix d pcs lg A t m ms f r
  assume J: "count_J d pcs lg A" and pc: "pcs t = T_Asleep m ms f"
  then have "balanced d (pcs(t := T_Entering m (f r)))" if "\<not> discarded lg"
    using that by (intro balanced_outside) (auto simp: count_J_def)
  with J pc show "count_J d (pcs(t := T_Entering m (f r))) lg (A(m := (A m)(t := False)))"
    using pool_thread_moves(2) [of d pcs t m ms f r] by (auto simp: count_J_def)
qed (auto intro: pool_disciplined pool_start_free count_J_run)

section \<open>The workers and the end of the pool\<close>

text \<open>The worker whose loop a thread runs; the one thread that carries out \<open>Stop\<close>.\<close>

fun running :: "pool_pc \<Rightarrow> nat option" where
  "running (PW i W_Start) = None"
| "running (PW i W_Ended) = None"
| "running (PW i k) = Some i"
| "running (PC k) = None"

fun stopper :: "pool_pc \<Rightarrow> nat option" where
  "stopper (PC (C_Stop_Notify b)) = Some 0"
| "stopper (PC C_Stop_Poll) = Some 0"
| "stopper (PC C_Stop_Lock) = Some 0"
| "stopper (PC C_Stop_Move) = Some 0"
| "stopper (PC (C_Stop_Unlock ws)) = Some 0"
| "stopper (PC (C_Join ws)) = Some 0"
| "stopper (PC C_Clear_Test) = Some 0"
| "stopper (PC C_Clear_Pop) = Some 0"
| "stopper (PC C_Clear_Unlock) = Some 0"
| "stopper (PC C_Stop_Zero) = Some 0"
| "stopper (PC C_Stop_Again) = Some 0"
| "stopper _ = None"

fun moving :: "pool_pc \<Rightarrow> unit option" where
  "moving (PC C_Stop_Move) = Some ()"
| "moving _ = None"

fun clearing :: "pool_pc \<Rightarrow> unit option" where
  "clearing (PC C_Clear_Test) = Some ()"
| "clearing _ = None"

abbreviation moved :: "(tid \<times> pool_pc) list \<Rightarrow> bool" where "moved lg \<equiv> history moving lg \<noteq> []"
abbreviation joined :: "(tid \<times> pool_pc) list \<Rightarrow> bool" where "joined lg \<equiv> history clearing lg \<noteq> []"

text \<open>What the thread in \<open>Stop\<close> knows: it joins every worker that has not ended.\<close>

fun stop_known :: "nat \<Rightarrow> nat set \<Rightarrow> bool \<Rightarrow> pool_pc \<Rightarrow> bool" where
  "stop_known n ended mv (PC (C_Stop_Unlock ws)) \<longleftrightarrow> (\<forall>w<n. w \<notin> ended \<longrightarrow> Some w \<in> set ws)"
| "stop_known n ended mv (PC (C_Join ws)) \<longleftrightarrow> (\<forall>w<n. w \<notin> ended \<longrightarrow> Some w \<in> set ws)"
| "stop_known n ended mv (PC C_Clear_Test) \<longleftrightarrow> {..<n} \<subseteq> ended"
| "stop_known n ended mv (PC C_Clear_Pop) \<longleftrightarrow> {..<n} \<subseteq> ended"
| "stop_known n ended mv (PC C_Clear_Unlock) \<longleftrightarrow> {..<n} \<subseteq> ended"
| "stop_known n ended mv (PC C_Stop_Zero) \<longleftrightarrow> {..<n} \<subseteq> ended"
| "stop_known n ended mv (PC C_Stop_Again) \<longleftrightarrow> {..<n} \<subseteq> ended"
| "stop_known n ended mv k \<longleftrightarrow> (stopper k \<noteq> None \<longrightarrow> \<not> mv)"

definition stop_thread :: "nat \<Rightarrow> nat set \<Rightarrow> bool \<Rightarrow> (pool_mutex, pool_pc) thread_pc \<Rightarrow> bool" where
  "stop_thread n ended mv pc \<longleftrightarrow> (case next_pc pc of None \<Rightarrow> True | Some k \<Rightarrow> stop_known n ended mv k)"

definition accounted :: "nat \<Rightarrow> pool \<Rightarrow> (tid \<Rightarrow> (pool_mutex, pool_pc) thread_pc) \<Rightarrow> bool" where
  "accounted n p pcs \<longleftrightarrow> claims_unique (role running) pcs \<and>
     claims (role running) pcs \<union> pl_created p \<union> pl_ended p = {..<n} \<and>
     claims (role running) pcs \<inter> pl_created p = {} \<and> claims (role running) pcs \<inter> pl_ended p = {} \<and>
     pl_created p \<inter> pl_ended p = {}"

definition one_stopper ::
  "pool \<Rightarrow> (tid \<Rightarrow> (pool_mutex, pool_pc) thread_pc) \<Rightarrow> (tid \<times> pool_pc) list \<Rightarrow> bool" where
  "one_stopper p pcs lg \<longleftrightarrow> claims_unique (role stopper) pcs \<and>
     (claims (role stopper) pcs \<noteq> {} \<or> moved lg \<longrightarrow> pl_stopping p)"

definition workers_J ::
  "nat \<Rightarrow> pool \<Rightarrow> (tid \<Rightarrow> (pool_mutex, pool_pc) thread_pc) \<Rightarrow> (tid \<times> pool_pc) list \<Rightarrow>
   (pool_mutex \<Rightarrow> tid \<Rightarrow> bool) \<Rightarrow> bool" where
  "workers_J n p pcs lg A \<longleftrightarrow>
     (\<forall>t. pool_thread p (pcs t)) \<and> accounted n p pcs \<and> one_stopper p pcs lg \<and>
     (\<forall>t. stop_thread n (pl_ended p) (moved lg) (pcs t)) \<and>
     (\<not> moved lg \<longrightarrow> pl_workers p = map Some [0..<n]) \<and> (joined lg \<longrightarrow> {..<n} \<subseteq> pl_ended p)"

lemma disjoint_move:
  assumes "R \<union> C \<union> E = N" "R \<inter> C = {}" "R \<inter> E = {}" "C \<inter> E = {}" "j \<in> R"
  shows "(R - {j}) \<union> C \<union> insert j E = N \<and> (R - {j}) \<inter> C = {} \<and> (R - {j}) \<inter> insert j E = {} \<and>
    C \<inter> insert j E = {}"
  using assms by blast

lemma accounted_run:
  assumes acc: "accounted n p pcs" and pc: "pcs t = T_At k" and step: "pool_prog k p = (p', i)"
  shows "accounted n p' (pcs(t := pc_after i)) \<and> pl_ended p \<subseteq> pl_ended p'"
proof -
  have same: ?thesis if "role running (pc_after i) = running k" "pl_created p' = pl_created p" "pl_ended p' = pl_ended p"
    using acc that pc by (simp add: accounted_def claims_same)
  have ending: ?thesis if "running k = Some j" "role running (pc_after i) = None"
    "pl_created p' = pl_created p" "pl_ended p' = insert j (pl_ended p)" for j
  proof -
    have "claims (role running) (pcs(t := pc_after i)) = claims (role running) pcs - {j} \<and>
        claims_unique (role running) (pcs(t := pc_after i))"
      using acc that pc claims_remove [of "role running" pcs t j "pc_after i"] by (simp add: accounted_def)
    moreover have "j \<in> claims (role running) pcs" by (rule claimsI [of _ pcs t]) (simp add: pc that)
    ultimately show ?thesis
      using acc that disjoint_move [of "claims (role running) pcs" "pl_created p" "pl_ended p" "{..<n}" j]
      by (simp add: accounted_def subset_insertI)
  qed
  show ?thesis
  proof (cases k)
    case (PC c)
    then show ?thesis using step by (intro same) (cases c; auto split: if_splits)+
  next
    case (PW j w)
    consider "w = W_Start" "j \<in> pl_created p" | "w = W_Loop" "pl_stopping p" | "w = W_Thrown"
      | "w = W_Start \<Longrightarrow> j \<notin> pl_created p" "w = W_Loop \<Longrightarrow> \<not> pl_stopping p" "w \<noteq> W_Thrown" by blast
    then show ?thesis
    proof cases
      case 1
      then have "claims (role running) (pcs(t := pc_after i)) = insert j (claims (role running) pcs) \<and>
          claims_unique (role running) (pcs(t := pc_after i))"
        using acc step pc PW unfolding accounted_def
        by (intro conjI claims_add claims_unique_add) auto
      with 1 acc step PW show ?thesis unfolding accounted_def by auto
    next
      case 4
      with PW step show ?thesis
        by (intro same) (cases w; auto simp: set_active_def split: if_splits sum.splits option.splits)+
    qed (rule ending [of j]; use PW step in auto)+
  qed
qed

lemma one_stopper_run:
  assumes one: "one_stopper p pcs lg" and pc: "pcs t = T_At k" and step: "pool_prog k p = (p', i)"
  shows "one_stopper p' (pcs(t := pc_after i)) (lg @ [(t, k)]) \<and> (pl_stopping p \<longrightarrow> pl_stopping p')"
proof -
  have "stopper k = Some 0 \<Longrightarrow> 0 \<in> claims (role stopper) pcs"
    by (rule claimsI [of _ pcs t]) (simp add: pc)
  then have stopping: "stopper k = Some 0 \<Longrightarrow> pl_stopping p" using one by (auto simp: one_stopper_def)
  have same: ?thesis if "role stopper (pc_after i) = stopper k" "pl_stopping p' = pl_stopping p"
    using one that pc stopping
    by (cases "k = PC C_Stop_Move") (auto simp: one_stopper_def claims_same split: option.splits
      elim!: moving.elims)
  have gone: ?thesis if "stopper k = Some 0" "role stopper (pc_after i) = None" "pl_stopping p'"
    using one that pc claims_remove(2) [of "role stopper" pcs t 0 "pc_after i"] by (simp add: one_stopper_def)
  show ?thesis
  proof (cases k)
    case (PW j w)
    then show ?thesis using step
      by (intro same) (cases w; auto simp: set_active_def split: if_splits sum.splits option.splits)+
  next
    case (PC c)
    consider b where "c = C_Stop b" "\<not> pl_stopping p" | "c = C_Stop_Again"
      | "c \<noteq> C_Stop_Again" "\<And>b. c = C_Stop b \<Longrightarrow> pl_stopping p" by blast
    then show ?thesis
    proof cases
      case 1
      then have "claims_unique (role stopper) (pcs(t := pc_after i))"
        using one step pc PC by (intro claims_unique_add [where p = 0]) (auto simp: one_stopper_def)
      with 1 step PC show ?thesis by (auto simp: one_stopper_def)
    next
      case 2
      with step PC show ?thesis by (intro gone) auto
    next
      case 3
      then show ?thesis using step PC by (intro same) (cases c; auto split: if_splits)+
    qed
  qed
qed

lemma stop_known_mono: "stop_known n ended mv k \<Longrightarrow> ended \<subseteq> ended' \<Longrightarrow> mv' \<longrightarrow> mv \<Longrightarrow> stop_known n ended' mv' k"
  by (cases "(n, ended, mv, k)" rule: stop_known.cases) (auto 4 3)

lemma stop_known_none: "stopper k = None \<Longrightarrow> stop_known n ended mv k"
  by (cases "(n, ended, mv, k)" rule: stop_known.cases) auto

lemma join_next_keeps: "Some w \<in> set ws \<Longrightarrow> w \<notin> ended \<Longrightarrow> Some w \<in> set (join_next ended ws)"
  by (induction ended ws rule: join_next.induct) auto

lemma stop_known_run:
  assumes "stop_known n (pl_ended p) (moved lg) k" and "pool_prog k p = (p', i)"
    and "\<not> moved lg \<longrightarrow> pl_workers p = map Some [0..<n]" and "moved lg \<longrightarrow> pl_stopping p"
  shows "stop_thread n (pl_ended p') (moved (lg @ [(t, k)])) (pc_after i)"
proof (cases k)
  case (PW j w)
  then show ?thesis using assms
    by (cases w) (auto simp: stop_thread_def set_active_def split: if_splits sum.splits option.splits)
next
  case (PC c)
  then show ?thesis using assms
    by (cases c) (auto simp: stop_thread_def intro!: join_next_keeps split: if_splits)
qed

lemma pool_run_workers:
  assumes "pool_prog k p = (p', i)" and "moving k = None"
  shows "pl_workers p' = pl_workers p"
proof (cases k)
  case (PW j w)
  then show ?thesis using assms by (cases w) (auto simp: set_active_def split: if_splits)
next
  case (PC c)
  then show ?thesis using assms by (cases c) (auto split: if_splits)
qed

lemma workers_J_run:
  assumes J: "workers_J n p pcs lg A" and pc: "pcs t = T_At k"
    and alone: "\<And>m u. pool_holds k = Some m \<Longrightarrow> u \<noteq> t \<Longrightarrow> \<not> inside pool_holds m (pcs u)"
    and step: "pool_prog k p = (p', i)"
  shows "workers_J n p' (pcs(t := pc_after i)) (lg @ [(t, k)]) A'"
proof -
  have th: "\<forall>u. pool_thread p' ((pcs(t := pc_after i)) u)"
    by (rule pool_run_threads [where pcs = pcs, OF _ pc alone step]) (use J in \<open>auto simp: workers_J_def\<close>)
  have one: "one_stopper p pcs lg" and acc: "accounted n p pcs"
    and ws: "\<not> moved lg \<longrightarrow> pl_workers p = map Some [0..<n]"
    and st: "\<And>u. stop_thread n (pl_ended p) (moved lg) (pcs u)"
    using J by (simp_all add: workers_J_def)
  note acc' = accounted_run [OF acc pc step] and one' = one_stopper_run [OF one pc step]
  have known: "stop_known n (pl_ended p) (moved lg) k" using st [of t] pc by (simp add: stop_thread_def)
  have "stop_thread n (pl_ended p') (moved (lg @ [(t, k)])) ((pcs(t := pc_after i)) u)" for u
  proof (cases "u = t")
    case True
    with stop_known_run [OF known step ws] one show ?thesis by (simp add: one_stopper_def)
  next
    case False
    show ?thesis
    proof (cases "moving k")
      case None
      then show ?thesis using st [of u] acc' False stop_known_mono
        by (fastforce simp: stop_thread_def split: option.splits)
    next
      case (Some x)
      then have k: "k = PC C_Stop_Move" by (auto elim: moving.elims)
      have "role stopper (pcs u) = None"
      proof (cases "role stopper (pcs u)")
        case (Some y)
        then have "role stopper (pcs u) = Some 0" by (auto simp: role_def bind_eq_Some_conv elim!: stopper.elims)
        moreover have "role stopper (pcs t) = Some 0" using pc k by simp
        ultimately show ?thesis using one False unfolding one_stopper_def claims_unique_def by blast
      qed
      then show ?thesis using False
        by (auto simp: stop_thread_def role_def stop_known_none split: option.splits)
    qed
  qed
  moreover have "joined (lg @ [(t, k)]) \<longrightarrow> {..<n} \<subseteq> pl_ended p'"
  proof
    assume "joined (lg @ [(t, k)])"
    then have "joined lg \<or> k = PC C_Clear_Test" by (auto split: option.splits elim: clearing.elims)
    then have "{..<n} \<subseteq> pl_ended p" using J known by (auto simp: workers_J_def)
    with acc' show "{..<n} \<subseteq> pl_ended p'" by blast
  qed
  ultimately show ?thesis
    using th acc' one' ws pool_run_workers [OF step]
    by (auto simp: workers_J_def split: option.splits)
qed

lemma pool_new_workers:
  "pl_workers (pool_new hw c) = map Some [0..<unat (cfg_minThreads (pool_clamp hw c))]"
  "pl_created (pool_new hw c) = {..<unat (cfg_minThreads (pool_clamp hw c))}"
proof -
  have "pl_workers ((create_worker ^^ n) p) = map Some [0..<n] \<and> pl_created ((create_worker ^^ n) p) = {..<n}"
    if "pl_workers p = []" "pl_created p = {}" for n p
    using that by (induction n) (auto simp: create_worker_def Let_def lessThan_Suc)
  then show "pl_workers (pool_new hw c) = map Some [0..<unat (cfg_minThreads (pool_clamp hw c))]"
    "pl_created (pool_new hw c) = {..<unat (cfg_minThreads (pool_clamp hw c))}"
    by (simp_all add: pool_new_def)
qed

text \<open>A thread that goes on without running a statement claims what it claimed.\<close>

lemma workers_J_move:
  assumes J: "workers_J n p pcs lg A" and "\<forall>u. pool_thread p ((pcs(t := pc)) u)"
    and "role running pc = role running (pcs t)" and "role stopper pc = role stopper (pcs t)"
    and "stop_thread n (pl_ended p) (moved lg) pc"
  shows "workers_J n p (pcs(t := pc)) lg A'"
  using assms by (simp add: workers_J_def accounted_def one_stopper_def claims_same)

lemma pool_start_workers: "pool_start k \<Longrightarrow> running k = None \<and> stopper k = None \<and> stop_known n e mv k"
  by (erule pool_start.elims) auto

interpretation pool_workers: thread_program pool_start pool_prog pool_holds any_return "pool_new hw c"
  "workers_J (unat (cfg_minThreads (pool_clamp hw c)))"
  for hw :: size_t and c :: pool_config
proof unfold_locales
  have "pl_ended (pool_new hw c) = {}" by (simp add: pool_new_def)
  then show "workers_J (unat (cfg_minThreads (pool_clamp hw c))) (pool_new hw c) (\<lambda>_. T_Idle) [] (\<lambda>_ _. False)"
    by (simp add: workers_J_def accounted_def one_stopper_def stop_thread_def claims_none pool_new_workers)
next
  fix d pcs lg A t k' k
  let ?J = "workers_J (unat (cfg_minThreads (pool_clamp hw c)))"
  assume J: "?J d pcs lg A" and "pcs t = T_Idle \<or> pcs t = T_Ended k'" and k: "pool_start k"
  then show "?J d (pcs(t := T_At k)) lg A"
    using pool_thread_moves(3) [of d pcs k t] pool_start_workers [OF k]
    by (intro workers_J_move [OF J]) (auto simp: workers_J_def stop_thread_def)
next
  fix d pcs lg A t m k
  let ?J = "workers_J (unat (cfg_minThreads (pool_clamp hw c)))"
  assume J: "?J d pcs lg A" and pc: "pcs t = T_Entering m k"
  from J have "\<forall>u. stop_thread (unat (cfg_minThreads (pool_clamp hw c))) (pl_ended d) (moved lg) (pcs u)"
    by (simp add: workers_J_def)
  with pc have "stop_thread (unat (cfg_minThreads (pool_clamp hw c))) (pl_ended d) (moved lg) (T_At k)"
    by (auto simp: stop_thread_def dest: spec [of _ t])
  with J pc show "?J d (pcs(t := T_At k)) lg A"
    using pool_thread_moves(1) [of d pcs t m k]
    by (intro workers_J_move [OF J]) (auto simp: workers_J_def stop_thread_def)
next
  fix d pcs lg A t m ms f r
  let ?J = "workers_J (unat (cfg_minThreads (pool_clamp hw c)))"
  assume J: "?J d pcs lg A" and pc: "pcs t = T_Asleep m ms f"
  obtain i where "f = (\<lambda>r. PW i (W_Woken r))"
    using J pool_woken_role [where pcs = pcs, OF _ pc] by (auto simp: workers_J_def)
  with J pc show "?J d (pcs(t := T_Entering m (f r))) lg (A(m := (A m)(t := False)))"
    using pool_thread_moves(2) [of d pcs t m ms f r]
    by (intro workers_J_move [OF J]) (auto simp: workers_J_def stop_thread_def)
qed (auto intro: pool_disciplined pool_start_free workers_J_run)

section \<open>What follows for the runs\<close>

text \<open>A task starts only while some worker runs.\<close>

lemma executed_step:
  assumes "pool_step api l s = Some s'" and "claims (role running) (mon_pcs s) = {}"
  shows "executed (mon_log s') = executed (mon_log s)"
  using assms(1)
proof (cases rule: mon_step_log)
  case (2 t k)
  have "executing_task k = None"
  proof (rule ccontr)
    assume "executing_task k \<noteq> None"
    then obtain i x where "k = PW i (W_Execute x)" by (auto elim: executing_task.elims)
    then have "i \<in> claims (role running) (mon_pcs s)" using 2(2) by (intro claimsI [of _ _ t]) simp
    with assms(2) show False by simp
  qed
  with 2(3) show ?thesis by simp
qed simp

lemma pool_running_empty:
  assumes "win_sync_ok api" and "reach (pool_step api) (mon_init api (pool_new hw c)) s"
    and "joined (mon_log s) \<or> cfg_minThreads (pool_clamp hw c) = 0"
  shows "claims (role running) (mon_pcs s) = {}"
  using pool_workers.reach_J [OF assms(1) _ assms(2)] assms(3)
  by (auto simp: workers_J_def accounted_def)

lemma joined_step: "pool_step api l s = Some s' \<Longrightarrow> joined (mon_log s) \<Longrightarrow> joined (mon_log s')"
  by (erule mon_step_log) auto

lemma executed_after_join:
  assumes api: "win_sync_ok api" and r: "reach (pool_step api) (mon_init api (pool_new hw c)) s"
    and j: "joined (mon_log s)" and "reach (pool_step api) s s'"
  shows "joined (mon_log s') \<and> executed (mon_log s') = executed (mon_log s)"
  using assms(4)
proof (induction rule: reach.induct)
  case reach_init
  with j show ?case by simp
next
  case (reach_step s1 l s2)
  have "claims (role running) (mon_pcs s1) = {}"
    using pool_running_empty [OF api reach_trans [OF reach_step.hyps(1) r]] reach_step.IH by blast
  then have "executed (mon_log s2) = executed (mon_log s1)" by (rule executed_step [OF reach_step.hyps(2)])
  moreover have "joined (mon_log s2)" using reach_step.IH by (intro joined_step [OF reach_step.hyps(2)]) blast
  ultimately show ?case using reach_step.IH by simp
qed

text \<open>
  A call of \<open>Stop(true)\<close> that finds a task in the queue: no worker that tests \<open>m_stopping\<close> from
  now on takes a task, so the count never falls.
\<close>

fun past_test :: "pool_pc \<Rightarrow> bool" where
  "past_test (PW i W_Front) \<longleftrightarrow> True"
| "past_test (PW i (W_Pop x)) \<longleftrightarrow> True"
| "past_test (PW i (W_Sub x)) \<longleftrightarrow> True"
| "past_test _ \<longleftrightarrow> False"

definition stop_stuck :: "tid \<Rightarrow> ('c, 'v, pool_mutex, pool_pc, pool) mon \<Rightarrow> bool" where
  "stop_stuck t s \<longleftrightarrow> mon_pcs s t = T_At (PC C_Stop_Poll) \<and> pl_stopping (mon_data s) \<and>
     pl_taskQueue (mon_data s) \<noteq> [] \<and> pl_pendingTasks (mon_data s) \<noteq> 0 \<and>
     \<not> discarded (mon_log s) \<and> (\<forall>u k. mon_pcs s u = T_At k \<longrightarrow> \<not> past_test k)"

lemma stop_stuck_run:
  assumes stuck: "stop_stuck t s" and pc: "mon_pcs s u = T_At k" and p: "pool_prog k (mon_data s) = (d, i)"
    and one: "k = PC C_Clear_Pop \<or> k = PC C_Stop_Zero \<longrightarrow> u = t"
    and few: "\<And>x. k = PC (C_Count x) \<Longrightarrow> pl_pendingTasks (mon_data s) + 1 \<noteq> 0"
  shows "(u = t \<longrightarrow> pc_after i = T_At (PC C_Stop_Poll)) \<and> pl_stopping d \<and> pl_taskQueue d \<noteq> [] \<and>
    pl_pendingTasks d \<noteq> 0 \<and> discarding k = None \<and> (\<forall>k'. pc_after i = T_At k' \<longrightarrow> \<not> past_test k')"
proof -
  have s: "pl_stopping (mon_data s)" "pl_taskQueue (mon_data s) \<noteq> []" "pl_pendingTasks (mon_data s) \<noteq> 0"
    using stuck by (simp_all add: stop_stuck_def)
  have "\<forall>u k. mon_pcs s u = T_At k \<longrightarrow> \<not> past_test k" and t: "mon_pcs s t = T_At (PC C_Stop_Poll)"
    using stuck unfolding stop_stuck_def by blast+
  then have k1: "\<not> past_test k" using pc by blast
  have k2: "u = t \<longrightarrow> k = PC C_Stop_Poll" using pc t by auto
  note k = k1 k2
  have not_clear: "\<not> (k = PC C_Clear_Pop \<or> k = PC C_Stop_Zero)"
  proof
    assume c: "k = PC C_Clear_Pop \<or> k = PC C_Stop_Zero"
    with one k2 have "k = PC C_Stop_Poll" by blast
    with c show False by simp
  qed
  show ?thesis
  proof (cases k)
    case (PW j w)
    then show ?thesis using p s k
      by (cases w) (auto simp: set_active_def split: if_splits sum.splits option.splits)
  next
    case (PC c)
    then show ?thesis using p s k not_clear few
      by (cases c) (auto simp: word_gt_0 split: if_splits)
  qed
qed

lemma stop_stuck_step:
  assumes api: "win_sync_ok api" and r: "reach (pool_step api) (mon_init api (pool_new hw c)) s"
    and few: "length (pushed (mon_log s)) < 2 ^ 64"
    and stuck: "stop_stuck t s" and step: "pool_step api l s = Some s'"
  shows "stop_stuck t s'"
proof -
  have th: "\<And>u. pool_thread (mon_data s) (mon_pcs s u)"
    using pool_tasks.reach_J [OF api _ r] by (simp add: tasks_J_def)
  have one: "claims_unique (role stopper) (mon_pcs s)"
    using pool_workers.reach_J [OF api _ r] by (simp add: workers_J_def one_stopper_def)
  have t: "mon_pcs s t = T_At (PC C_Stop_Poll)" using stuck by (simp add: stop_stuck_def)
  show ?thesis
  proof (cases l)
    case (M_Run u)
    obtain k d i where pc: "mon_pcs s u = T_At k" and p: "pool_prog k (mon_data s) = (d, i)"
      and s': "s' = (instr_effect api u i s)\<lparr>mon_data := d, mon_pcs := (mon_pcs s)(u := pc_after i),
        mon_log := mon_log s @ [(u, k)]\<rparr>"
      using step M_Run by (auto split: thread_pc.splits prod.splits)
    have "k = PC C_Clear_Pop \<or> k = PC C_Stop_Zero \<longrightarrow> u = t"
    proof
      assume "k = PC C_Clear_Pop \<or> k = PC C_Stop_Zero"
      then have "role stopper (mon_pcs s u) = Some 0" using pc by auto
      moreover have "role stopper (mon_pcs s t) = Some 0" using t by simp
      ultimately show "u = t" using one unfolding claims_unique_def by blast
    qed
    moreover have "pl_pendingTasks (mon_data s) + 1 \<noteq> 0" if "k = PC (C_Count x)" for x
    proof -
      have "count_J (mon_data s) (mon_pcs s) (mon_log s) (mon_asleep api s)"
        by (rule pool_count.reach_J [OF api _ r]) simp
      then have "balanced (mon_data s) (mon_pcs s)" using stuck by (auto simp: count_J_def stop_stuck_def)
      from balancedD(1) [OF this pc]
      have "pl_pendingTasks (mon_data s) + 1 = word_of_nat (length (pl_taskQueue (mon_data s)))"
        using that by simp
      moreover have "length (pl_taskQueue (mon_data s)) \<le> length (pushed (mon_log s))"
        using pool_tasks.reach_J [OF api _ r] by (auto simp: tasks_J_def)
      moreover have "pl_taskQueue (mon_data s) \<noteq> []" using stuck by (simp add: stop_stuck_def)
      ultimately show ?thesis using few by (simp add: word_of_nat_eq_0_iff) (metis dvd_imp_le leD length_greater_0_conv order.strict_trans2)
    qed
    ultimately show ?thesis
      using stop_stuck_run [OF stuck pc p] stuck s' by (auto simp: stop_stuck_def split: if_splits)
  next
    case (M_Enter u)
    then obtain m k cs where pc: "mon_pcs s u = T_Entering m k"
      and s': "s' = s\<lparr>mon_cs := (mon_cs s)(m := cs), mon_pcs := (mon_pcs s)(u := T_At k)\<rparr>"
      using step by (auto split: thread_pc.splits option.splits)
    have "\<forall>p'. queue_known p' k" "uncounted k = 0" using th [of u] pc by auto
    moreover have "\<not> queue_known (pool_new 0 (pool_config_default 0)) (PW i W_Front)"
      "\<not> queue_known (pool_new 0 (pool_config_default 0)) (PW i (W_Pop x))" for i x
      by (simp_all add: pool_new_def)
    ultimately have "\<not> past_test k" by (auto elim!: past_test.elims)
    with s' stuck pc show ?thesis by (auto simp: stop_stuck_def)
  next
    case (M_Call u k)
    then have "pool_start k" "mon_pcs s u = T_Idle \<or> (\<exists>k'. mon_pcs s u = T_Ended k')"
      "s' = s\<lparr>mon_pcs := (mon_pcs s)(u := T_At k)\<rparr>"
      using step by (auto split: thread_pc.splits if_splits)
    moreover have "\<not> past_test k" using \<open>pool_start k\<close> by (auto elim!: pool_start.elims)
    ultimately show ?thesis using stuck by (auto simp: stop_stuck_def)
  next
    case (M_Woken u r)
    with step stuck show ?thesis
      by (auto simp: stop_stuck_def split: thread_pc.splits if_splits)
  qed
qed

lemma pushed_mono: "reach (pool_step api) s s' \<Longrightarrow> length (pushed (mon_log s)) \<le> length (pushed (mon_log s'))"
proof (induction rule: reach.induct)
  case (reach_step s1 l s2)
  from reach_step.hyps(2) have "length (pushed (mon_log s1)) \<le> length (pushed (mon_log s2))"
    by (rule mon_step_log) auto
  with reach_step.IH show ?case by simp
qed simp

lemma stop_stuck_reach:
  assumes api: "win_sync_ok api" and r: "reach (pool_step api) (mon_init api (pool_new hw c)) s"
    and stuck: "stop_stuck t s" and "reach (pool_step api) s s'" and few: "length (pushed (mon_log s')) < 2 ^ 64"
  shows "stop_stuck t s'"
  using assms(4,5)
proof (induction rule: reach.induct)
  case reach_init
  from stuck show ?case .
next
  case (reach_step s1 l s2)
  have "reach (pool_step api) s1 s2" using reach_step.hyps(2) by (blast intro: reach.intros)
  then have few1: "length (pushed (mon_log s1)) < 2 ^ 64"
    using pushed_mono reach_step.prems by (blast intro: le_less_trans)
  show ?case
    using stop_stuck_step [OF api reach_trans [OF reach_step.hyps(1) r] few1 reach_step.IH [OF few1]
      reach_step.hyps(2)] .
qed

section \<open>Properties\<close>

text \<open>
  C7. Under any schedule of the workers and the clients, and whatever the sleeps return, a pool
  starts every task at most once, and only tasks that were pushed; the workers take the
  tasks in the order in which they were pushed. Until \<open>Stop\<close> discards tasks, what was pushed is
  what was taken, then what is in the queue: no task is lost.
\<close>

theorem pool_runs_tasks_once_in_order:
  assumes "win_sync_ok api" and "reach (pool_step api) (mon_init api (pool_new hw c)) s"
  shows "distinct (executed (mon_log s)) \<and> set (executed (mon_log s)) \<subseteq> set (taken (mon_log s)) \<and>
    distinct (pushed (mon_log s)) \<and> subseq (taken (mon_log s)) (pushed (mon_log s)) \<and>
    (\<not> discarded (mon_log s) \<longrightarrow> pushed (mon_log s) = taken (mon_log s) @ pl_taskQueue (mon_data s))"
proof -
  have J: "tasks_J (mon_data s) (mon_pcs s) (mon_log s) (mon_asleep api s)"
    by (rule pool_tasks.reach_J [OF assms(1) _ assms(2)]) simp
  then obtain gone where gone: "pushed (mon_log s) = gone @ pl_taskQueue (mon_data s)"
    "subseq (taken (mon_log s)) gone" "\<not> discarded (mon_log s) \<longrightarrow> taken (mon_log s) = gone"
    unfolding tasks_J_def by blast
  then have "subseq (taken (mon_log s)) (pushed (mon_log s))" by (simp add: subseq_rev_drop_many)
  with gone J show ?thesis by (simp add: tasks_J_def)
qed

text \<open>
  While nobody is in the queue's critical section, and until \<open>Stop\<close> discards tasks or resets
  the count, what \<open>GetPendingTaskCount\<close> reads is the number of tasks in the queue: a task that
  a worker has taken but not finished is no longer pending.
\<close>

theorem pool_pending_is_queue_length:
  assumes "win_sync_ok api" and "reach (pool_step api) (mon_init api (pool_new hw c)) s"
    and "\<forall>u. \<not> inside pool_holds Queue_Mutex (mon_pcs s u)" and "\<not> discarded (mon_log s)"
  shows "pl_pendingTasks (mon_data s) = word_of_nat (length (pl_taskQueue (mon_data s)))"
proof -
  have "count_J (mon_data s) (mon_pcs s) (mon_log s) (mon_asleep api s)"
    by (rule pool_count.reach_J [OF assms(1) _ assms(2)]) simp
  with assms(3,4) show ?thesis by (intro balancedD(2)) (auto simp: count_J_def)
qed

text \<open>
  C11. Once \<open>Stop\<close> is past its joins, every worker has ended and no thread is in \<open>WorkerLoop\<close>, and
  whatever the clients do afterwards, no task starts any more.
\<close>

theorem pool_stop_joins_workers:
  assumes "win_sync_ok api" and "reach (pool_step api) (mon_init api (pool_new hw c)) s"
    and "joined (mon_log s)" and "reach (pool_step api) s s'"
  shows "{..<unat (cfg_minThreads (pool_clamp hw c))} \<subseteq> pl_ended (mon_data s') \<and>
    (\<forall>t i k. mon_pcs s' t = T_At (PW i k) \<longrightarrow> k = W_Start \<or> k = W_Ended) \<and>
    executed (mon_log s') = executed (mon_log s)"
proof -
  have j: "joined (mon_log s')" "executed (mon_log s') = executed (mon_log s)"
    using executed_after_join [OF assms] by simp_all
  have r: "reach (pool_step api) (mon_init api (pool_new hw c)) s'"
    by (rule reach_trans [OF assms(4) assms(2)])
  have "{..<unat (cfg_minThreads (pool_clamp hw c))} \<subseteq> pl_ended (mon_data s')"
    using pool_workers.reach_J [OF assms(1) _ r] j(1) by (simp add: workers_J_def)
  moreover have "k = W_Start \<or> k = W_Ended" if "mon_pcs s' t = T_At (PW i k)" for t i k
  proof (rule ccontr)
    assume "\<not> (k = W_Start \<or> k = W_Ended)"
    then have "role running (mon_pcs s' t) = Some i" using that by (cases k) auto
    then have "i \<in> claims (role running) (mon_pcs s')" by (rule claimsI)
    with pool_running_empty [OF assms(1) r] j(1) show False by simp
  qed
  ultimately show ?thesis using j by blast
qed

text \<open>
  C12. \<open>Stop(true)\<close>, which the destructor calls, does not return when it finds a task in the queue
  that no worker is about to take: it has set \<open>m_stopping\<close>, so no worker takes a task any
  more, and it waits for the count to become zero. However the threads are scheduled, the
  caller stays in that loop (\<open>2 ^ 64\<close> pushes would wrap the count).
\<close>

theorem pool_stop_never_returns:
  assumes "win_sync_ok api" and "reach (pool_step api) (mon_init api (pool_new hw c)) s"
    and "mon_pcs s t = T_At (PC C_Stop_Poll)" and "pl_stopping (mon_data s)"
    and "pl_taskQueue (mon_data s) \<noteq> []" and "pl_pendingTasks (mon_data s) \<noteq> 0"
    and "\<not> discarded (mon_log s)" and "\<And>u k. mon_pcs s u = T_At k \<Longrightarrow> \<not> past_test k"
    and "reach (pool_step api) s s'" and "length (pushed (mon_log s')) < 2 ^ 64"
  shows "mon_pcs s' t = T_At (PC C_Stop_Poll) \<and> pl_pendingTasks (mon_data s') \<noteq> 0"
proof -
  have "stop_stuck t s" unfolding stop_stuck_def using assms(3-8) by blast
  from stop_stuck_reach [OF assms(1,2) this assms(9,10)] show ?thesis
    unfolding stop_stuck_def by blast
qed

text \<open>
  A pool of the default configuration has no worker, since \<open>minThreads\<close> is zero and only the
  constructor creates workers, and runs no task, however long one waits; the tasks that are
  submitted stay in the queue until \<open>Stop\<close>.
\<close>

theorem pool_default_runs_nothing:
  assumes "win_sync_ok api" and "reach (pool_step api) (mon_init api (pool_new hw (pool_config_default hw))) s"
  shows "executed (mon_log s) = [] \<and>
    (\<not> discarded (mon_log s) \<longrightarrow> pl_taskQueue (mon_data s) = pushed (mon_log s))"
proof -
  have zero: "cfg_minThreads (pool_clamp hw (pool_config_default hw)) = 0"
    by (simp add: pool_clamp_def pool_config_default_def Let_def)
  have run: "claims (role running) (mon_pcs s) = {}"
    using pool_running_empty [OF assms] zero by blast
  have no: "executed (mon_log s) = []"
    using assms(2)
  proof (induction rule: reach.induct)
    case (reach_step s1 l s2)
    have "claims (role running) (mon_pcs s1) = {}"
      using pool_running_empty [OF assms(1) reach_step.hyps(1)] zero by blast
    from executed_step [OF reach_step.hyps(2) this] reach_step.IH show ?case by simp
  qed (simp add: mon_init_def)
  have "role carrying (mon_pcs s t) = None" for t
  proof (rule ccontr)
    assume "role carrying (mon_pcs s t) \<noteq> None"
    then obtain i where "role running (mon_pcs s t) = Some i"
      by (auto simp: role_def bind_eq_Some_conv elim!: carrying.elims)
    then have "i \<in> claims (role running) (mon_pcs s)" by (rule claimsI)
    with run show False by simp
  qed
  then have "claims (role carrying) (mon_pcs s) = {}" by (rule claims_none [THEN conjunct1])
  moreover have J: "tasks_J (mon_data s) (mon_pcs s) (mon_log s) (mon_asleep api s)"
    by (rule pool_tasks.reach_J [OF assms(1) _ assms(2)]) simp
  ultimately have "taken (mon_log s) = []" using no by (simp add: tasks_J_def)
  with J no show ?thesis by (auto simp: tasks_J_def)
qed

section \<open>Runs\<close>

definition one_worker :: pool_config where
  "one_worker = \<lparr>cfg_minThreads = 1, cfg_maxThreads = 1, cfg_threadTimeoutMs = 60000,
     cfg_useWorkStealing = True\<rparr>"

text \<open>A worker goes to sleep on the empty queue; a client submits a task; the worker runs it.\<close>

definition idle_run :: "pool_pc mon_label list" where
  "idle_run = [M_Call 1 (PW 0 W_Start), M_Run 1, M_Run 1, M_Run 1, M_Enter 1, M_Run 1, M_Run 1]"

definition submit_run :: "pool_pc mon_label list" where
  "submit_run = [M_Call 2 (PC C_Submit), M_Run 2, M_Run 2, M_Enter 2, M_Run 2, M_Run 2, M_Run 2, M_Run 2, M_Run 2]"

definition work_run :: "pool_pc mon_label list" where
  "work_run = [M_Woken 1 Cv_True, M_Enter 1, M_Run 1, M_Run 1, M_Run 1, M_Run 1, M_Run 1, M_Run 1, M_Run 1, M_Run 1,
     M_Run 1, M_Enter 1, M_Run 1, M_Run 1, M_Run 1, M_Run 1, M_Enter 1, M_Run 1, M_Run 1]"

definition pause_run :: "pool_pc mon_label list" where
  "pause_run = [M_Call 2 (PC C_Pause), M_Run 2]"

definition stop_run :: "pool_pc mon_label list" where
  "stop_run = [M_Call 3 (PC (C_Stop True)), M_Run 3, M_Run 3]"

definition join_run :: "pool_pc mon_label list" where
  "join_run = [M_Run 3, M_Run 3, M_Enter 3, M_Run 3, M_Run 3, M_Woken 1 Cv_True, M_Enter 1, M_Run 1, M_Run 1, M_Run 1,
     M_Run 1, M_Run 1, M_Run 1, M_Run 3, M_Run 3, M_Enter 3, M_Run 3, M_Run 3]"

definition late_run :: "pool_pc mon_label list" where
  "late_run = [M_Call 1 (PW 0 W_Start), M_Run 1, M_Run 1, M_Run 3]"

lemmas pool_run_simps = sync_run_simps pool_new_def pool_clamp_def one_worker_def create_worker_def
  idle_run_def submit_run_def work_run_def pause_run_def stop_run_def join_run_def late_run_def set_active_def

abbreviation pool_demo :: "(pool_mutex, pool_pc, pool) fifo_mon" where
  "pool_demo \<equiv> mon_init fifo_sync (pool_new 4 one_worker)"

lemma pool_work_demo:
  "\<exists>s. run (pool_step fifo_sync) (idle_run @ submit_run @ work_run) pool_demo = Some s \<and>
     executed (mon_log s) = [0] \<and> \<not> discarded (mon_log s)"
  by (simp add: pool_run_simps)

lemma pool_submit_demo:
  "\<exists>s. run (pool_step fifo_sync) (idle_run @ submit_run) pool_demo = Some s \<and>
     pl_taskQueue (mon_data s) = [0] \<and> \<not> discarded (mon_log s) \<and>
     (\<forall>u. \<not> inside pool_holds Queue_Mutex (mon_pcs s u))"
  by (simp add: pool_run_simps)

lemma pool_join_demo:
  "\<exists>s. run (pool_step fifo_sync) (idle_run @ stop_run @ join_run) pool_demo = Some s \<and> joined (mon_log s) \<and>
     (\<exists>s'. run (pool_step fifo_sync) submit_run s = Some s' \<and> pl_taskQueue (mon_data s') = [0])"
  by (simp add: pool_run_simps)

lemma pool_stop_demo:
  "\<exists>s. run (pool_step fifo_sync) (submit_run @ stop_run) pool_demo = Some s \<and>
     mon_pcs s 3 = T_At (PC C_Stop_Poll) \<and> pl_stopping (mon_data s) \<and> pl_taskQueue (mon_data s) \<noteq> [] \<and>
     pl_pendingTasks (mon_data s) \<noteq> 0 \<and> \<not> discarded (mon_log s) \<and>
     (\<forall>u k. mon_pcs s u = T_At k \<longrightarrow> \<not> past_test k) \<and>
     (\<exists>s'. run (pool_step fifo_sync) late_run s = Some s' \<and> pl_ended (mon_data s') = {0} \<and>
        length (pushed (mon_log s')) < 2 ^ 64)"
  by (simp add: pool_run_simps)

lemma pool_default_demo:
  "\<exists>s. run (pool_step fifo_sync) submit_run (mon_init fifo_sync (pool_new 4 (pool_config_default 4))) = Some s \<and>
     pushed (mon_log s) = [0] \<and> \<not> discarded (mon_log s)"
  by (simp add: pool_run_simps pool_config_default_def)

theorem pool_runs_tasks_once_in_order_witness:
  "\<exists>s :: (pool_mutex, pool_pc, pool) fifo_mon. executed (mon_log s) = [0] \<and> distinct (executed (mon_log s)) \<and>
     subseq (taken (mon_log s)) (pushed (mon_log s))"
proof -
  obtain s where s: "run (pool_step fifo_sync) (idle_run @ submit_run @ work_run) pool_demo = Some s"
    "executed (mon_log s) = [0]" using pool_work_demo by blast
  from pool_runs_tasks_once_in_order [OF fifo_sync_ok run_reach [OF s(1)]] s(2) show ?thesis by blast
qed

theorem pool_pending_is_queue_length_witness:
  "\<exists>s :: (pool_mutex, pool_pc, pool) fifo_mon. pl_taskQueue (mon_data s) = [0] \<and>
     pl_pendingTasks (mon_data s) = word_of_nat (length (pl_taskQueue (mon_data s)))"
proof -
  obtain s where s: "run (pool_step fifo_sync) (idle_run @ submit_run) pool_demo = Some s"
    "pl_taskQueue (mon_data s) = [0]" "\<not> discarded (mon_log s)"
    "\<forall>u. \<not> inside pool_holds Queue_Mutex (mon_pcs s u)" using pool_submit_demo by blast
  from pool_pending_is_queue_length [OF fifo_sync_ok run_reach [OF s(1)] s(4,3)] s(2) show ?thesis by blast
qed

theorem pool_stop_joins_workers_witness:
  "\<exists>s' :: (pool_mutex, pool_pc, pool) fifo_mon. pl_taskQueue (mon_data s') = [0] \<and>
     (\<forall>t i k. mon_pcs s' t = T_At (PW i k) \<longrightarrow> k = W_Start \<or> k = W_Ended)"
proof -
  obtain s s' where s: "run (pool_step fifo_sync) (idle_run @ stop_run @ join_run) pool_demo = Some s"
    "joined (mon_log s)" "run (pool_step fifo_sync) submit_run s = Some s'" "pl_taskQueue (mon_data s') = [0]"
    using pool_join_demo by blast
  from pool_stop_joins_workers [OF fifo_sync_ok run_reach [OF s(1)] s(2) run_reach [OF s(3)]] s(4)
  show ?thesis by blast
qed

theorem pool_stop_never_returns_witness:
  "\<exists>s' :: (pool_mutex, pool_pc, pool) fifo_mon. pl_ended (mon_data s') = {0} \<and>
     mon_pcs s' 3 = T_At (PC C_Stop_Poll)"
proof -
  obtain s s' where s: "run (pool_step fifo_sync) (submit_run @ stop_run) pool_demo = Some s"
    "mon_pcs s 3 = T_At (PC C_Stop_Poll)" "pl_stopping (mon_data s)" "pl_taskQueue (mon_data s) \<noteq> []"
    "pl_pendingTasks (mon_data s) \<noteq> 0" "\<not> discarded (mon_log s)"
    "\<forall>u k. mon_pcs s u = T_At k \<longrightarrow> \<not> past_test k" "run (pool_step fifo_sync) late_run s = Some s'"
    "pl_ended (mon_data s') = {0}" "length (pushed (mon_log s')) < 2 ^ 64"
    using pool_stop_demo by (elim exE conjE) (rule that; assumption)
  have "mon_pcs s' 3 = T_At (PC C_Stop_Poll)"
    by (rule pool_stop_never_returns [OF fifo_sync_ok run_reach [OF s(1)] s(2-6) _ run_reach [OF s(8)] s(10),
      THEN conjunct1]) (rule s(7) [rule_format])
  with s(9) show ?thesis by blast
qed

theorem pool_default_runs_nothing_witness:
  "\<exists>s :: (pool_mutex, pool_pc, pool) fifo_mon. executed (mon_log s) = [] \<and> pl_taskQueue (mon_data s) = [0]"
proof -
  obtain s where s: "run (pool_step fifo_sync) submit_run (mon_init fifo_sync (pool_new 4 (pool_config_default 4))) = Some s"
    "pushed (mon_log s) = [0]" "\<not> discarded (mon_log s)" using pool_default_demo by blast
  from pool_default_runs_nothing [OF fifo_sync_ok run_reach [OF s(1)]] s(2,3) show ?thesis by auto
qed

text \<open>
  A worker that waits for a task does not look at \<open>m_paused\<close> again: after \<open>Pause\<close> has returned,
  it takes and runs a task that is submitted only then.
\<close>

theorem pool_pause_missed:
  "\<exists>s s' :: (pool_mutex, pool_pc, pool) fifo_mon.
     run (pool_step fifo_sync) (idle_run @ pause_run) pool_demo = Some s \<and>
     pl_paused (mon_data s) \<and> pushed (mon_log s) = [] \<and>
     run (pool_step fifo_sync) (submit_run @ work_run) s = Some s' \<and>
     pl_paused (mon_data s') \<and> executed (mon_log s') = [0]"
  by (simp add: pool_run_simps)

section \<open>Critical sections are left\<close>

text \<open>How many statements a thread executes at most before it leaves or sleeps.\<close>

fun worker_rank :: "worker_pc \<Rightarrow> nat" where
  "worker_rank (W_Woken r) = 8"
| "worker_rank W_Empty = 7"
| "worker_rank W_Empty_Stop = 6"
| "worker_rank W_Take = 5"
| "worker_rank W_Take_Stop = 4"
| "worker_rank W_Front = 3"
| "worker_rank (W_Pop x) = 2"
| "worker_rank (W_Sub x) = 1"
| "worker_rank (W_Set_Active x) = 1"
| "worker_rank W_Reset_Active = 1"
| "worker_rank _ = 0"

fun client_rank :: "client_pc \<Rightarrow> pool \<Rightarrow> nat" where
  "client_rank (C_Push x) p = 2"
| "client_rank (C_Count x) p = 1"
| "client_rank C_Stop_Move p = 1"
| "client_rank C_Threads_Size p = 1"
| "client_rank C_Clear_Test p = 2 * length (pl_taskQueue p) + 1"
| "client_rank C_Clear_Pop p = (if pl_taskQueue p = [] then 2 else 2 * length (pl_taskQueue p))"
| "client_rank _ p = 0"

fun pool_rank :: "pool_pc \<Rightarrow> pool \<Rightarrow> nat" where
  "pool_rank (PW i k) p = worker_rank k"
| "pool_rank (PC k) p = client_rank k p"

lemma worker_rank_less:
  "worker_holds k = Some m \<Longrightarrow> next_inside (snd (worker_prog i k p)) = Some k' \<Longrightarrow> worker_rank k' < worker_rank k"
  by (cases k) (auto split: if_splits option.splits sum.splits)

lemma client_rank_less:
  "client_holds k = Some m \<Longrightarrow> next_inside (snd (client_prog k p)) = Some k' \<Longrightarrow>
    client_rank k' (fst (client_prog k p)) < client_rank k p"
proof (cases k)
  case C_Clear_Pop
  then show "next_inside (snd (client_prog k p)) = Some k' \<Longrightarrow> client_rank k' (fst (client_prog k p)) < client_rank k p"
    by (cases "pl_taskQueue p") auto
qed (auto split: if_splits)

interpretation pool_sections: bounded_sections pool_start pool_prog pool_holds pool_rank
proof
  show "pool_holds k = Some m \<Longrightarrow> next_inside (snd (pool_prog k d)) = Some k' \<Longrightarrow>
      pool_rank k' (fst (pool_prog k d)) < pool_rank k d" for k m d k'
    by (cases k) (auto dest: worker_rank_less client_rank_less)
qed (auto intro: pool_disciplined pool_start_free)

end
