(* ===== verification/Future_Promise.thy ===== *)
theory Future_Promise
  imports Monitor
begin

text \<open>
  Classes \<open>Future\<close> and \<open>Promise\<close> of \<open>src/src/ezthread/future.cpp\<close>. Any number of shared
  states lives in a store; a handle is the \<open>m_state\<close> of a future or a promise, a pointer to
  one of them or null.
\<close>

section \<open>Shared states and handles\<close>

record ('x, 'a) shared =
  sh_ready :: bool
  sh_hasException :: bool
  sh_value :: 'a
  sh_exception :: "'x exn option"

type_synonym handle = "nat option"

text \<open>
  What \<open>Then\<close> hands to the thread it starts: the state it waits for, the function, and the
  promise of the new future.
\<close>

type_synonym ('x, 'a) then_task = "handle \<times> ('a \<Rightarrow> ('x, 'a) result) \<times> nat"

record ('x, 'a) futures =
  fs_states :: "nat \<Rightarrow> ('x, 'a) shared"
  fs_next :: nat
  fs_tasks :: "('x, 'a) then_task list"

text \<open>
  A fresh state, with the value-initialised \<open>value\<close>. The store is a supply of fresh states,
  and the constructor of \<open>Promise\<close> takes the next one.
\<close>

definition shared_new :: "'a \<Rightarrow> ('x, 'a) shared" where
  "shared_new d = \<lparr>sh_ready = False, sh_hasException = False, sh_value = d, sh_exception = None\<rparr>"

definition futures_new :: "'a \<Rightarrow> ('x, 'a) futures" where
  "futures_new d = \<lparr>fs_states = (\<lambda>_. shared_new d), fs_next = 0, fs_tasks = []\<rparr>"

definition promise_new :: "('x, 'a) futures \<Rightarrow> handle \<times> ('x, 'a) futures" where
  "promise_new s = (Some (fs_next s), s\<lparr>fs_next := Suc (fs_next s)\<rparr>)"

text \<open>
  The move constructors and assignments of both classes, on the handles of the target and of
  the other object. An object that is assigned to itself keeps its state.
\<close>

definition handle_move :: "handle \<Rightarrow> handle \<times> handle" where
  "handle_move other = (other, None)"

definition handle_move_assign :: "bool \<Rightarrow> handle \<Rightarrow> handle \<Rightarrow> handle \<times> handle" where
  "handle_move_assign same this other = (if same then (this, this) else (other, None))"

definition promise_GetFuture :: "dword \<Rightarrow> handle \<Rightarrow> ('x, handle) result" where
  "promise_GetFuture le h =
     (case h of None \<Rightarrow> Inl (Thread_Exn ''Promise has no state'' le) | Some m \<Rightarrow> Inr (Some m))"

section \<open>The methods\<close>

datatype fut_op = Op_Get | Op_TryGet | Op_IsReady | Op_Wait | Op_WaitFor | Op_Set

text \<open>\<open>FR_Undefined\<close> is undefined behaviour: a null exception or state is dereferenced.\<close>

datatype ('x, 'a) fut_result =
    FR_Void
  | FR_Bool bool
  | FR_Value 'a
  | FR_Got 'a
  | FR_Throw "'x exn"
  | FR_Undefined

text \<open>
  The program points of the methods of \<open>Future\<close> that wait or look; of the two setters of
  \<open>Promise\<close>; and of the task that \<open>Then\<close> gives to the thread it starts. \<open>le\<close> is the last
  error of the thread, which an exception of the library carries.
\<close>

datatype ('x, 'a) get_pc =
    F_Get_Call dword handle
  | F_Get_Test nat
  | F_Get_Woken nat cv_result
  | F_Get_Exc nat
  | F_Get_Value nat
  | F_Try_Call dword handle dword
  | F_Try_Test nat dword
  | F_Try_Woken nat cv_result
  | F_Try_Exc nat
  | F_Try_Value nat
  | F_Ready_Call handle
  | F_Ready_Read nat
  | F_Wait_Call dword handle
  | F_Wait_Test nat
  | F_Wait_Woken nat cv_result
  | F_WaitFor_Call dword handle dword
  | F_WaitFor_Test nat dword
  | F_WaitFor_Woken nat cv_result
  | F_Unlock nat fut_op "('x, 'a) fut_result"
  | F_End handle fut_op "('x, 'a) fut_result"

datatype ('x, 'a) set_pc =
    S_Value_Call dword handle 'a
  | S_Value_Test dword nat 'a
  | S_Value_Write nat 'a
  | S_Exc_Call dword handle "'x exn"
  | S_Exc_Test dword nat "'x exn"
  | S_Exc_Write nat "'x exn"
  | S_Exc_Flag nat "'x exn"
  | S_Ready nat "('x, 'a) result"
  | S_Unlock nat
  | S_Notify nat
  | S_Fail nat "'x exn"
  | S_End "'x exn option"

datatype ('x, 'a) task_pc =
    K_Start dword nat
  | K_Enter dword "('x, 'a) then_task"
  | K_Test dword nat "'a \<Rightarrow> ('x, 'a) result" nat
  | K_Woken dword nat "'a \<Rightarrow> ('x, 'a) result" nat cv_result
  | K_Exc dword nat "'a \<Rightarrow> ('x, 'a) result" nat
  | K_Value dword nat "'a \<Rightarrow> ('x, 'a) result" nat
  | K_Unlock dword nat "('x, 'a) result" "'a \<Rightarrow> ('x, 'a) result" nat
  | K_Func dword nat "('x, 'a) result" "'a \<Rightarrow> ('x, 'a) result" nat
  | K_Set dword nat "('x, 'a) set_pc"
  | K_Catch "('x, 'a) set_pc"
  | K_End
  | K_Terminate
  | K_Undefined

datatype ('x, 'a) fut_pc =
    P_Get "('x, 'a) get_pc"
  | P_Set "('x, 'a) set_pc"
  | P_New
  | P_Then handle "'a \<Rightarrow> ('x, 'a) result"
  | P_Made handle
  | P_Task "('x, 'a) task_pc"

fun fut_start :: "('x, 'a) fut_pc \<Rightarrow> bool" where
  "fut_start (P_Get (F_Get_Call le h)) \<longleftrightarrow> True"
| "fut_start (P_Get (F_Try_Call le h ms)) \<longleftrightarrow> True"
| "fut_start (P_Get (F_Ready_Call h)) \<longleftrightarrow> True"
| "fut_start (P_Get (F_Wait_Call le h)) \<longleftrightarrow> True"
| "fut_start (P_Get (F_WaitFor_Call le h ms)) \<longleftrightarrow> True"
| "fut_start (P_Set (S_Value_Call le h v)) \<longleftrightarrow> True"
| "fut_start (P_Set (S_Exc_Call le h e)) \<longleftrightarrow> True"
| "fut_start P_New \<longleftrightarrow> True"
| "fut_start (P_Then h f) \<longleftrightarrow> True"
| "fut_start (P_Task (K_Start le n)) \<longleftrightarrow> True"
| "fut_start _ \<longleftrightarrow> False"

definition fs_update ::
  "nat \<Rightarrow> (('x, 'a) shared \<Rightarrow> ('x, 'a) shared) \<Rightarrow> ('x, 'a) futures \<Rightarrow> ('x, 'a) futures" where
  "fs_update m f s = s\<lparr>fs_states := (fs_states s)(m := f (fs_states s m))\<rparr>"

definition rethrown :: "('x, 'a) shared \<Rightarrow> ('x, 'a) fut_result" where
  "rethrown sh = (case sh_exception sh of None \<Rightarrow> FR_Undefined | Some e \<Rightarrow> FR_Throw e)"

text \<open>A method of \<open>Future\<close> on a null state, and on the state \<open>m\<close>.\<close>

definition fut_no_state :: "dword \<Rightarrow> ('x, 'a) fut_result" where
  "fut_no_state le = FR_Throw (Thread_Exn ''Future has no state'' le)"

fun fut_get_prog ::
  "(dword \<Rightarrow> string) \<Rightarrow> ('x, 'a) get_pc \<Rightarrow> ('x, 'a) futures \<Rightarrow> (nat, ('x, 'a) get_pc) instr" where
  "fut_get_prog fmt (F_Get_Call le h) s =
     (case h of
        None \<Rightarrow> I_Goto (F_End None Op_Get (fut_no_state le))
      | Some m \<Rightarrow> I_Enter m (F_Get_Test m))"
| "fut_get_prog fmt (F_Get_Test m) s =
     (if \<not> sh_ready (fs_states s m) then I_Sleep m INFINITE (F_Get_Woken m) else I_Goto (F_Get_Exc m))"
| "fut_get_prog fmt (F_Get_Woken m r) s =
     (case cv_Wait fmt r of
        Inl e \<Rightarrow> I_Goto (F_Unlock m Op_Get (FR_Throw e))
      | Inr u \<Rightarrow> I_Goto (F_Get_Test m))"
| "fut_get_prog fmt (F_Get_Exc m) s =
     (if sh_hasException (fs_states s m) then I_Goto (F_Unlock m Op_Get (rethrown (fs_states s m)))
      else I_Goto (F_Get_Value m))"
| "fut_get_prog fmt (F_Get_Value m) s =
     I_Goto (F_Unlock m Op_Get (FR_Value (sh_value (fs_states s m))))"
| "fut_get_prog fmt (F_Try_Call le h ms) s =
     (case h of
        None \<Rightarrow> I_Goto (F_End None Op_TryGet (fut_no_state le))
      | Some m \<Rightarrow> I_Enter m (F_Try_Test m ms))"
| "fut_get_prog fmt (F_Try_Test m ms) s =
     (if \<not> sh_ready (fs_states s m) then I_Sleep m ms (F_Try_Woken m) else I_Goto (F_Try_Exc m))"
| "fut_get_prog fmt (F_Try_Woken m r) s =
     (case cv_WaitFor r of
        Inl e \<Rightarrow> I_Goto (F_Unlock m Op_TryGet (FR_Throw e))
      | Inr ok \<Rightarrow> if \<not> ok then I_Goto (F_Unlock m Op_TryGet (FR_Bool False)) else I_Goto (F_Try_Exc m))"
| "fut_get_prog fmt (F_Try_Exc m) s =
     (if sh_hasException (fs_states s m) then I_Goto (F_Unlock m Op_TryGet (rethrown (fs_states s m)))
      else I_Goto (F_Try_Value m))"
| "fut_get_prog fmt (F_Try_Value m) s =
     I_Goto (F_Unlock m Op_TryGet (FR_Got (sh_value (fs_states s m))))"
| "fut_get_prog fmt (F_Ready_Call h) s =
     (case h of
        None \<Rightarrow> I_Goto (F_End None Op_IsReady (FR_Bool False))
      | Some m \<Rightarrow> I_Enter m (F_Ready_Read m))"
| "fut_get_prog fmt (F_Ready_Read m) s =
     I_Goto (F_Unlock m Op_IsReady (FR_Bool (sh_ready (fs_states s m))))"
| "fut_get_prog fmt (F_Wait_Call le h) s =
     (case h of
        None \<Rightarrow> I_Goto (F_End None Op_Wait (fut_no_state le))
      | Some m \<Rightarrow> I_Enter m (F_Wait_Test m))"
| "fut_get_prog fmt (F_Wait_Test m) s =
     (if \<not> sh_ready (fs_states s m) then I_Sleep m INFINITE (F_Wait_Woken m)
      else I_Goto (F_Unlock m Op_Wait FR_Void))"
| "fut_get_prog fmt (F_Wait_Woken m r) s =
     (case cv_Wait fmt r of
        Inl e \<Rightarrow> I_Goto (F_Unlock m Op_Wait (FR_Throw e))
      | Inr u \<Rightarrow> I_Goto (F_Wait_Test m))"
| "fut_get_prog fmt (F_WaitFor_Call le h ms) s =
     (case h of
        None \<Rightarrow> I_Goto (F_End None Op_WaitFor (fut_no_state le))
      | Some m \<Rightarrow> I_Enter m (F_WaitFor_Test m ms))"
| "fut_get_prog fmt (F_WaitFor_Test m ms) s =
     (if \<not> sh_ready (fs_states s m) then I_Sleep m ms (F_WaitFor_Woken m)
      else I_Goto (F_Unlock m Op_WaitFor (FR_Bool True)))"
| "fut_get_prog fmt (F_WaitFor_Woken m r) s =
     (case cv_WaitFor r of
        Inl e \<Rightarrow> I_Goto (F_Unlock m Op_WaitFor (FR_Throw e))
      | Inr ok \<Rightarrow> I_Goto (F_Unlock m Op_WaitFor (FR_Bool ok)))"
| "fut_get_prog fmt (F_Unlock m op r) s = I_Leave m (F_End (Some m) op r)"
| "fut_get_prog fmt (F_End h op r) s = I_Finish (F_End h op r)"

text \<open>The setters: the critical section is left before \<open>NotifyAll\<close> is called.\<close>

definition already_satisfied :: "dword \<Rightarrow> 'x exn" where
  "already_satisfied le = Thread_Exn ''Promise already satisfied'' le"

fun fut_set_prog ::
  "('x, 'a) set_pc \<Rightarrow> ('x, 'a) futures \<Rightarrow> ('x, 'a) futures \<times> (nat, ('x, 'a) set_pc) instr" where
  "fut_set_prog (S_Value_Call le h v) s =
     (s, case h of
           None \<Rightarrow> I_Goto (S_End (Some (Thread_Exn ''Promise has no state'' le)))
         | Some m \<Rightarrow> I_Enter m (S_Value_Test le m v))"
| "fut_set_prog (S_Value_Test le m v) s =
     (s, if sh_ready (fs_states s m) then I_Goto (S_Fail m (already_satisfied le))
         else I_Goto (S_Value_Write m v))"
| "fut_set_prog (S_Value_Write m v) s =
     (fs_update m (sh_value_update (\<lambda>_. v)) s, I_Goto (S_Ready m (Inr v)))"
| "fut_set_prog (S_Exc_Call le h e) s =
     (s, case h of
           None \<Rightarrow> I_Goto (S_End (Some (Thread_Exn ''Promise has no state'' le)))
         | Some m \<Rightarrow> I_Enter m (S_Exc_Test le m e))"
| "fut_set_prog (S_Exc_Test le m e) s =
     (s, if sh_ready (fs_states s m) then I_Goto (S_Fail m (already_satisfied le))
         else I_Goto (S_Exc_Write m e))"
| "fut_set_prog (S_Exc_Write m e) s =
     (fs_update m (sh_exception_update (\<lambda>_. Some e)) s, I_Goto (S_Exc_Flag m e))"
| "fut_set_prog (S_Exc_Flag m e) s =
     (fs_update m (sh_hasException_update (\<lambda>_. True)) s, I_Goto (S_Ready m (Inl e)))"
| "fut_set_prog (S_Ready m r) s =
     (fs_update m (sh_ready_update (\<lambda>_. True)) s, I_Goto (S_Unlock m))"
| "fut_set_prog (S_Unlock m) s = (s, I_Leave m (S_Notify m))"
| "fut_set_prog (S_Notify m) s = (s, I_Wake_All m (S_End None))"
| "fut_set_prog (S_Fail m e) s = (s, I_Leave m (S_End (Some e)))"
| "fut_set_prog (S_End r) s = (s, I_Finish (S_End r))"

text \<open>
  \<open>Then\<close> allocates the new promise and starts a thread for the task; a thread of the system
  that begins to run takes any task that is waiting to be started, and spins until there is
  one. An exception of the task is passed to \<open>SetException\<close>, and one thrown there ends the
  program.
\<close>

definition fut_then ::
  "handle \<Rightarrow> ('a \<Rightarrow> ('x, 'a) result) \<Rightarrow> ('x, 'a) futures \<Rightarrow> handle \<times> ('x, 'a) futures" where
  "fut_then h f s =
     (case promise_new s of
        (p, s') \<Rightarrow> (p, s'\<lparr>fs_tasks := fs_tasks s' @ [(h, f, the p)]\<rparr>))"

fun in_setter :: "('x, 'a) set_pc \<Rightarrow> 'x exn option option" where
  "in_setter (S_End r) = Some r"
| "in_setter _ = None"

fun fut_task_prog ::
  "(dword \<Rightarrow> string) \<Rightarrow> ('x, 'a) task_pc \<Rightarrow> ('x, 'a) futures \<Rightarrow>
   ('x, 'a) futures \<times> (nat, ('x, 'a) task_pc) instr" where
  "fut_task_prog fmt (K_Start le n) s =
     (if n < length (fs_tasks s)
      then (s\<lparr>fs_tasks := take n (fs_tasks s) @ drop (Suc n) (fs_tasks s)\<rparr>,
            I_Goto (K_Enter le (fs_tasks s ! n)))
      else (s, I_Goto (K_Start le n)))"
| "fut_task_prog fmt (K_Enter le (h, f, p)) s =
     (s, case h of None \<Rightarrow> I_Goto K_Undefined | Some m \<Rightarrow> I_Enter m (K_Test le m f p))"
| "fut_task_prog fmt (K_Test le m f p) s =
     (s, if \<not> sh_ready (fs_states s m) then I_Sleep m INFINITE (K_Woken le m f p)
         else I_Goto (K_Exc le m f p))"
| "fut_task_prog fmt (K_Woken le m f p r) s =
     (s, case cv_Wait fmt r of
           Inl e \<Rightarrow> I_Goto (K_Unlock le m (Inl e) f p)
         | Inr u \<Rightarrow> I_Goto (K_Test le m f p))"
| "fut_task_prog fmt (K_Exc le m f p) s =
     (s, if sh_hasException (fs_states s m)
         then (case sh_exception (fs_states s m) of
                 None \<Rightarrow> I_Leave m K_Undefined
               | Some e \<Rightarrow> I_Goto (K_Unlock le m (Inl e) f p))
         else I_Goto (K_Value le m f p))"
| "fut_task_prog fmt (K_Value le m f p) s =
     (s, I_Goto (K_Unlock le m (Inr (sh_value (fs_states s m))) f p))"
| "fut_task_prog fmt (K_Unlock le m r f p) s = (s, I_Leave m (K_Func le m r f p))"
| "fut_task_prog fmt (K_Func le m r f p) s =
     (s, case r of
           Inl e \<Rightarrow> I_Goto (K_Catch (S_Exc_Call le (Some p) e))
         | Inr v \<Rightarrow>
             (case f v of
                Inl e \<Rightarrow> I_Goto (K_Catch (S_Exc_Call le (Some p) e))
              | Inr w \<Rightarrow> I_Goto (K_Set le p (S_Value_Call le (Some p) w))))"
| "fut_task_prog fmt (K_Set le p k) s =
     (case in_setter k of
        Some r \<Rightarrow> (s, case r of
            None \<Rightarrow> I_Goto K_End
          | Some e \<Rightarrow> I_Goto (K_Catch (S_Exc_Call le (Some p) e)))
      | None \<Rightarrow> apsnd (map_instr id (K_Set le p)) (fut_set_prog k s))"
| "fut_task_prog fmt (K_Catch k) s =
     (case in_setter k of
        Some r \<Rightarrow> (s, case r of None \<Rightarrow> I_Goto K_End | Some e \<Rightarrow> I_Goto K_Terminate)
      | None \<Rightarrow> apsnd (map_instr id K_Catch) (fut_set_prog k s))"
| "fut_task_prog fmt K_End s = (s, I_Finish K_End)"
| "fut_task_prog fmt K_Terminate s = (s, I_Finish K_Terminate)"
| "fut_task_prog fmt K_Undefined s = (s, I_Finish K_Undefined)"

fun fut_prog ::
  "(dword \<Rightarrow> string) \<Rightarrow> ('x, 'a) fut_pc \<Rightarrow> ('x, 'a) futures \<Rightarrow>
   ('x, 'a) futures \<times> (nat, ('x, 'a) fut_pc) instr" where
  "fut_prog fmt (P_Get k) s = (s, map_instr id P_Get (fut_get_prog fmt k s))"
| "fut_prog fmt (P_Set k) s = apsnd (map_instr id P_Set) (fut_set_prog k s)"
| "fut_prog fmt P_New s = (case promise_new s of (p, s') \<Rightarrow> (s', I_Goto (P_Made p)))"
| "fut_prog fmt (P_Then h f) s = (case fut_then h f s of (p, s') \<Rightarrow> (s', I_Goto (P_Made p)))"
| "fut_prog fmt (P_Made h) s = (s, I_Finish (P_Made h))"
| "fut_prog fmt (P_Task k) s = apsnd (map_instr id P_Task) (fut_task_prog fmt k s)"

abbreviation fut_step ::
  "('c, 'v) win_sync \<Rightarrow> (dword \<Rightarrow> string) \<Rightarrow> ('x, 'a) fut_pc mon_label \<Rightarrow>
   ('c, 'v, nat, ('x, 'a) fut_pc, ('x, 'a) futures) mon \<Rightarrow>
   ('c, 'v, nat, ('x, 'a) fut_pc, ('x, 'a) futures) mon option" where
  "fut_step api fmt \<equiv> mon_step api fut_start (fut_prog fmt)"

section \<open>The invariant\<close>

text \<open>The lock discipline, and the setter that a thread is in.\<close>

fun get_holds :: "('x, 'a) get_pc \<Rightarrow> nat option" where
  "get_holds (F_Get_Test m) = Some m"
| "get_holds (F_Get_Woken m r) = Some m"
| "get_holds (F_Get_Exc m) = Some m"
| "get_holds (F_Get_Value m) = Some m"
| "get_holds (F_Try_Test m ms) = Some m"
| "get_holds (F_Try_Woken m r) = Some m"
| "get_holds (F_Try_Exc m) = Some m"
| "get_holds (F_Try_Value m) = Some m"
| "get_holds (F_Ready_Read m) = Some m"
| "get_holds (F_Wait_Test m) = Some m"
| "get_holds (F_Wait_Woken m r) = Some m"
| "get_holds (F_WaitFor_Test m ms) = Some m"
| "get_holds (F_WaitFor_Woken m r) = Some m"
| "get_holds (F_Unlock m op r) = Some m"
| "get_holds _ = None"

fun set_holds :: "('x, 'a) set_pc \<Rightarrow> nat option" where
  "set_holds (S_Value_Test le m v) = Some m"
| "set_holds (S_Value_Write m v) = Some m"
| "set_holds (S_Exc_Test le m e) = Some m"
| "set_holds (S_Exc_Write m e) = Some m"
| "set_holds (S_Exc_Flag m e) = Some m"
| "set_holds (S_Ready m r) = Some m"
| "set_holds (S_Unlock m) = Some m"
| "set_holds (S_Fail m e) = Some m"
| "set_holds _ = None"

fun task_holds :: "('x, 'a) task_pc \<Rightarrow> nat option" where
  "task_holds (K_Test le m f p) = Some m"
| "task_holds (K_Woken le m f p r) = Some m"
| "task_holds (K_Exc le m f p) = Some m"
| "task_holds (K_Value le m f p) = Some m"
| "task_holds (K_Unlock le m r f p) = Some m"
| "task_holds (K_Set le p k) = set_holds k"
| "task_holds (K_Catch k) = set_holds k"
| "task_holds _ = None"

fun fut_holds :: "('x, 'a) fut_pc \<Rightarrow> nat option" where
  "fut_holds (P_Get k) = get_holds k"
| "fut_holds (P_Set k) = set_holds k"
| "fut_holds (P_Task k) = task_holds k"
| "fut_holds _ = None"

fun setting :: "('x, 'a) fut_pc \<Rightarrow> ('x, 'a) set_pc option" where
  "setting (P_Set k) = Some k"
| "setting (P_Task (K_Set le p k)) = Some k"
| "setting (P_Task (K_Catch k)) = Some k"
| "setting _ = None"

text \<open>The outcomes that the setters have made ready in the state \<open>m\<close>, in order.\<close>

fun made_ready :: "nat \<Rightarrow> tid \<times> ('x, 'a) fut_pc \<Rightarrow> ('x, 'a) result option" where
  "made_ready m (t, k) = (case setting k of Some (S_Ready m' r) \<Rightarrow> if m' = m then Some r else None | _ \<Rightarrow> None)"

definition outcomes :: "nat \<Rightarrow> (tid \<times> ('x, 'a) fut_pc) list \<Rightarrow> ('x, 'a) result list" where
  "outcomes m lg = List.map_filter (made_ready m) lg"

lemma outcomes_simps [simp]:
  "outcomes m [] = []" "outcomes m (lg @ lg') = outcomes m lg @ outcomes m lg'"
  "outcomes m (x # lg) = (case made_ready m x of None \<Rightarrow> [] | Some r \<Rightarrow> [r]) @ outcomes m lg"
  by (auto simp: outcomes_def map_filter_def split: option.splits)

text \<open>
  What a shared state says of its outcomes: at most one has been made ready, and it is the
  one that the fields hold.
\<close>

fun fut_state :: "'a \<Rightarrow> ('x, 'a) shared \<Rightarrow> ('x, 'a) result list \<Rightarrow> bool" where
  "fut_state d sh [] \<longleftrightarrow> \<not> sh_ready sh \<and> \<not> sh_hasException sh \<and> sh_value sh = d"
| "fut_state d sh [Inr v] \<longleftrightarrow> sh_ready sh \<and> \<not> sh_hasException sh \<and> sh_value sh = v"
| "fut_state d sh [Inl e] \<longleftrightarrow> sh_ready sh \<and> sh_hasException sh \<and> sh_exception sh = Some e"
| "fut_state d sh _ \<longleftrightarrow> False"

lemma fut_state_ready: "fut_state d sh rs \<Longrightarrow> sh_ready sh \<longleftrightarrow> rs \<noteq> []"
  by (cases "(d, sh, rs)" rule: fut_state.cases) auto

lemma fut_state_exception:
  "fut_state d sh rs \<Longrightarrow> sh_hasException sh \<longleftrightarrow> (\<exists>e. rs = [Inl e] \<and> sh_exception sh = Some e)"
  by (cases "(d, sh, rs)" rule: fut_state.cases) auto

lemma fut_state_value:
  "fut_state d sh rs \<Longrightarrow> \<not> sh_hasException sh \<Longrightarrow> rs \<noteq> [] \<Longrightarrow> rs = [Inr (sh_value sh)]"
  by (cases "(d, sh, rs)" rule: fut_state.cases) auto

lemma fut_state_once: "fut_state d sh rs \<Longrightarrow> length rs \<le> 1"
  by (cases "(d, sh, rs)" rule: fut_state.cases) auto

text \<open>
  What a call may return, by the outcomes of its state. The exception of a sleep that fails
  is the only other way out of \<open>Get\<close>, \<open>Wait\<close> and the task of \<open>Then\<close>.
\<close>

definition sleep_failed :: "(dword \<Rightarrow> string) \<Rightarrow> 'x exn \<Rightarrow> bool" where
  "sleep_failed fmt e \<longleftrightarrow> (\<exists>w. e = Thread_Exn (fmt w) w \<or> e = Thread_Exn ''SleepConditionVariableCS failed'' w)"

definition outcome_ok :: "(dword \<Rightarrow> string) \<Rightarrow> ('x, 'a) result \<Rightarrow> ('x, 'a) result list \<Rightarrow> bool" where
  "outcome_ok fmt r rs \<longleftrightarrow> rs = [r] \<or> (\<exists>e. r = Inl e \<and> sleep_failed fmt e)"

fun result_ok :: "(dword \<Rightarrow> string) \<Rightarrow> 'a \<Rightarrow> fut_op \<Rightarrow> ('x, 'a) fut_result \<Rightarrow> ('x, 'a) result list \<Rightarrow> bool" where
  "result_ok fmt d Op_Get (FR_Value v) rs \<longleftrightarrow> rs = [Inr v]"
| "result_ok fmt d Op_Get (FR_Throw e) rs \<longleftrightarrow> outcome_ok fmt (Inl e) rs"
| "result_ok fmt d Op_Get _ rs \<longleftrightarrow> False"
| "result_ok fmt d Op_TryGet (FR_Got v) rs \<longleftrightarrow> rs = [Inr v] \<or> v = d"
| "result_ok fmt d Op_TryGet (FR_Throw e) rs \<longleftrightarrow> outcome_ok fmt (Inl e) rs"
| "result_ok fmt d Op_TryGet (FR_Bool b) rs \<longleftrightarrow> \<not> b"
| "result_ok fmt d Op_TryGet _ rs \<longleftrightarrow> False"
| "result_ok fmt d Op_IsReady (FR_Bool b) rs \<longleftrightarrow> (b \<longrightarrow> rs \<noteq> [])"
| "result_ok fmt d Op_Wait FR_Void rs \<longleftrightarrow> rs \<noteq> []"
| "result_ok fmt d Op_Wait (FR_Value v) rs \<longleftrightarrow> False"
| "result_ok fmt d op r rs \<longleftrightarrow> r \<noteq> FR_Undefined"

text \<open>At a point inside the critical section of its state, and after it.\<close>

fun get_inside :: "(dword \<Rightarrow> string) \<Rightarrow> 'a \<Rightarrow> ('x, 'a) result list \<Rightarrow> ('x, 'a) get_pc \<Rightarrow> bool" where
  "get_inside fmt d rs (F_Get_Exc m) \<longleftrightarrow> rs \<noteq> []"
| "get_inside fmt d rs (F_Get_Value m) \<longleftrightarrow> (\<exists>v. rs = [Inr v])"
| "get_inside fmt d rs (F_Try_Value m) \<longleftrightarrow> (\<forall>e. rs \<noteq> [Inl e])"
| "get_inside fmt d rs (F_Unlock m op r) \<longleftrightarrow> result_ok fmt d op r rs"
| "get_inside fmt d rs _ \<longleftrightarrow> True"

fun set_inside :: "'a \<Rightarrow> ('x, 'a) shared \<Rightarrow> ('x, 'a) result list \<Rightarrow> ('x, 'a) set_pc \<Rightarrow> bool" where
  "set_inside d sh rs (S_Value_Write m v) \<longleftrightarrow> fut_state d sh rs \<and> rs = []"
| "set_inside d sh rs (S_Exc_Write m e) \<longleftrightarrow> fut_state d sh rs \<and> rs = []"
| "set_inside d sh rs (S_Exc_Flag m e) \<longleftrightarrow> fut_state d sh rs \<and> rs = [] \<and> sh_exception sh = Some e"
| "set_inside d sh rs (S_Ready m (Inr v)) \<longleftrightarrow>
     rs = [] \<and> \<not> sh_ready sh \<and> \<not> sh_hasException sh \<and> sh_value sh = v"
| "set_inside d sh rs (S_Ready m (Inl e)) \<longleftrightarrow>
     rs = [] \<and> \<not> sh_ready sh \<and> sh_hasException sh \<and> sh_exception sh = Some e"
| "set_inside d sh rs (S_Unlock m) \<longleftrightarrow> fut_state d sh rs \<and> rs \<noteq> []"
| "set_inside d sh rs _ \<longleftrightarrow> fut_state d sh rs"

fun task_inside :: "(dword \<Rightarrow> string) \<Rightarrow> ('x, 'a) result list \<Rightarrow> ('x, 'a) task_pc \<Rightarrow> bool" where
  "task_inside fmt rs (K_Exc le m f p) \<longleftrightarrow> rs \<noteq> []"
| "task_inside fmt rs (K_Value le m f p) \<longleftrightarrow> (\<exists>v. rs = [Inr v])"
| "task_inside fmt rs (K_Unlock le m r f p) \<longleftrightarrow> outcome_ok fmt r rs"
| "task_inside fmt rs _ \<longleftrightarrow> True"

definition fut_inside ::
  "(dword \<Rightarrow> string) \<Rightarrow> 'a \<Rightarrow> ('x, 'a) shared \<Rightarrow> ('x, 'a) result list \<Rightarrow> ('x, 'a) fut_pc \<Rightarrow> bool" where
  "fut_inside fmt d sh rs k \<longleftrightarrow>
     (case setting k of Some k' \<Rightarrow> set_inside d sh rs k' | None \<Rightarrow> fut_state d sh rs) \<and>
     (case k of P_Get g \<Rightarrow> get_inside fmt d rs g | P_Task g \<Rightarrow> task_inside fmt rs g | _ \<Rightarrow> True)"

fun fut_after :: "(dword \<Rightarrow> string) \<Rightarrow> 'a \<Rightarrow> (nat \<Rightarrow> ('x, 'a) result list) \<Rightarrow> ('x, 'a) fut_pc \<Rightarrow> bool" where
  "fut_after fmt d R (P_Get (F_End (Some m) op r)) \<longleftrightarrow> result_ok fmt d op r (R m)"
| "fut_after fmt d R (P_Task (K_Func le m r f p)) \<longleftrightarrow> outcome_ok fmt r (R m)"
| "fut_after fmt d R _ \<longleftrightarrow> True"

definition fut_plain :: "(dword \<Rightarrow> string) \<Rightarrow> 'a \<Rightarrow> ('x, 'a) fut_pc \<Rightarrow> bool" where
  "fut_plain fmt d k \<longleftrightarrow> (\<forall>sh rs. fut_state d sh rs \<longrightarrow> fut_inside fmt d sh rs k) \<and> (\<forall>R. fut_after fmt d R k)"

fun fut_thread ::
  "(dword \<Rightarrow> string) \<Rightarrow> 'a \<Rightarrow> (nat \<Rightarrow> ('x, 'a) shared) \<Rightarrow> (nat \<Rightarrow> ('x, 'a) result list) \<Rightarrow>
   (nat, ('x, 'a) fut_pc) thread_pc \<Rightarrow> bool" where
  "fut_thread fmt d st R (T_At k) \<longleftrightarrow>
     (\<forall>m. fut_holds k = Some m \<longrightarrow> fut_inside fmt d (st m) (R m) k) \<and> fut_after fmt d R k"
| "fut_thread fmt d st R (T_Entering m k) \<longleftrightarrow> fut_plain fmt d k"
| "fut_thread fmt d st R (T_Asleep m ms f) \<longleftrightarrow> (\<forall>r. fut_plain fmt d (f r))"
| "fut_thread fmt d st R _ \<longleftrightarrow> True"

text \<open>A thread that no wake has reached sleeps at a state without outcome, or one about to be notified.\<close>

definition fut_notifying :: "nat \<Rightarrow> (tid \<Rightarrow> (nat, ('x, 'a) fut_pc) thread_pc) \<Rightarrow> bool" where
  "fut_notifying m pcs \<longleftrightarrow>
     (\<exists>u k. pcs u = T_At k \<and> (setting k = Some (S_Unlock m) \<or> setting k = Some (S_Notify m)))"

definition fut_sleepers ::
  "(nat \<Rightarrow> ('x, 'a) result list) \<Rightarrow> (tid \<Rightarrow> (nat, ('x, 'a) fut_pc) thread_pc) \<Rightarrow>
   (nat \<Rightarrow> tid \<Rightarrow> bool) \<Rightarrow> bool" where
  "fut_sleepers R pcs A \<longleftrightarrow>
     (\<forall>m t. A m t \<longrightarrow> (\<exists>ms f. pcs t = T_Asleep m ms f) \<and> (R m = [] \<or> fut_notifying m pcs))"

definition fut_J ::
  "(dword \<Rightarrow> string) \<Rightarrow> 'a \<Rightarrow> ('x, 'a) futures \<Rightarrow> (tid \<Rightarrow> (nat, ('x, 'a) fut_pc) thread_pc) \<Rightarrow>
   (tid \<times> ('x, 'a) fut_pc) list \<Rightarrow> (nat \<Rightarrow> tid \<Rightarrow> bool) \<Rightarrow> bool" where
  "fut_J fmt d s pcs lg A \<longleftrightarrow>
     (\<forall>t. fut_thread fmt d (fs_states s) (\<lambda>m. outcomes m lg) (pcs t)) \<and>
     (\<forall>m. (\<forall>t. \<not> inside fut_holds m (pcs t)) \<longrightarrow> fut_state d (fs_states s m) (outcomes m lg)) \<and>
     log_ok (\<lambda>lg. fut_after fmt d (\<lambda>m. outcomes m lg)) lg \<and>
     fut_sleepers (\<lambda>m. outcomes m lg) pcs A"

lemma result_ok_mono: "result_ok fmt d op r [] \<Longrightarrow> result_ok fmt d op r rs"
  by (cases op; cases r) (auto simp: outcome_ok_def)

lemma fut_after_mono:
  assumes "fut_after fmt d R k" and "\<And>m. R m = [] \<or> R' m = R m"
  shows "fut_after fmt d R' k"
  using assms
proof (cases "(fmt, d, R, k)" rule: fut_after.cases)
  case (1 fmt' d' R'' m op r)
  with assms(1) assms(2) [of m] show ?thesis by (auto intro: result_ok_mono)
next
  case (2 fmt' d' R'' le m r f p)
  with assms(1) assms(2) [of m] show ?thesis by (auto simp: outcome_ok_def)
qed auto

lemma fut_thread_other:
  assumes "fut_thread fmt d st R pc"
    and "\<And>m. st' m = st m \<and> R' m = R m \<or> \<not> inside fut_holds m pc \<and> (R m = [] \<or> R' m = R m)"
  shows "fut_thread fmt d st' R' pc"
proof (cases pc)
  case (T_At k)
  have "fut_after fmt d R' k" using assms T_At by (auto intro: fut_after_mono)
  moreover have "fut_inside fmt d (st' m) (R' m) k" if "fut_holds k = Some m" for m
    using assms(1) assms(2) [of m] T_At that by auto
  ultimately show ?thesis using T_At by simp
qed (use assms in auto)

lemma fut_J_upd:
  assumes J: "fut_J fmt d s pcs lg A"
    and others: "\<And>m u. u \<noteq> t \<Longrightarrow> fs_states s' m = fs_states s m \<and> outcomes m lg' = outcomes m lg \<or>
      \<not> inside fut_holds m (pcs u) \<and> (outcomes m lg = [] \<or> outcomes m lg' = outcomes m lg)"
    and rest: "\<And>m. (\<forall>u. \<not> inside fut_holds m ((pcs(t := pc)) u)) \<Longrightarrow>
      fut_state d (fs_states s' m) (outcomes m lg')"
    and new: "fut_thread fmt d (fs_states s') (\<lambda>m. outcomes m lg') pc"
    and hist: "log_ok (\<lambda>lg. fut_after fmt d (\<lambda>m. outcomes m lg)) lg'"
    and sl: "fut_sleepers (\<lambda>m. outcomes m lg') (pcs(t := pc)) A'"
  shows "fut_J fmt d s' (pcs(t := pc)) lg' A'"
proof -
  have "fut_thread fmt d (fs_states s') (\<lambda>m. outcomes m lg') ((pcs(t := pc)) u)" for u
  proof (cases "u = t")
    case False
    have "fut_thread fmt d (fs_states s) (\<lambda>m. outcomes m lg) (pcs u)" using J by (simp add: fut_J_def)
    then have "fut_thread fmt d (fs_states s') (\<lambda>m. outcomes m lg') (pcs u)"
      by (rule fut_thread_other) (use others [OF False] in blast)
    with False show ?thesis by simp
  qed (use new in simp)
  with rest hist sl show ?thesis by (simp add: fut_J_def)
qed

lemma fut_sleepers_upd:
  assumes "fut_sleepers R pcs A" and "\<And>m ms f. pcs t \<noteq> T_Asleep m ms f"
    and "\<And>m. fut_notifying m pcs \<Longrightarrow> \<not> fut_notifying m (pcs(t := pc)) \<Longrightarrow> \<forall>u. \<not> A' m u"
    and "\<And>m. R' m \<noteq> R m \<Longrightarrow> fut_notifying m (pcs(t := pc))"
    and "\<And>m u. A' m u \<Longrightarrow> A m u"
  shows "fut_sleepers R' (pcs(t := pc)) A'"
  unfolding fut_sleepers_def
proof (intro allI impI)
  fix m u assume u: "A' m u"
  then have "(\<exists>ms f. pcs u = T_Asleep m ms f) \<and> (R m = [] \<or> fut_notifying m pcs)"
    using assms(1,5) unfolding fut_sleepers_def by blast
  moreover from this assms(2) have "u \<noteq> t" by metis
  ultimately show "(\<exists>ms f. (pcs(t := pc)) u = T_Asleep m ms f) \<and> (R' m = [] \<or> fut_notifying m (pcs(t := pc)))"
    using assms(3) [of m] assms(4) [of m] u by (metis fun_upd_apply)
qed

text \<open>A thread that is neither about to leave a setter nor about to notify.\<close>

definition fut_quiet :: "nat \<Rightarrow> (nat, ('x, 'a) fut_pc) thread_pc \<Rightarrow> bool" where
  "fut_quiet m pc \<longleftrightarrow> (\<forall>k. pc = T_At k \<longrightarrow> setting k \<noteq> Some (S_Unlock m) \<and> setting k \<noteq> Some (S_Notify m))"

lemma fut_notifying_upd: "fut_notifying m pcs \<Longrightarrow> fut_quiet m (pcs t) \<Longrightarrow> fut_notifying m (pcs(t := pc))"
  unfolding fut_notifying_def fut_quiet_def by (metis fun_upd_apply)

lemma fut_notifying_new:
  "setting k = Some (S_Unlock m) \<or> setting k = Some (S_Notify m) \<Longrightarrow> fut_notifying m (pcs(t := T_At k))"
  unfolding fut_notifying_def by (metis fun_upd_same)

lemma fut_sleepers_quiet:
  assumes "fut_sleepers R pcs A" and "\<And>m ms f. pcs t \<noteq> T_Asleep m ms f" and "\<And>m. fut_quiet m (pcs t)"
  shows "fut_sleepers R (pcs(t := pc)) A"
  by (rule fut_sleepers_upd [OF assms(1,2)]) (use fut_notifying_upd [where pcs = pcs and pc = pc, OF _ assms(3)] in blast)+

lemma fut_J_call:
  assumes J: "fut_J fmt d s pcs lg A" and pc: "pcs t = T_Idle \<or> pcs t = T_Ended k'" and "fut_start k"
  shows "fut_J fmt d s (pcs(t := T_At k)) lg A"
proof -
  have k: "fut_holds k = None" "\<And>R. fut_after fmt d R k"
    using assms(3) by (cases k rule: fut_start.cases; auto)+
  have "fut_sleepers (\<lambda>m. outcomes m lg) (pcs(t := T_At k)) A"
    by (rule fut_sleepers_quiet) (use J pc in \<open>auto simp: fut_J_def fut_quiet_def\<close>)
  moreover have "inside fut_holds m ((pcs(t := T_At k)) u) \<longleftrightarrow> inside fut_holds m (pcs u)" for m u
    using pc k by auto
  ultimately show ?thesis
    by (intro fut_J_upd [OF J]) (use J k in \<open>auto simp: fut_J_def\<close>)
qed

lemma fut_J_enter:
  assumes J: "fut_J fmt d s pcs lg A" and pc: "pcs t = T_Entering m k" and k: "fut_holds k = Some m"
    and free: "\<And>u. \<not> inside fut_holds m (pcs u)"
  shows "fut_J fmt d s (pcs(t := T_At k)) lg A"
proof -
  have plain: "fut_plain fmt d k" using J pc unfolding fut_J_def by (metis fut_thread.simps(2))
  have st: "fut_state d (fs_states s m) (outcomes m lg)" using J free by (simp add: fut_J_def)
  have "fut_sleepers (\<lambda>m. outcomes m lg) (pcs(t := T_At k)) A"
    by (rule fut_sleepers_quiet) (use J pc in \<open>auto simp: fut_J_def fut_quiet_def\<close>)
  moreover have "fut_state d (fs_states s m') (outcomes m' lg)"
    if out: "\<forall>u. \<not> inside fut_holds m' ((pcs(t := T_At k)) u)" for m'
  proof -
    have "\<not> inside fut_holds m' (pcs u)" for u using out [rule_format, of u] pc by (cases "u = t") auto
    with J show ?thesis by (simp add: fut_J_def)
  qed
  ultimately show ?thesis
    by (intro fut_J_upd [OF J]) (use J plain st k in \<open>auto simp: fut_J_def fut_plain_def\<close>)
qed

lemma fut_J_woken:
  assumes J: "fut_J fmt d s pcs lg A" and pc: "pcs t = T_Asleep m ms f"
  shows "fut_J fmt d s (pcs(t := T_Entering m (f r))) lg (A(m := (A m)(t := False)))"
proof -
  have plain: "fut_plain fmt d (f r)" using J pc unfolding fut_J_def by (metis fut_thread.simps(3))
  have note_same: "fut_notifying m' pcs \<Longrightarrow> fut_notifying m' (pcs(t := T_Entering m (f r)))" for m'
    by (rule fut_notifying_upd) (simp_all add: fut_quiet_def pc)
  have "fut_sleepers (\<lambda>m. outcomes m lg) (pcs(t := T_Entering m (f r))) (A(m := (A m)(t := False)))"
    unfolding fut_sleepers_def
  proof (intro allI impI)
    fix m' u assume u: "(A(m := (A m)(t := False))) m' u"
    then have "A m' u" by (auto split: if_splits)
    then have "(\<exists>ms f. pcs u = T_Asleep m' ms f) \<and> (outcomes m' lg = [] \<or> fut_notifying m' pcs)"
      using J by (simp add: fut_J_def fut_sleepers_def)
    moreover have "u \<noteq> t" using u calculation pc by (auto split: if_splits)
    ultimately show "(\<exists>ms f'. (pcs(t := T_Entering m (f r))) u = T_Asleep m' ms f') \<and>
        (outcomes m' lg = [] \<or> fut_notifying m' (pcs(t := T_Entering m (f r))))"
      using note_same by auto
  qed
  moreover have "inside fut_holds m' ((pcs(t := T_Entering m (f r))) u) \<longleftrightarrow> inside fut_holds m' (pcs u)" for m' u
    using pc by auto
  ultimately show ?thesis
    by (intro fut_J_upd [OF J]) (use J plain in \<open>auto simp: fut_J_def\<close>)
qed

lemma fut_inside_state:
  "fut_inside fmt d sh rs k \<Longrightarrow> (\<And>m r. setting k \<noteq> Some (S_Ready m r)) \<Longrightarrow> fut_state d sh rs"
  by (cases "setting k")
    (auto simp: fut_inside_def split: option.splits elim!: set_inside.elims)

text \<open>A statement that changes no shared state.\<close>

lemma fut_J_same:
  assumes J: "fut_J fmt d s pcs lg A" and pc: "pcs t = T_At k"
    and s': "fs_states s' = fs_states s" and mk: "\<And>m. made_ready m (t, k) = None"
    and k: "\<And>m r. setting k \<noteq> Some (S_Ready m r)"
    and new: "fut_thread fmt d (fs_states s) (\<lambda>m. outcomes m lg) pc"
    and sl: "fut_sleepers (\<lambda>m. outcomes m lg) (pcs(t := pc)) A'"
  shows "fut_J fmt d s' (pcs(t := pc)) (lg @ [(t, k)]) A'"
proof (rule fut_J_upd [OF J])
  have out: "outcomes m (lg @ [(t, k)]) = outcomes m lg" for m using mk by simp
  have thread: "fut_thread fmt d (fs_states s) (\<lambda>m. outcomes m lg) (T_At k)"
    using J pc unfolding fut_J_def by metis
  show "fs_states s' m = fs_states s m \<and> outcomes m (lg @ [(t, k)]) = outcomes m lg \<or> X" for m X
    using s' out by simp
  show "fut_thread fmt d (fs_states s') (\<lambda>m. outcomes m (lg @ [(t, k)])) pc"
    using new s' out by simp
  show "log_ok (\<lambda>lg. fut_after fmt d (\<lambda>m. outcomes m lg)) (lg @ [(t, k)])"
    using J thread by (simp add: fut_J_def)
  show "fut_sleepers (\<lambda>m. outcomes m (lg @ [(t, k)])) (pcs(t := pc)) A'"
    unfolding out by (rule sl)
  show "fut_state d (fs_states s' m) (outcomes m (lg @ [(t, k)]))"
    if nobody: "\<forall>u. \<not> inside fut_holds m ((pcs(t := pc)) u)" for m
  proof (cases "fut_holds k = Some m")
    case True
    with thread have "fut_inside fmt d (fs_states s m) (outcomes m lg) k" by simp
    from fut_inside_state [OF this k] show ?thesis using s' out by simp
  next
    case False
    have "\<not> inside fut_holds m (pcs u)" for u
      using nobody [rule_format, of u] False pc by (cases "u = t") auto
    with J s' out show ?thesis by (simp add: fut_J_def)
  qed
qed

text \<open>Such a statement of a thread that is not about to notify, perhaps going to sleep.\<close>

lemma fut_J_read:
  assumes J: "fut_J fmt d s pcs lg A" and pc: "pcs t = T_At k"
    and s': "fs_states s' = fs_states s" and mk: "\<And>m. made_ready m (t, k) = None"
    and k: "\<And>m. setting k \<noteq> Some (S_Unlock m)" "\<And>m. setting k \<noteq> Some (S_Notify m)"
      "\<And>m r. setting k \<noteq> Some (S_Ready m r)"
    and new: "fut_thread fmt d (fs_states s) (\<lambda>m. outcomes m lg) pc"
    and A': "A' = A \<or> (\<exists>m ms f. pc = T_Asleep m ms f \<and> A' = A(m := (A m)(t := True)) \<and> outcomes m lg = [])"
  shows "fut_J fmt d s' (pcs(t := pc)) (lg @ [(t, k)]) A'"
proof (rule fut_J_same [OF J pc s' mk k(3) new])
  have "fut_sleepers (\<lambda>m. outcomes m lg) (pcs(t := pc)) A"
    by (rule fut_sleepers_quiet) (use J pc k in \<open>auto simp: fut_J_def fut_quiet_def\<close>)
  then have sl: "(\<exists>ms f. (pcs(t := pc)) u = T_Asleep m ms f) \<and>
      (outcomes m lg = [] \<or> fut_notifying m (pcs(t := pc)))" if "A m u" for m u
    using that by (simp add: fut_sleepers_def)
  show "fut_sleepers (\<lambda>m. outcomes m lg) (pcs(t := pc)) A'"
    unfolding fut_sleepers_def
  proof (intro allI impI)
    fix m u assume u: "A' m u"
    show "(\<exists>ms f. (pcs(t := pc)) u = T_Asleep m ms f) \<and>
        (outcomes m lg = [] \<or> fut_notifying m (pcs(t := pc)))"
    proof (cases "A m u")
      case True
      then show ?thesis by (rule sl)
    next
      case False
      with u A' obtain ms f where "u = t" "pc = T_Asleep m ms f" "outcomes m lg = []"
        by (auto split: if_splits)
      then show ?thesis by simp
    qed
  qed
qed

lemma sleepers_after_map:
  "sleepers_after t (map_instr id W i) A A' \<longleftrightarrow> sleepers_after t i A A'"
  by (cases i) auto

text \<open>The methods of \<open>Future\<close>.\<close>

lemma fut_inside_simps [simp]:
  "fut_inside fmt d sh rs (P_Get g) \<longleftrightarrow> fut_state d sh rs \<and> get_inside fmt d rs g"
  "fut_inside fmt d sh rs (P_Set g') \<longleftrightarrow> set_inside d sh rs g'"
  by (simp_all add: fut_inside_def)

lemma fut_plain_get:
  assumes "\<And>rs. get_inside fmt d rs g" and "\<And>h op r. g \<noteq> F_End h op r"
  shows "fut_plain fmt d (P_Get g)"
proof -
  have "fut_after fmt d R (P_Get g)" for R using assms(2) by (cases g) auto
  with assms(1) show ?thesis by (simp add: fut_plain_def)
qed

lemma cv_Wait_failed: "cv_Wait fmt r = Inl e \<Longrightarrow> sleep_failed fmt e"
  by (auto simp: cv_Wait_def sleep_failed_def split: cv_result.splits)

lemma cv_WaitFor_failed: "cv_WaitFor r = Inl e \<Longrightarrow> sleep_failed fmt e"
  by (auto simp: cv_WaitFor_def sleep_failed_def split: cv_result.splits if_splits)

lemma fut_get_thread:
  assumes inside: "\<And>m. get_holds g = Some m \<Longrightarrow> fut_state d (st m) (R m) \<and> get_inside fmt d (R m) g"
    and after: "fut_after fmt d R (P_Get g)" and st: "st = fs_states s"
  shows "fut_thread fmt d st R (pc_after (map_instr id P_Get (fut_get_prog fmt g s)))"
proof -
  have ready: "sh_ready (st m) \<longleftrightarrow> R m \<noteq> []"
    and exc: "sh_hasException (st m) \<longleftrightarrow> (\<exists>e. R m = [Inl e] \<and> sh_exception (st m) = Some e)"
    and val: "\<not> sh_hasException (st m) \<Longrightarrow> R m \<noteq> [] \<Longrightarrow> R m = [Inr (sh_value (st m))]"
    if "get_holds g = Some m" for m
    using fut_state_ready [OF inside [OF that, THEN conjunct1]] fut_state_value [OF inside [OF that, THEN conjunct1]]
      fut_state_exception [OF inside [OF that, THEN conjunct1]] by blast+
  show ?thesis
  proof (cases g)
    case (F_Get_Test m)
    with inside ready st show ?thesis by (auto intro!: fut_plain_get)
  next
    case (F_Get_Exc m)
    then have "rethrown (st m) = FR_Throw e" "outcome_ok fmt (Inl e) (R m)"
      if "sh_hasException (st m)" "sh_exception (st m) = Some e" for e
      using that exc [of m] by (auto simp: rethrown_def outcome_ok_def)
    with F_Get_Exc inside exc [of m] val [of m] st show ?thesis by auto
  next
    case (F_Try_Exc m)
    then have "rethrown (st m) = FR_Throw e" "outcome_ok fmt (Inl e) (R m)"
      if "sh_hasException (st m)" "sh_exception (st m) = Some e" for e
      using that exc [of m] by (auto simp: rethrown_def outcome_ok_def)
    with F_Try_Exc inside exc [of m] st show ?thesis by auto
  next
    case (F_Get_Value m)
    then obtain v where v: "R m = [Inr v]" "fut_state d (st m) (R m)" using inside [of m] by auto
    then have "fut_state d (st m) [Inr v]" by simp
    with F_Get_Value v(1) st show ?thesis by simp
  next
    case (F_Try_Value m)
    have "R m = [Inr (sh_value (st m))] \<or> sh_value (st m) = d"
      using inside [of m] F_Try_Value by (cases "(d, st m, R m)" rule: fut_state.cases) auto
    with F_Try_Value inside [of m] st show ?thesis by (auto simp del: fut_state.simps)
  next
    case (F_Try_Woken m r)
    with inside st show ?thesis
      by (auto simp: outcome_ok_def split: sum.splits dest: cv_WaitFor_failed)
  qed (use inside ready after st in \<open>auto intro!: fut_plain_get simp: outcome_ok_def
      split: option.splits sum.splits dest: cv_Wait_failed\<close>)
qed

lemma fut_J_get:
  assumes J: "fut_J fmt d s pcs lg A" and pc: "pcs t = T_At (P_Get g)"
    and A': "sleepers_after t (fut_get_prog fmt g s) A A'"
  shows "fut_J fmt d s (pcs(t := pc_after (map_instr id P_Get (fut_get_prog fmt g s)))) (lg @ [(t, P_Get g)]) A'"
proof (rule fut_J_read [OF J pc])
  have thread: "fut_thread fmt d (fs_states s) (\<lambda>m. outcomes m lg) (T_At (P_Get g))"
    using J pc unfolding fut_J_def by metis
  then have inside: "fut_state d (fs_states s m) (outcomes m lg) \<and> get_inside fmt d (outcomes m lg) g"
    if "get_holds g = Some m" for m
    using that by simp
  then show "fut_thread fmt d (fs_states s) (\<lambda>m. outcomes m lg)
      (pc_after (map_instr id P_Get (fut_get_prog fmt g s)))"
    by (rule fut_get_thread) (use thread in auto)
  have "outcomes m lg = []" if "get_holds g = Some m" "\<not> sh_ready (fs_states s m)" for m
    using that(2) fut_state_ready [OF inside [OF that(1), THEN conjunct1]] by blast
  then show "A' = A \<or> (\<exists>m ms f. pc_after (map_instr id P_Get (fut_get_prog fmt g s)) = T_Asleep m ms f \<and>
      A' = A(m := (A m)(t := True)) \<and> outcomes m lg = [])"
    using A' by (cases g) (auto split: option.splits sum.splits if_splits)
qed simp_all

text \<open>
  The setters, called by a client or inside a task: \<open>W\<close> is the program point around the one
  of the setter.
\<close>

definition setter :: "(('x, 'a) set_pc \<Rightarrow> ('x, 'a) fut_pc) \<Rightarrow> bool" where
  "setter W \<longleftrightarrow> W = P_Set \<or> (\<exists>le p. W = (\<lambda>k. P_Task (K_Set le p k))) \<or> W = (\<lambda>k. P_Task (K_Catch k))"

lemma setterD:
  assumes "setter W"
  shows "setting (W k) = Some k" "fut_holds (W k) = set_holds k"
    "fut_inside fmt d sh rs (W k) \<longleftrightarrow> set_inside d sh rs k" "fut_after fmt d R (W k)"
    "fut_plain fmt d (W k) \<longleftrightarrow> (\<forall>sh rs. fut_state d sh rs \<longrightarrow> set_inside d sh rs k)"
  using assms by (auto simp: setter_def fut_plain_def fut_inside_def)

lemma made_ready_setter:
  "setter W \<Longrightarrow> made_ready m (t, W k) = (case k of S_Ready m' r \<Rightarrow> if m' = m then Some r else None | _ \<Rightarrow> None)"
  by (simp add: setterD)

fun set_reads :: "('x, 'a) set_pc \<Rightarrow> bool" where
  "set_reads (S_Value_Call le h v) \<longleftrightarrow> True"
| "set_reads (S_Value_Test le m v) \<longleftrightarrow> True"
| "set_reads (S_Exc_Call le h e) \<longleftrightarrow> True"
| "set_reads (S_Exc_Test le m e) \<longleftrightarrow> True"
| "set_reads (S_Fail m e) \<longleftrightarrow> True"
| "set_reads _ \<longleftrightarrow> False"

lemma fut_J_set_read:
  assumes J: "fut_J fmt d s pcs lg A" and pc: "pcs t = T_At (W k)" and W: "setter W" and k: "set_reads k"
    and A': "sleepers_after t (snd (fut_set_prog k s)) A A'"
  shows "fut_J fmt d (fst (fut_set_prog k s))
    (pcs(t := pc_after (map_instr id W (snd (fut_set_prog k s))))) (lg @ [(t, W k)]) A'"
proof (rule fut_J_read [OF J pc])
  have "fut_thread fmt d (fs_states s) (\<lambda>m. outcomes m lg) (T_At (W k))"
    using J pc unfolding fut_J_def by metis
  then have inside: "set_inside d (fs_states s m) (outcomes m lg) k" if "set_holds k = Some m" for m
    using that W by (simp add: setterD)
  have ready: "sh_ready (fs_states s m) \<longleftrightarrow> outcomes m lg \<noteq> []"
    if "fut_state d (fs_states s m) (outcomes m lg)" for m
    using fut_state_ready [OF that] .
  show "made_ready m (t, W k) = None" for m
    unfolding made_ready_setter [OF W] using k by (cases k) simp_all
  show "fut_thread fmt d (fs_states s) (\<lambda>m. outcomes m lg)
      (pc_after (map_instr id W (snd (fut_set_prog k s))))"
    using inside ready k by (cases k) (auto simp: setterD [OF W] split: option.splits)
  show "A' = A \<or> (\<exists>m ms f. pc_after (map_instr id W (snd (fut_set_prog k s))) = T_Asleep m ms f \<and>
      A' = A(m := (A m)(t := True)) \<and> outcomes m lg = [])"
    using A' k by (cases k) (auto split: option.splits if_splits)
  show "fs_states (fst (fut_set_prog k s)) = fs_states s" using k by (cases k) auto
qed (use k in \<open>cases k; auto simp: setterD [OF W]\<close>)+

text \<open>Leaving the critical section, then waking the sleepers.\<close>

lemma fut_J_set_leave:
  assumes J: "fut_J fmt d s pcs lg A" and pc: "pcs t = T_At (W (S_Unlock m))" and W: "setter W"
  shows "fut_J fmt d s (pcs(t := T_At (W (S_Notify m)))) (lg @ [(t, W (S_Unlock m))]) A"
proof (rule fut_J_same [OF J pc refl])
  show "fut_sleepers (\<lambda>m. outcomes m lg) (pcs(t := T_At (W (S_Notify m)))) A"
  proof (rule fut_sleepers_upd)
    show "fut_sleepers (\<lambda>m. outcomes m lg) pcs A" using J by (simp add: fut_J_def)
    show "\<forall>u. \<not> A m' u" if "fut_notifying m' pcs" "\<not> fut_notifying m' (pcs(t := T_At (W (S_Notify m))))" for m'
    proof (cases "m' = m")
      case True
      then show ?thesis using that(2) fut_notifying_new W setterD(1) by blast
    next
      case False
      then have "fut_quiet m' (pcs t)" using pc W by (simp add: fut_quiet_def setterD)
      with that show ?thesis using fut_notifying_upd by blast
    qed
  qed (use pc in auto)
qed (use W in \<open>auto simp: setterD made_ready_setter simp del: made_ready.simps\<close>)

lemma fut_J_set_notify:
  assumes J: "fut_J fmt d s pcs lg A" and pc: "pcs t = T_At (W (S_Notify m))" and W: "setter W"
  shows "fut_J fmt d s (pcs(t := T_At (W (S_End None)))) (lg @ [(t, W (S_Notify m))]) (A(m := \<lambda>_. False))"
proof (rule fut_J_same [OF J pc refl])
  show "fut_sleepers (\<lambda>m. outcomes m lg) (pcs(t := T_At (W (S_End None)))) (A(m := \<lambda>_. False))"
  proof (rule fut_sleepers_upd)
    show "fut_sleepers (\<lambda>m. outcomes m lg) pcs A" using J by (simp add: fut_J_def)
    show "\<forall>u. \<not> (A(m := \<lambda>_. False)) m' u"
      if "fut_notifying m' pcs" "\<not> fut_notifying m' (pcs(t := T_At (W (S_End None))))" for m'
    proof (cases "m' = m")
      case False
      then have "fut_quiet m' (pcs t)" using pc W by (simp add: fut_quiet_def setterD)
      with that show ?thesis using fut_notifying_upd by blast
    qed simp
  qed (use pc in \<open>auto split: if_splits\<close>)
qed (use W in \<open>auto simp: setterD made_ready_setter simp del: made_ready.simps\<close>)

lemma fut_J_alone:
  assumes J: "fut_J fmt d s pcs lg A" and pc: "pcs t = T_At k" and k: "fut_holds k = Some m"
    and alone: "\<And>u. u \<noteq> t \<Longrightarrow> \<not> inside fut_holds m (pcs u)"
    and st: "\<And>m'. m' \<noteq> m \<Longrightarrow> fs_states s' m' = fs_states s m'"
    and out: "\<And>m'. m' \<noteq> m \<Longrightarrow> outcomes m' (lg @ [(t, k)]) = outcomes m' lg"
      "outcomes m lg = [] \<or> outcomes m (lg @ [(t, k)]) = outcomes m lg"
    and k': "fut_holds k' = Some m"
    and inside: "fut_inside fmt d (fs_states s' m) (outcomes m (lg @ [(t, k)])) k'"
    and after: "\<And>R. fut_after fmt d R k'"
    and sl: "fut_sleepers (\<lambda>m. outcomes m (lg @ [(t, k)])) (pcs(t := T_At k')) A'"
  shows "fut_J fmt d s' (pcs(t := T_At k')) (lg @ [(t, k)]) A'"
proof (rule fut_J_upd [OF J])
  show "fs_states s' m' = fs_states s m' \<and> outcomes m' (lg @ [(t, k)]) = outcomes m' lg \<or>
      \<not> inside fut_holds m' (pcs u) \<and> (outcomes m' lg = [] \<or> outcomes m' (lg @ [(t, k)]) = outcomes m' lg)"
    if "u \<noteq> t" for m' u
    using st [of m'] out(1) [of m'] out(2) alone [OF that] by (cases "m' = m") auto
  have "fut_after fmt d (\<lambda>m. outcomes m lg) k"
    using J pc unfolding fut_J_def by (metis fut_thread.simps(1))
  with J show "log_ok (\<lambda>lg. fut_after fmt d (\<lambda>m. outcomes m lg)) (lg @ [(t, k)])"
    by (simp add: fut_J_def)
  show "fut_state d (fs_states s' m') (outcomes m' (lg @ [(t, k)]))"
    if nobody: "\<forall>u. \<not> inside fut_holds m' ((pcs(t := T_At k')) u)" for m'
  proof -
    have m': "m' \<noteq> m" using nobody [rule_format, of t] k' by auto
    have "\<not> inside fut_holds m' (pcs u)" for u
      using nobody [rule_format, of u] m' pc k by (cases "u = t") auto
    with J have "fut_state d (fs_states s m') (outcomes m' lg)" by (simp add: fut_J_def)
    with st [OF m'] out(1) [OF m'] show ?thesis by simp
  qed
qed (use k' inside after sl in auto)

lemma fut_J_set_write:
  assumes J: "fut_J fmt d s pcs lg A" and pc: "pcs t = T_At (W k)" and W: "setter W"
    and k: "set_holds k = Some m"
      "(\<exists>v. k = S_Value_Write m v) \<or> (\<exists>e. k = S_Exc_Write m e) \<or> (\<exists>e. k = S_Exc_Flag m e) \<or> (\<exists>r. k = S_Ready m r)"
    and alone: "\<And>u. u \<noteq> t \<Longrightarrow> \<not> inside fut_holds m (pcs u)"
    and A': "sleepers_after t (snd (fut_set_prog k s)) A A'"
  shows "fut_J fmt d (fst (fut_set_prog k s))
    (pcs(t := pc_after (map_instr id W (snd (fut_set_prog k s))))) (lg @ [(t, W k)]) A'"
proof -
  have "fut_thread fmt d (fs_states s) (\<lambda>m. outcomes m lg) (T_At (W k))"
    using J pc unfolding fut_J_def by metis
  then have inside: "set_inside d (fs_states s m) (outcomes m lg) k"
    using k W by (simp add: setterD)
  obtain k' where i: "snd (fut_set_prog k s) = I_Goto k'" and k': "set_holds k' = Some m"
    and eqA: "A' = A"
    using k(2) A' by auto
  have sl: "fut_sleepers (\<lambda>m. outcomes m (lg @ [(t, W k)])) (pcs(t := T_At (W k'))) A"
  proof (rule fut_sleepers_upd)
    show "fut_sleepers (\<lambda>m. outcomes m lg) pcs A" using J by (simp add: fut_J_def)
    have quiet: "fut_quiet m' (pcs t)" for m' using pc k(2) W by (auto simp: fut_quiet_def setterD)
    show "fut_notifying m' pcs \<Longrightarrow> \<not> fut_notifying m' (pcs(t := T_At (W k'))) \<Longrightarrow> \<forall>u. \<not> A m' u" for m'
      using fut_notifying_upd quiet by blast
    show "outcomes m' (lg @ [(t, W k)]) \<noteq> outcomes m' lg \<Longrightarrow> fut_notifying m' (pcs(t := T_At (W k')))" for m'
      using k(2) i W by (intro fut_notifying_new) (auto simp: setterD split: if_splits)
  qed (use pc in auto)
  have new: "set_inside d (fs_states (fst (fut_set_prog k s)) m) (outcomes m (lg @ [(t, W k)])) k' \<and>
      outcomes m lg = []"
    using k(2)
  proof (elim disjE exE)
    fix r assume "k = S_Ready m r"
    with i inside W show ?thesis by (cases r) (auto simp: setterD fs_update_def)
  qed (use i inside W in \<open>auto simp: setterD fs_update_def\<close>)
  have "fut_J fmt d (fst (fut_set_prog k s)) (pcs(t := T_At (W k'))) (lg @ [(t, W k)]) A"
  proof (rule fut_J_alone [where m = m, OF J pc _ alone])
    show "fs_states (fst (fut_set_prog k s)) m' = fs_states s m'"
      "outcomes m' (lg @ [(t, W k)]) = outcomes m' lg" if "m' \<noteq> m" for m'
      using k(2) that W by (auto simp: setterD fs_update_def)
  qed (use k(1) k' W sl new in \<open>auto simp: setterD\<close>)
  with i eqA show ?thesis by simp
qed

lemma fut_J_set:
  assumes J: "fut_J fmt d s pcs lg A" and pc: "pcs t = T_At (W k)" and W: "setter W"
    and k: "in_setter k = None"
    and alone: "\<And>m u. set_holds k = Some m \<Longrightarrow> u \<noteq> t \<Longrightarrow> \<not> inside fut_holds m (pcs u)"
    and A': "sleepers_after t (snd (fut_set_prog k s)) A A'"
  shows "fut_J fmt d (fst (fut_set_prog k s))
    (pcs(t := pc_after (map_instr id W (snd (fut_set_prog k s))))) (lg @ [(t, W k)]) A'"
proof -
  consider "set_reads k" | m where "k = S_Unlock m" | m where "k = S_Notify m"
    | m where "set_holds k = Some m" "(\<exists>v. k = S_Value_Write m v) \<or> (\<exists>e. k = S_Exc_Write m e) \<or>
        (\<exists>e. k = S_Exc_Flag m e) \<or> (\<exists>r. k = S_Ready m r)"
    using k by (cases k) auto
  then show ?thesis
  proof cases
    case 1
    then show ?thesis using fut_J_set_read [where W = W, OF J pc W _ A'] by blast
  next
    case 2
    then show ?thesis using fut_J_set_leave [where W = W, OF J _ W] pc A' by simp
  next
    case 3
    then show ?thesis using fut_J_set_notify [where W = W, OF J _ W] pc A' by simp
  next
    case (4 m)
    show ?thesis by (rule fut_J_set_write [where W = W, OF J pc W 4 alone [OF 4(1)] A'])
  qed
qed

text \<open>The task of \<open>Then\<close>, outside the setters.\<close>

fun task_plain :: "('x, 'a) task_pc \<Rightarrow> bool" where
  "task_plain (K_Set le p k) \<longleftrightarrow> in_setter k \<noteq> None"
| "task_plain (K_Catch k) \<longleftrightarrow> in_setter k \<noteq> None"
| "task_plain _ \<longleftrightarrow> True"

lemma in_setter_Some [simp]: "in_setter k = Some r \<longleftrightarrow> k = S_End r"
  by (cases k) auto

lemma task_plain_setting:
  "task_plain g \<Longrightarrow> setting (P_Task g) = None \<or> (\<exists>r. setting (P_Task g) = Some (S_End r))"
  by (cases g) auto

lemma fut_plain_task:
  assumes "setting (P_Task g) = None \<or> (\<exists>le m v. setting (P_Task g) = Some (S_Value_Test le m v)) \<or>
      (\<exists>le m e. setting (P_Task g) = Some (S_Exc_Test le m e))"
    and "\<And>rs. task_inside fmt rs g" and "\<And>le m r f p. g \<noteq> K_Func le m r f p"
  shows "fut_plain fmt d (P_Task g)"
proof -
  have "fut_after fmt d R (P_Task g)" for R
  proof (cases g)
    case (K_Func le m r f p)
    with assms(3) show ?thesis by blast
  qed auto
  with assms(1,2) show ?thesis by (auto simp: fut_plain_def fut_inside_def)
qed

lemma fut_task_thread:
  assumes g: "task_plain g"
    and inside: "\<And>m. task_holds g = Some m \<Longrightarrow> fut_state d (st m) (R m) \<and> task_inside fmt (R m) g"
    and st: "st = fs_states s"
  shows "fut_thread fmt d st R (pc_after (map_instr id P_Task (snd (fut_task_prog fmt g s))))"
proof -
  have ready: "sh_ready (st m) \<longleftrightarrow> R m \<noteq> []"
    and exc: "sh_hasException (st m) \<longleftrightarrow> (\<exists>e. R m = [Inl e] \<and> sh_exception (st m) = Some e)"
    and val: "\<not> sh_hasException (st m) \<Longrightarrow> R m \<noteq> [] \<Longrightarrow> R m = [Inr (sh_value (st m))]"
    if "task_holds g = Some m" for m
    using fut_state_ready [OF inside [OF that, THEN conjunct1]] fut_state_value [OF inside [OF that, THEN conjunct1]]
      fut_state_exception [OF inside [OF that, THEN conjunct1]] by blast+
  show ?thesis
  proof (cases g)
    case (K_Enter le task)
    with st show ?thesis
      by (cases task) (auto intro!: fut_plain_task split: option.splits)
  next
    case (K_Test le m f p)
    with inside ready st show ?thesis by (auto intro!: fut_plain_task simp: fut_inside_def)
  next
    case (K_Woken le m f p r)
    with inside st show ?thesis
      by (auto simp: fut_inside_def outcome_ok_def split: sum.splits dest: cv_Wait_failed)
  next
    case (K_Exc le m f p)
    with inside exc [of m] val [of m] st show ?thesis
      by (auto simp: fut_inside_def outcome_ok_def split: option.splits)
  next
    case (K_Value le m f p)
    then obtain v where v: "R m = [Inr v]" "fut_state d (st m) (R m)" using inside [of m] by auto
    then have "fut_state d (st m) [Inr v]" by simp
    with K_Value v(1) st show ?thesis by (simp add: fut_inside_def outcome_ok_def)
  qed (use g inside st in \<open>auto simp: fut_inside_def split: option.splits sum.splits\<close>)
qed

lemma fut_J_task:
  assumes J: "fut_J fmt d s pcs lg A" and pc: "pcs t = T_At (P_Task g)" and g: "task_plain g"
    and A': "sleepers_after t (snd (fut_task_prog fmt g s)) A A'"
  shows "fut_J fmt d (fst (fut_task_prog fmt g s))
    (pcs(t := pc_after (map_instr id P_Task (snd (fut_task_prog fmt g s))))) (lg @ [(t, P_Task g)]) A'"
proof (rule fut_J_read [OF J pc])
  have "fut_thread fmt d (fs_states s) (\<lambda>m. outcomes m lg) (T_At (P_Task g))"
    using J pc unfolding fut_J_def by metis
  then have inside: "fut_state d (fs_states s m) (outcomes m lg) \<and> task_inside fmt (outcomes m lg) g"
    if "task_holds g = Some m" for m
    using that task_plain_setting [OF g] by (auto simp: fut_inside_def)
  then show "fut_thread fmt d (fs_states s) (\<lambda>m. outcomes m lg)
      (pc_after (map_instr id P_Task (snd (fut_task_prog fmt g s))))"
    by (rule fut_task_thread [OF g]) simp_all
  have "outcomes m lg = []" if "task_holds g = Some m" "\<not> sh_ready (fs_states s m)" for m
    using that(2) fut_state_ready [OF inside [OF that(1), THEN conjunct1]] by blast
  then show "A' = A \<or> (\<exists>m ms f. pc_after (map_instr id P_Task (snd (fut_task_prog fmt g s))) = T_Asleep m ms f \<and>
      A' = A(m := (A m)(t := True)) \<and> outcomes m lg = [])"
    using A' g by (cases "(fmt, g, s)" rule: fut_task_prog.cases) (auto split: option.splits sum.splits if_splits)
  show "fs_states (fst (fut_task_prog fmt g s)) = fs_states s"
    using g by (cases "(fmt, g, s)" rule: fut_task_prog.cases) auto
  show "made_ready m (t, P_Task g) = None" for m
    using task_plain_setting [OF g] by auto
qed (use task_plain_setting [OF g] in auto)

lemma fut_J_setter:
  assumes J: "fut_J fmt d s pcs lg A" and pc: "pcs t = T_At k" and W: "setter W" and k: "k = W k'"
    and k': "in_setter k' = None"
    and alone: "\<And>m u. fut_holds k = Some m \<Longrightarrow> u \<noteq> t \<Longrightarrow> \<not> inside fut_holds m (pcs u)"
    and s': "s' = fst (fut_set_prog k' s)" and i: "i = map_instr id W (snd (fut_set_prog k' s))"
    and A': "sleepers_after t i A A'"
  shows "fut_J fmt d s' (pcs(t := pc_after i)) (lg @ [(t, k)]) A'"
  unfolding s' i k
proof (rule fut_J_set [OF J _ W k'])
  show "\<not> inside fut_holds m (pcs u)" if "set_holds k' = Some m" "u \<noteq> t" for m u
    using alone that setterD(2) [OF W] k by simp
qed (use pc k A' in \<open>simp_all add: i sleepers_after_map\<close>)

lemma fut_J_run:
  assumes J: "fut_J fmt d s pcs lg A" and pc: "pcs t = T_At k"
    and alone: "\<And>m u. fut_holds k = Some m \<Longrightarrow> u \<noteq> t \<Longrightarrow> \<not> inside fut_holds m (pcs u)"
    and step: "fut_prog fmt k s = (s', i)" and A': "sleepers_after t i A A'"
  shows "fut_J fmt d s' (pcs(t := pc_after i)) (lg @ [(t, k)]) A'"
proof (cases k)
  case (P_Get g)
  then have "s' = s" "i = map_instr id P_Get (fut_get_prog fmt g s)" using step by auto
  with fut_J_get [where pcs = pcs, OF J] pc A' P_Get show ?thesis by (simp add: sleepers_after_map)
next
  case (P_Set g)
  then have eq: "s' = fst (fut_set_prog g s)" "i = map_instr id P_Set (snd (fut_set_prog g s))"
    using step by (auto simp: apsnd_def map_prod_def split: prod.splits)
  show ?thesis
  proof (cases "in_setter g")
    case None
    show ?thesis
      by (rule fut_J_setter [OF J pc _ P_Set None alone eq A']) (simp_all add: setter_def)
  next
    case (Some r)
    then show ?thesis
      using eq P_Set A' pc by (intro fut_J_read [OF J pc]) auto
  qed
next
  case (P_Task g)
  then have eq: "s' = fst (fut_task_prog fmt g s)" "i = map_instr id P_Task (snd (fut_task_prog fmt g s))"
    using step by (auto simp: apsnd_def map_prod_def split: prod.splits)
  show ?thesis
  proof (cases "task_plain g")
    case True
    with fut_J_task [where pcs = pcs, OF J _ True] pc A' P_Task eq show ?thesis
      by (simp add: sleepers_after_map)
  next
    case False
    then consider le p k' where "g = K_Set le p k'" "in_setter k' = None"
      | k' where "g = K_Catch k'" "in_setter k' = None"
      by (cases g) (auto simp del: not_None_eq)
    then show ?thesis
    proof cases
      case (1 le p k')
      show ?thesis
        by (rule fut_J_setter [where W = "\<lambda>k. P_Task (K_Set le p k)", OF J pc _ _ 1(2) alone _ _ A'])
          (use 1 eq P_Task in \<open>auto simp: setter_def instr.map_comp comp_def id_def apsnd_def map_prod_def
            split: prod.splits\<close>)
    next
      case (2 k')
      show ?thesis
        by (rule fut_J_setter [where W = "\<lambda>k. P_Task (K_Catch k)", OF J pc _ _ 2(2) alone _ _ A'])
          (use 2 eq P_Task in \<open>auto simp: setter_def instr.map_comp comp_def id_def apsnd_def map_prod_def
            split: prod.splits\<close>)
    qed
  qed
next
  case P_New
  then show ?thesis
    using step A' by (intro fut_J_read [OF J pc]) (auto simp: promise_new_def)
next
  case (P_Then h f)
  then show ?thesis
    using step A' by (intro fut_J_read [OF J pc]) (auto simp: promise_new_def fut_then_def)
next
  case (P_Made h)
  then show ?thesis
    using step A' by (intro fut_J_read [OF J pc]) auto
qed

lemma disciplined_map:
  "(\<And>k'. hW (W k') = hk k') \<Longrightarrow> disciplined hW (W k) (map_instr id W i) \<longleftrightarrow> disciplined hk k i"
  by (cases i) auto

lemmas disciplined_P = disciplined_map [of fut_holds P_Get get_holds]
  disciplined_map [of fut_holds P_Set set_holds] disciplined_map [of fut_holds P_Task task_holds]

lemma fut_set_disciplined: "in_setter k = None \<Longrightarrow> disciplined set_holds k (snd (fut_set_prog k s))"
  by (cases k) (auto split: option.splits)

lemma fut_disciplined: "disciplined fut_holds k (snd (fut_prog fmt k s))"
proof (cases k)
  case (P_Get g)
  have "disciplined get_holds g (fut_get_prog fmt g s)"
    by (cases g) (auto split: option.splits sum.splits if_splits)
  with P_Get show ?thesis by (simp add: disciplined_P)
next
  case (P_Set g)
  have "disciplined set_holds g (snd (fut_set_prog g s))"
    by (cases g) (auto split: option.splits)
  with P_Set show ?thesis by (simp add: disciplined_P)
next
  case (P_Task g)
  have "disciplined task_holds g (snd (fut_task_prog fmt g s))"
  proof (cases "task_plain g")
    case True
    then show ?thesis
      by (cases "(fmt, g, s)" rule: fut_task_prog.cases) (auto split: option.splits sum.splits if_splits)
  next
    case False
    then show ?thesis
      by (cases g) (auto split: option.splits simp: fut_set_disciplined
        disciplined_map [of task_holds "K_Set le p" set_holds for le p]
        disciplined_map [of task_holds K_Catch set_holds])
  qed
  with P_Task show ?thesis by (simp add: disciplined_P)
qed (simp_all add: promise_new_def fut_then_def)

interpretation futures: thread_program fut_start "fut_prog fmt" fut_holds any_return
  "futures_new d" "fut_J fmt d"
  for fmt :: "dword \<Rightarrow> string" and d :: 'a
proof unfold_locales
  show "fut_start k \<Longrightarrow> fut_holds k = None" for k :: "('x, 'a) fut_pc"
    by (cases k rule: fut_start.cases) auto
  show "fut_J fmt d (futures_new d) (\<lambda>_. T_Idle) [] (\<lambda>_ _. False)"
    by (simp add: fut_J_def futures_new_def shared_new_def fut_sleepers_def)
qed (auto intro: fut_disciplined fut_J_call fut_J_enter fut_J_run fut_J_woken)

section \<open>Properties\<close>

lemma fut_reach_J:
  assumes "win_sync_ok api" and "reach (fut_step api fmt) (mon_init api (futures_new d)) s"
  shows "fut_J fmt d (mon_data s) (mon_pcs s) (mon_log s) (mon_asleep api s)"
  using assms by (intro futures.reach_J) simp_all

lemma fut_J_once:
  assumes J: "fut_J fmt d s pcs lg A"
  shows "length (outcomes m lg) \<le> 1"
proof -
  show ?thesis
  proof (cases "\<forall>t. \<not> inside fut_holds m (pcs t)")
    case True
    with J have "fut_state d (fs_states s m) (outcomes m lg)" by (simp add: fut_J_def)
    then show ?thesis by (rule fut_state_once)
  next
    case False
    then obtain t k where t: "pcs t = T_At k" "fut_holds k = Some m" by (auto simp: inside_def)
    then have k: "fut_inside fmt d (fs_states s m) (outcomes m lg) k"
      using J unfolding fut_J_def by (metis fut_thread.simps(1))
    show ?thesis
    proof (cases "\<exists>m r. setting k = Some (S_Ready m r)")
      case True
      with k show ?thesis by (auto simp: fut_inside_def elim!: set_inside.elims)
    next
      case False
      then have "fut_state d (fs_states s m) (outcomes m lg)" using fut_inside_state [OF k] by blast
      then show ?thesis by (rule fut_state_once)
    qed
  qed
qed


text \<open>
  C32. Promises lose no wake-up although \<open>NotifyAll\<close> is called after the critical section was
  left: when no setter of a state is on its way from there to \<open>NotifyAll\<close>, a thread that is
  still asleep at the state and that no wake has reached waits for a promise that is not yet
  satisfied.
\<close>

theorem future_no_lost_wakeup:
  assumes "win_sync_ok api" and "reach (fut_step api fmt) (mon_init api (futures_new d)) s"
    and "\<forall>u k. mon_pcs s u = T_At k \<longrightarrow> setting k \<noteq> Some (S_Unlock m) \<and> setting k \<noteq> Some (S_Notify m)"
    and "api_asleep api (mon_cv s m) t"
  shows "(\<exists>ms f. mon_pcs s t = T_Asleep m ms f) \<and> outcomes m (mon_log s) = []"
proof -
  have "fut_sleepers (\<lambda>m. outcomes m (mon_log s)) (mon_pcs s) (mon_asleep api s)"
    using fut_reach_J [OF assms(1,2)] by (simp add: fut_J_def)
  moreover have "\<not> fut_notifying m (mon_pcs s)" using assms(3) by (auto simp: fut_notifying_def)
  ultimately show ?thesis using assms(4) unfolding fut_sleepers_def mon_asleep_def by blast
qed

text \<open>
  A client waits in \<open>Get\<close>, another one sets 7, and then a third one calls \<open>TryGet\<close>.
\<close>

definition fut_wait_run :: "(unit, nat) fut_pc mon_label list" where
  "fut_wait_run = [M_Call 5 P_New, M_Run 5, M_Call 1 (P_Get (F_Get_Call 0 (Some 0))), M_Run 1, M_Enter 1, M_Run 1]"

definition fut_set_run :: "(unit, nat) fut_pc mon_label list" where
  "fut_set_run = [M_Call 2 (P_Set (S_Value_Call 0 (Some 0) 7)), M_Run 2, M_Enter 2, M_Run 2, M_Run 2,
     M_Run 2, M_Run 2, M_Run 2, M_Run 2,
     M_Woken 1 Cv_True, M_Enter 1, M_Run 1, M_Run 1, M_Run 1, M_Run 1, M_Run 1, M_Run 1]"

definition fut_try_run :: "(unit, nat) fut_pc mon_label list" where
  "fut_try_run = [M_Call 3 (P_Get (F_Try_Call 0 (Some 0) 5)), M_Run 3, M_Enter 3, M_Run 3, M_Run 3, M_Run 3,
     M_Run 3, M_Run 3]"

abbreviation fut_demo_init :: "(nat, (unit, nat) fut_pc, (unit, nat) futures) fifo_mon" where
  "fut_demo_init \<equiv> mon_init fifo_sync (futures_new 0)"

lemma fut_demo_run:
  "\<exists>s. run (fut_step fifo_sync (\<lambda>_. [])) fut_wait_run fut_demo_init = Some s \<and>
     (\<forall>u k. mon_pcs s u = T_At k \<longrightarrow> setting k \<noteq> Some (S_Unlock 0) \<and> setting k \<noteq> Some (S_Notify 0)) \<and>
     api_asleep fifo_sync (mon_cv s 0) 1 \<and>
     (\<exists>s'. run (fut_step fifo_sync (\<lambda>_. [])) (fut_set_run @ fut_try_run) s = Some s' \<and>
        length (mon_log s') = 22 \<and> snd (mon_log s' ! 15) = P_Get (F_End (Some 0) Op_Get (FR_Value 7)) \<and>
        snd (mon_log s' ! 21) = P_Get (F_End (Some 0) Op_TryGet (FR_Got 7)))"
  by (simp add: fut_wait_run_def fut_set_run_def fut_try_run_def sync_run_simps futures_new_def
      shared_new_def fs_update_def promise_new_def)

lemma fut_demo_reach:
  obtains s sb where "reach (fut_step fifo_sync (\<lambda>_. [])) fut_demo_init s"
    "\<forall>u k. mon_pcs s u = T_At k \<longrightarrow> setting k \<noteq> Some (S_Unlock 0) \<and> setting k \<noteq> Some (S_Notify 0)"
    "api_asleep fifo_sync (mon_cv s 0) 1"
    "reach (fut_step fifo_sync (\<lambda>_. [])) fut_demo_init sb" "length (mon_log sb) = 22"
    "snd (mon_log sb ! 15) = P_Get (F_End (Some 0) Op_Get (FR_Value 7))"
    "snd (mon_log sb ! 21) = P_Get (F_End (Some 0) Op_TryGet (FR_Got 7))"
proof -
  obtain s sb where s: "run (fut_step fifo_sync (\<lambda>_. [])) fut_wait_run fut_demo_init = Some s"
    "\<forall>u k. mon_pcs s u = T_At k \<longrightarrow> setting k \<noteq> Some (S_Unlock 0) \<and> setting k \<noteq> Some (S_Notify 0)"
    "api_asleep fifo_sync (mon_cv s 0) 1"
    "run (fut_step fifo_sync (\<lambda>_. [])) (fut_set_run @ fut_try_run) s = Some sb" "length (mon_log sb) = 22"
    "snd (mon_log sb ! 15) = P_Get (F_End (Some 0) Op_Get (FR_Value 7))"
    "snd (mon_log sb ! 21) = P_Get (F_End (Some 0) Op_TryGet (FR_Got 7))"
    using fut_demo_run by (elim exE conjE) (rule that)
  have r: "reach (fut_step fifo_sync (\<lambda>_. [])) fut_demo_init s" using s(1) by (rule run_reach)
  have rb: "reach (fut_step fifo_sync (\<lambda>_. [])) fut_demo_init sb"
    using run_reach [OF s(4)] r by (rule reach_trans)
  show ?thesis by (rule that [OF r s(2,3) rb s(5,6,7)])
qed


theorem future_no_lost_wakeup_witness:
  "\<exists>s :: (nat, (unit, nat) fut_pc, (unit, nat) futures) fifo_mon.
     api_asleep fifo_sync (mon_cv s 0) 1 \<and> outcomes 0 (mon_log s) = []"
proof -
  obtain s :: "(nat, (unit, nat) fut_pc, (unit, nat) futures) fifo_mon"
    where s: "reach (fut_step fifo_sync (\<lambda>_. [])) fut_demo_init s"
    "\<forall>u k. mon_pcs s u = T_At k \<longrightarrow> setting k \<noteq> Some (S_Unlock 0) \<and> setting k \<noteq> Some (S_Notify 0)"
    "api_asleep fifo_sync (mon_cv s 0) 1"
    by (rule fut_demo_reach)
  from future_no_lost_wakeup [OF fifo_sync_ok s] s(3) show ?thesis by blast
qed

text \<open>
  A spurious wake-up, which \<open>SleepConditionVariableCS\<close> may always have, makes \<open>WaitFor\<close>
  return \<open>true\<close> and \<open>TryGet\<close> return \<open>true\<close> with the initial value of the shared state,
  although nobody has satisfied the promise: both test \<open>ready\<close> once before the sleep and not
  after it.
\<close>

theorem future_spurious_wakeup:
  "\<exists>s. run (fut_step fifo_sync fmt) [M_Call 5 P_New, M_Run 5,
        M_Call 1 (P_Get (F_Try_Call 0 (Some 0) 100)), M_Run 1, M_Enter 1, M_Run 1, M_Woken 1 Cv_True,
        M_Enter 1, M_Run 1, M_Run 1, M_Run 1, M_Run 1, M_Run 1,
        M_Call 2 (P_Get (F_WaitFor_Call 0 (Some 0) 100)), M_Run 2, M_Enter 2, M_Run 2, M_Woken 2 Cv_True,
        M_Enter 2, M_Run 2, M_Run 2, M_Run 2]
      (mon_init fifo_sync (futures_new d)) = Some s \<and>
    mon_pcs s 1 = T_Ended (P_Get (F_End (Some 0) Op_TryGet (FR_Got d))) \<and>
    mon_pcs s 2 = T_Ended (P_Get (F_End (Some 0) Op_WaitFor (FR_Bool True))) \<and>
    \<not> sh_ready (fs_states (mon_data s) 0) \<and> outcomes 0 (mon_log s) = []"
  by (simp add: sync_run_simps futures_new_def shared_new_def promise_new_def)

section \<open>Critical sections are left\<close>

text \<open>How many statements a thread executes at most before it leaves or sleeps.\<close>

fun get_rank :: "('x, 'a) get_pc \<Rightarrow> nat" where
  "get_rank (F_Get_Woken m r) = 4"
| "get_rank (F_Get_Test m) = 3"
| "get_rank (F_Get_Exc m) = 2"
| "get_rank (F_Get_Value m) = 1"
| "get_rank (F_Try_Test m ms) = 3"
| "get_rank (F_Try_Woken m r) = 3"
| "get_rank (F_Try_Exc m) = 2"
| "get_rank (F_Try_Value m) = 1"
| "get_rank (F_Ready_Read m) = 1"
| "get_rank (F_Wait_Woken m r) = 2"
| "get_rank (F_Wait_Test m) = 1"
| "get_rank (F_WaitFor_Test m ms) = 1"
| "get_rank (F_WaitFor_Woken m r) = 1"
| "get_rank _ = 0"

fun set_rank :: "('x, 'a) set_pc \<Rightarrow> nat" where
  "set_rank (S_Value_Test le m v) = 4"
| "set_rank (S_Value_Write m v) = 3"
| "set_rank (S_Exc_Test le m e) = 4"
| "set_rank (S_Exc_Write m e) = 3"
| "set_rank (S_Exc_Flag m e) = 2"
| "set_rank (S_Ready m r) = 1"
| "set_rank _ = 0"

fun task_rank :: "('x, 'a) task_pc \<Rightarrow> nat" where
  "task_rank (K_Woken le m f p r) = 4"
| "task_rank (K_Test le m f p) = 3"
| "task_rank (K_Exc le m f p) = 2"
| "task_rank (K_Value le m f p) = 1"
| "task_rank (K_Set le p k) = set_rank k"
| "task_rank (K_Catch k) = set_rank k"
| "task_rank _ = 0"

fun fut_rank :: "('x, 'a) fut_pc \<Rightarrow> ('x, 'a) futures \<Rightarrow> nat" where
  "fut_rank (P_Get k) s = get_rank k"
| "fut_rank (P_Set k) s = set_rank k"
| "fut_rank (P_Task k) s = task_rank k"
| "fut_rank _ s = 0"

lemma set_rank_less:
  "set_holds k = Some m \<Longrightarrow> next_inside (snd (fut_set_prog k s)) = Some k' \<Longrightarrow> set_rank k' < set_rank k"
  by (cases k) (auto split: if_splits option.splits)


lemma get_rank_less:
  "get_holds k = Some m \<Longrightarrow> next_inside (fut_get_prog fmt k s) = Some k' \<Longrightarrow> get_rank k' < get_rank k"
  by (cases k) (auto split: if_splits option.splits sum.splits)

lemma task_rank_less:
  assumes "task_holds k = Some m" and "next_inside (snd (fut_task_prog fmt k s)) = Some k'"
  shows "task_rank k' < task_rank k"
proof (cases k)
  case (K_Set le p g)
  have "in_setter g = None" using assms(1) K_Set by (cases "in_setter g") auto
  then show ?thesis using assms K_Set set_rank_less [of g m s] by auto
next
  case (K_Catch g)
  have "in_setter g = None" using assms(1) K_Catch by (cases "in_setter g") auto
  then show ?thesis using assms K_Catch set_rank_less [of g m s] by auto
qed (use assms in \<open>auto split: if_splits option.splits sum.splits\<close>)

interpretation future_sections: bounded_sections "fut_start :: ('x, 'a) fut_pc \<Rightarrow> bool" "fut_prog fmt" fut_holds fut_rank for fmt
proof
  show "fut_start k \<Longrightarrow> fut_holds k = None" for k :: "('x, 'a) fut_pc"
    by (cases k rule: fut_start.cases) auto
  show "fut_holds k = Some m \<Longrightarrow> next_inside (snd (fut_prog fmt k d)) = Some k' \<Longrightarrow>
      fut_rank k' (fst (fut_prog fmt k d)) < fut_rank k d" for k k' :: "('x, 'a) fut_pc" and m d
    by (cases k) (auto dest: get_rank_less set_rank_less task_rank_less)
qed (rule fut_disciplined)

end
