(* ===== verification/Async_Run.thy ===== *)
theory Async_Run
  imports Future_Promise
begin

text \<open>
  \<open>Run\<close> and \<open>RunDetached\<close> of \<open>src/src/ezthread/async.hpp\<close>: a function runs once on a thread of the pool
  of the system, and the promise of \<open>Run\<close> gets its outcome. The setters of \<open>Promise\<close> are the
  programs of theory \<open>Future_Promise\<close>; each runs here as one step, as its critical section allows.
\<close>

section \<open>The setters as one step\<close>

text \<open>Runs a setter alone to its end: the exception that it throws, and the states after it.\<close>

fun set_exec :: "nat \<Rightarrow> ('x, 'a) set_pc \<Rightarrow> ('x, 'a) futures \<Rightarrow> ('x exn option \<times> ('x, 'a) futures) option" where
  "set_exec 0 k s = None"
| "set_exec (Suc n) k s =
     (case fut_set_prog k s of
        (s', I_Goto k') \<Rightarrow> set_exec n k' s'
      | (s', I_Enter m k') \<Rightarrow> set_exec n k' s'
      | (s', I_Leave m k') \<Rightarrow> set_exec n k' s'
      | (s', I_Wake_All m k') \<Rightarrow> set_exec n k' s'
      | (s', I_Finish k') \<Rightarrow> (case in_setter k' of None \<Rightarrow> None | Some r \<Rightarrow> Some (r, s'))
      | _ \<Rightarrow> None)"

definition promise_SetValue ::
  "dword \<Rightarrow> handle \<Rightarrow> 'a \<Rightarrow> ('x, 'a) futures \<Rightarrow> ('x exn option \<times> ('x, 'a) futures) option" where
  "promise_SetValue le h v s = set_exec 8 (S_Value_Call le h v) s"

definition promise_SetException ::
  "dword \<Rightarrow> handle \<Rightarrow> 'x exn \<Rightarrow> ('x, 'a) futures \<Rightarrow> ('x exn option \<times> ('x, 'a) futures) option" where
  "promise_SetException le h e s = set_exec 8 (S_Exc_Call le h e) s"

definition holds_outcome :: "('x, 'a) shared \<Rightarrow> ('x, 'a) result \<Rightarrow> bool" where
  "holds_outcome sh r \<longleftrightarrow> sh_ready sh \<and>
     (case r of
        Inr v \<Rightarrow> \<not> sh_hasException sh \<and> sh_value sh = v
      | Inl e \<Rightarrow> sh_hasException sh \<and> sh_exception sh = Some e)"

definition unset :: "('x, 'a) shared \<Rightarrow> bool" where
  "unset sh \<longleftrightarrow> \<not> sh_ready sh \<and> \<not> sh_hasException sh"

lemma set_value_unset:
  assumes "unset (fs_states s m)"
  obtains s' where "promise_SetValue le (Some m) v s = Some (None, s')"
    and "holds_outcome (fs_states s' m) (Inr v)" and "\<And>m'. m' \<noteq> m \<Longrightarrow> fs_states s' m' = fs_states s m'"
    and "fs_next s' = fs_next s"
  using assms
  by (simp add: promise_SetValue_def eval_nat_numeral unset_def fs_update_def holds_outcome_def)

lemma set_exception_unset:
  assumes "unset (fs_states s m)"
  obtains s' where "promise_SetException le (Some m) e s = Some (None, s')"
    and "holds_outcome (fs_states s' m) (Inl e)" and "\<And>m'. m' \<noteq> m \<Longrightarrow> fs_states s' m' = fs_states s m'"
    and "fs_next s' = fs_next s"
  using assms
  by (simp add: promise_SetException_def eval_nat_numeral unset_def fs_update_def holds_outcome_def)

section \<open>Contexts, works and callbacks\<close>

text \<open>
  The \<open>std::function\<close> that a work gets as its context: the bound function of \<open>Run\<close> with its promise, or
  that of \<open>RunDetached\<close>. A function is given by its outcome.
\<close>

datatype ('x, 'a) closure = C_Run "('x, 'a) result" nat | C_Detached "('x, unit) result"

text \<open>A \<open>PTP_WORK\<close>: its context, and the number of submitted callbacks that have not begun.\<close>

record work_item =
  wi_ctx :: nat
  wi_queued :: nat

text \<open>The callback of a thread of the pool, with its work and its context.\<close>

datatype ('x, 'a) callback_pc =
    W_Idle
  | W_Call nat nat
  | W_Value nat nat nat 'a
  | W_Exception nat nat nat "'x exn"
  | W_Delete nat nat
  | W_Close nat
  | W_Undefined

text \<open>
  The state: the futures, the allocated contexts and open works with the next address, and
  the callbacks. History: the contexts whose function was called, and the outcome that the
  promise of each \<open>Run\<close> is to get.
\<close>

record ('x, 'a) async =
  as_futures :: "('x, 'a) futures"
  as_ctx :: "nat \<Rightarrow> ('x, 'a) closure option"
  as_works :: "nat \<Rightarrow> work_item option"
  as_next :: nat
  as_pcs :: "tid \<Rightarrow> ('x, 'a) callback_pc"
  as_calls :: "nat list"
  as_made :: "nat \<Rightarrow> ('x, 'a) result option"

definition async_init :: "'a \<Rightarrow> ('x, 'a) async" where
  "async_init d = \<lparr>as_futures = futures_new d, as_ctx = Map.empty, as_works = Map.empty, as_next = 0,
     as_pcs = (\<lambda>_. W_Idle), as_calls = [], as_made = Map.empty\<rparr>"

text \<open>
  What both functions do with the context: \<open>new\<close>, \<open>CreateThreadpoolWork\<close>, which succeeds or not, and
  \<open>SubmitThreadpoolWork\<close>; the context is deleted when there is no work.
\<close>

definition async_submit :: "bool \<Rightarrow> dword \<Rightarrow> ('x, 'a) closure \<Rightarrow> ('x, 'a) async \<Rightarrow> 'x exn option \<times> ('x, 'a) async" where
  "async_submit created le c s =
     (let n = as_next s;
          s1 = s\<lparr>as_ctx := (as_ctx s)(n \<mapsto> c), as_next := Suc n\<rparr>
      in if \<not> created
         then (Some (Thread_Exn ''CreateThreadpoolWork failed'' le), s1\<lparr>as_ctx := (as_ctx s1)(n := None)\<rparr>)
         else (None, s1\<lparr>as_works := (as_works s1)(n \<mapsto> \<lparr>wi_ctx = n, wi_queued = 1\<rparr>)\<rparr>))"

definition async_Run ::
  "bool \<Rightarrow> dword \<Rightarrow> ('x, 'a) result \<Rightarrow> ('x, 'a) async \<Rightarrow> ('x, handle) result \<times> ('x, 'a) async" where
  "async_Run created le r s =
     (case promise_new (as_futures s) of
        (promise, fs) \<Rightarrow> (case promise_GetFuture le promise of
          Inl e \<Rightarrow> (Inl e, s\<lparr>as_futures := fs\<rparr>)
        | Inr future \<Rightarrow>
            (case async_submit created le (C_Run r (the promise)) (s\<lparr>as_futures := fs\<rparr>) of
               (Some e, s') \<Rightarrow> (Inl e, s')
             | (None, s') \<Rightarrow> (Inr future, s'\<lparr>as_made := (as_made s')(the promise \<mapsto> r)\<rparr>))))"

definition async_RunDetached ::
  "bool \<Rightarrow> dword \<Rightarrow> ('x, unit) result \<Rightarrow> ('x, 'a) async \<Rightarrow> ('x, unit) result \<times> ('x, 'a) async" where
  "async_RunDetached created le r s =
     (case async_submit created le (C_Detached r) s of
        (Some e, s') \<Rightarrow> (Inl e, s')
      | (None, s') \<Rightarrow> (Inr (), s'))"

text \<open>
  The statements of the callback: the call of the bound function up to its setter, the setters,
  \<open>delete\<close> and \<open>CloseThreadpoolWork\<close>. An exception of the function or of \<open>SetValue\<close> goes to \<open>SetException\<close>,
  and one of \<open>SetException\<close> is suppressed, as is every exception of a detached function.
\<close>

fun callback_step :: "dword \<Rightarrow> tid \<Rightarrow> ('x, 'a) async \<Rightarrow> ('x, 'a) callback_pc \<Rightarrow> ('x, 'a) async option" where
  "callback_step le t s (W_Call w c) =
     Some (case as_ctx s c of
        None \<Rightarrow> s\<lparr>as_pcs := (as_pcs s)(t := W_Undefined)\<rparr>
      | Some (C_Run r p) \<Rightarrow> s\<lparr>as_calls := as_calls s @ [c],
          as_pcs := (as_pcs s)(t := (case r of Inr v \<Rightarrow> W_Value w c p v | Inl e \<Rightarrow> W_Exception w c p e))\<rparr>
      | Some (C_Detached r) \<Rightarrow> s\<lparr>as_calls := as_calls s @ [c], as_pcs := (as_pcs s)(t := W_Delete w c)\<rparr>)"
| "callback_step le t s (W_Value w c p v) =
     (case promise_SetValue le (Some p) v (as_futures s) of
        None \<Rightarrow> None
      | Some (r, fs) \<Rightarrow> Some (s\<lparr>as_futures := fs,
          as_pcs := (as_pcs s)(t := (case r of None \<Rightarrow> W_Delete w c | Some e \<Rightarrow> W_Exception w c p e))\<rparr>))"
| "callback_step le t s (W_Exception w c p e) =
     (case promise_SetException le (Some p) e (as_futures s) of
        None \<Rightarrow> None
      | Some (r, fs) \<Rightarrow> Some (s\<lparr>as_futures := fs, as_pcs := (as_pcs s)(t := W_Delete w c)\<rparr>))"
| "callback_step le t s (W_Delete w c) =
     Some (if as_ctx s c = None then s\<lparr>as_pcs := (as_pcs s)(t := W_Undefined)\<rparr>
           else s\<lparr>as_ctx := (as_ctx s)(c := None), as_pcs := (as_pcs s)(t := W_Close w)\<rparr>)"
| "callback_step le t s (W_Close w) =
     Some (if as_works s w = None then s\<lparr>as_pcs := (as_pcs s)(t := W_Undefined)\<rparr>
           else s\<lparr>as_works := (as_works s)(w := None), as_pcs := (as_pcs s)(t := W_Idle)\<rparr>)"
| "callback_step le t s _ = None"

datatype ('x, 'a) async_label =
    A_Run bool "('x, 'a) result"
  | A_RunDetached bool "('x, unit) result"
  | A_Begin tid nat
  | A_Callback tid

fun async_step :: "dword \<Rightarrow> ('x, 'a) async_label \<Rightarrow> ('x, 'a) async \<Rightarrow> ('x, 'a) async option" where
  "async_step le (A_Run created r) s = Some (snd (async_Run created le r s))"
| "async_step le (A_RunDetached created r) s = Some (snd (async_RunDetached created le r s))"
| "async_step le (A_Begin t w) s =
     (case as_works s w of
        None \<Rightarrow> None
      | Some wi \<Rightarrow>
          if as_pcs s t = W_Idle \<and> 0 < wi_queued wi
          then Some (s\<lparr>as_works := (as_works s)(w \<mapsto> wi\<lparr>wi_queued := wi_queued wi - 1\<rparr>),
                 as_pcs := (as_pcs s)(t := W_Call w (wi_ctx wi))\<rparr>)
          else None)"
| "async_step le (A_Callback t) s = callback_step le t s (as_pcs s t)"

section \<open>The invariant\<close>

text \<open>The work that a callback serves.\<close>

fun serves :: "('x, 'a) callback_pc \<Rightarrow> nat option" where
  "serves (W_Call w c) = Some w"
| "serves (W_Value w c p v) = Some w"
| "serves (W_Exception w c p e) = Some w"
| "serves (W_Delete w c) = Some w"
| "serves (W_Close w) = Some w"
| "serves _ = None"

text \<open>What holds of a callback: its context, and the state of its promise.\<close>

fun callback_ok :: "('x, 'a) async \<Rightarrow> ('x, 'a) callback_pc \<Rightarrow> bool" where
  "callback_ok s (W_Call w c) \<longleftrightarrow> c = w \<and> as_ctx s w \<noteq> None \<and> w \<notin> set (as_calls s) \<and>
     (\<forall>r p. as_ctx s w = Some (C_Run r p) \<longrightarrow> unset (fs_states (as_futures s) p))"
| "callback_ok s (W_Value w c p v) \<longleftrightarrow> c = w \<and> as_ctx s w = Some (C_Run (Inr v) p) \<and> unset (fs_states (as_futures s) p)"
| "callback_ok s (W_Exception w c p e) \<longleftrightarrow> c = w \<and> as_ctx s w = Some (C_Run (Inl e) p) \<and> unset (fs_states (as_futures s) p)"
| "callback_ok s (W_Delete w c) \<longleftrightarrow> c = w \<and> as_ctx s w \<noteq> None \<and>
     (\<forall>r p. as_ctx s w = Some (C_Run r p) \<longrightarrow> holds_outcome (fs_states (as_futures s) p) r)"
| "callback_ok s (W_Close w) \<longleftrightarrow> as_ctx s w = None"
| "callback_ok s W_Idle \<longleftrightarrow> True"
| "callback_ok s W_Undefined \<longleftrightarrow> False"

text \<open>The work with the address \<open>n\<close> is absent, waits for a thread, or is served by one.\<close>

definition work_free :: "('x, 'a) async \<Rightarrow> nat \<Rightarrow> bool" where
  "work_free s n \<longleftrightarrow> as_works s n = None \<and> as_ctx s n = None \<and> (\<forall>t. serves (as_pcs s t) \<noteq> Some n)"

definition work_queued :: "('x, 'a) async \<Rightarrow> nat \<Rightarrow> bool" where
  "work_queued s n \<longleftrightarrow> as_works s n = Some \<lparr>wi_ctx = n, wi_queued = 1\<rparr> \<and> as_ctx s n \<noteq> None \<and>
     (\<forall>t. serves (as_pcs s t) \<noteq> Some n) \<and> n \<notin> set (as_calls s) \<and>
     (\<forall>r p. as_ctx s n = Some (C_Run r p) \<longrightarrow> unset (fs_states (as_futures s) p))"

definition work_served :: "('x, 'a) async \<Rightarrow> nat \<Rightarrow> bool" where
  "work_served s n \<longleftrightarrow> as_works s n = Some \<lparr>wi_ctx = n, wi_queued = 0\<rparr> \<and>
     (\<exists>t. serves (as_pcs s t) = Some n \<and> (\<forall>u. serves (as_pcs s u) = Some n \<longrightarrow> u = t))"

definition promises_ok :: "('x, 'a) async \<Rightarrow> bool" where
  "promises_ok s \<longleftrightarrow>
     (\<forall>p. fs_next (as_futures s) \<le> p \<longrightarrow> unset (fs_states (as_futures s) p) \<and> as_made s p = None) \<and>
     (\<forall>n r p. as_ctx s n = Some (C_Run r p) \<longrightarrow> as_made s p = Some r \<and> p < fs_next (as_futures s)) \<and>
     (\<forall>n m r r' p. as_ctx s n = Some (C_Run r p) \<longrightarrow> as_ctx s m = Some (C_Run r' p) \<longrightarrow> n = m) \<and>
     (\<forall>p r. as_made s p = Some r \<longrightarrow>
        (\<exists>n. as_ctx s n = Some (C_Run r p)) \<or> holds_outcome (fs_states (as_futures s) p) r)"

definition async_inv :: "('x, 'a) async \<Rightarrow> bool" where
  "async_inv s \<longleftrightarrow>
     (\<forall>n. work_free s n \<or> work_queued s n \<or> work_served s n) \<and>
     (\<forall>n. as_next s \<le> n \<longrightarrow> work_free s n \<and> n \<notin> set (as_calls s)) \<and>
     (\<forall>t. callback_ok s (as_pcs s t)) \<and>
     distinct (as_calls s) \<and> promises_ok s \<and> finite {t. as_pcs s t \<noteq> W_Idle}"

lemma async_invD:
  assumes "async_inv s"
  shows "work_free s n \<or> work_queued s n \<or> work_served s n"
    and "as_next s \<le> n \<Longrightarrow> work_free s n \<and> n \<notin> set (as_calls s)"
    and "callback_ok s (as_pcs s t)" and "distinct (as_calls s)" and "promises_ok s"
    and "finite {t. as_pcs s t \<noteq> W_Idle}"
  using assms by (auto simp: async_inv_def)

lemma promises_okD:
  assumes "promises_ok s"
  shows "fs_next (as_futures s) \<le> p \<Longrightarrow> unset (fs_states (as_futures s) p) \<and> as_made s p = None"
    and "as_ctx s n = Some (C_Run r p) \<Longrightarrow> as_made s p = Some r \<and> p < fs_next (as_futures s)"
    and "as_ctx s n = Some (C_Run r p) \<Longrightarrow> as_ctx s m = Some (C_Run r' p) \<Longrightarrow> n = m"
    and "as_made s p = Some r \<Longrightarrow> (\<exists>n. as_ctx s n = Some (C_Run r p)) \<or> holds_outcome (fs_states (as_futures s) p) r"
  using assms unfolding promises_ok_def by blast+

text \<open>A thread serves a work that only it serves.\<close>

lemma served_by:
  assumes inv: "async_inv s" and "serves (as_pcs s t) = Some w"
  shows "work_served s w" and "serves (as_pcs s u) = Some w \<Longrightarrow> u = t" and "w < as_next s"
proof -
  show w: "work_served s w"
    using async_invD(1) [OF inv, of w] assms(2) by (auto simp: work_free_def work_queued_def)
  show "serves (as_pcs s u) = Some w \<Longrightarrow> u = t" using w assms(2) by (auto simp: work_served_def)
  show "w < as_next s"
    using async_invD(2) [OF inv, of w] assms(2) by (fastforce simp: work_free_def not_less [symmetric])
qed

text \<open>A change at the work \<open>w\<close> by the thread \<open>t\<close> leaves the other works and threads alone.\<close>

definition same_at :: "('x, 'a) async \<Rightarrow> ('x, 'a) async \<Rightarrow> nat \<Rightarrow> bool" where
  "same_at s s' n \<longleftrightarrow> as_works s' n = as_works s n \<and> as_ctx s' n = as_ctx s n \<and>
     (n \<in> set (as_calls s') \<longleftrightarrow> n \<in> set (as_calls s)) \<and>
     (\<forall>r p. as_ctx s n = Some (C_Run r p) \<longrightarrow> fs_states (as_futures s') p = fs_states (as_futures s) p)"

lemma callback_ok_frame:
  "callback_ok s pc \<Longrightarrow> (\<And>n. serves pc = Some n \<Longrightarrow> same_at s s' n) \<Longrightarrow> callback_ok s' pc"
  by (cases pc) (auto simp: same_at_def)

lemma async_inv_frame:
  assumes inv: "async_inv s"
    and same: "\<And>n. n \<noteq> w \<Longrightarrow> same_at s s' n"
    and pcs: "as_pcs s' = (as_pcs s)(t := pc)"
    and t: "serves (as_pcs s t) = None \<or> serves (as_pcs s t) = Some w"
    and pc: "serves pc = None \<or> serves pc = Some w"
    and only: "\<And>u. u \<noteq> t \<Longrightarrow> serves (as_pcs s u) \<noteq> Some w"
    and ok: "callback_ok s' pc"
    and w: "work_free s' w \<or> work_queued s' w \<or> work_served s' w" "as_next s \<le> w \<Longrightarrow> False" "as_next s' = as_next s"
    and "distinct (as_calls s')" "promises_ok s'"
  shows "async_inv s'"
  unfolding async_inv_def
proof (intro conjI allI impI)
  have serves: "serves (as_pcs s' u) = Some n \<longleftrightarrow> serves (as_pcs s u) = Some n" if "n \<noteq> w" for u n
    using that t pc pcs by auto
  have frees: "work_free s n \<Longrightarrow> work_free s' n" if "n \<noteq> w" for n
    using same [OF that] serves [OF that] by (auto simp: work_free_def same_at_def)
  show "work_free s' n \<or> work_queued s' n \<or> work_served s' n" for n
  proof (cases "n = w")
    case False
    from same [OF False] serves [OF False] have
      "work_queued s n \<Longrightarrow> work_queued s' n" "work_served s n \<Longrightarrow> work_served s' n"
      by (auto simp: work_queued_def work_served_def same_at_def)
    with frees [OF False] async_invD(1) [OF inv, of n] show ?thesis by blast
  qed (use w in simp)
  fix n assume n: "as_next s' \<le> n"
  with w have nw: "n \<noteq> w" by auto
  from n w(3) have f: "work_free s n \<and> n \<notin> set (as_calls s)" using async_invD(2) [OF inv] by simp
  show "work_free s' n" using f frees [OF nw] by simp
  show "n \<notin> set (as_calls s')" using f same [OF nw] by (simp add: same_at_def)
next
  show "callback_ok s' (as_pcs s' u)" for u
  proof (cases "u = t")
    case False
    then have "callback_ok s (as_pcs s u)" "\<And>n. serves (as_pcs s u) = Some n \<Longrightarrow> same_at s s' n"
      using async_invD(3) [OF inv] only [OF False] same by auto
    then show ?thesis using False pcs callback_ok_frame by fastforce
  qed (use pcs ok in simp)
  have "{u. as_pcs s' u \<noteq> W_Idle} \<subseteq> insert t {u. as_pcs s u \<noteq> W_Idle}" using pcs by auto
  then show "finite {u. as_pcs s' u \<noteq> W_Idle}" using async_invD(6) [OF inv] finite_subset by blast
qed (fact assms)+

lemma promises_ok_same:
  "promises_ok s \<Longrightarrow> as_futures s' = as_futures s \<Longrightarrow> as_ctx s' = as_ctx s \<Longrightarrow> as_made s' = as_made s \<Longrightarrow> promises_ok s'"
  by (simp add: promises_ok_def)

text \<open>A setter of the promise of the context \<open>w\<close> that has succeeded.\<close>

lemma promises_ok_set:
  assumes ok: "promises_ok s" and w: "as_ctx s w = Some (C_Run r p)"
    and p: "holds_outcome (fs_states fs p) r" and others: "\<And>q. q \<noteq> p \<Longrightarrow> fs_states fs q = fs_states (as_futures s) q"
    and "fs_next fs = fs_next (as_futures s)"
    and s': "as_futures s' = fs" "as_ctx s' = as_ctx s" "as_made s' = as_made s"
  shows "promises_ok s'" and "n \<noteq> w \<Longrightarrow> as_ctx s n = Some (C_Run r' q) \<Longrightarrow> fs_states fs q = fs_states (as_futures s) q"
proof -
  note D = promises_okD [OF ok]
  have pn: "as_made s p = Some r" "p < fs_next (as_futures s)" using D(2) [OF w] by auto
  have "\<exists>n. as_ctx s n = Some (C_Run r' q)" if "as_made s q = Some r'" "\<not> holds_outcome (fs_states fs q) r'" for q r'
    using D(4) [OF that(1)] that pn p others [of q] by (cases "q = p") auto
  moreover have "unset (fs_states fs q) \<and> as_made s q = None" if "fs_next (as_futures s) \<le> q" for q
    using D(1) [OF that] that pn others [of q] by auto
  ultimately show "promises_ok s'"
    using D(2,3) assms(5) unfolding promises_ok_def s' by (intro conjI allI impI) (auto; blast)+
  show "n \<noteq> w \<Longrightarrow> as_ctx s n = Some (C_Run r' q) \<Longrightarrow> fs_states fs q = fs_states (as_futures s) q"
    using D(3) [OF w, of n r'] others by (cases "q = p") auto
qed

lemma work_served_same:
  "work_served s w \<Longrightarrow> as_works s' w = as_works s w \<Longrightarrow> as_pcs s' = (as_pcs s)(t := pc) \<Longrightarrow>
   serves (as_pcs s t) = Some w \<Longrightarrow> serves pc = Some w \<Longrightarrow> work_served s' w"
  by (auto simp: work_served_def)

lemma inv_callback:
  assumes inv: "async_inv s" and st: "callback_step le t s (as_pcs s t) = Some s'"
  shows "async_inv s'"
proof -
  have ok: "callback_ok s (as_pcs s t)" and dist: "distinct (as_calls s)" and prom: "promises_ok s"
    using async_invD [OF inv] by auto
  show ?thesis
  proof (cases "as_pcs s t")
    case (W_Call w c)
    note sv = served_by [OF inv, of t w]
    from ok W_Call obtain cl where c: "c = w" "as_ctx s w = Some cl" "w \<notin> set (as_calls s)" by auto
    obtain pc where s': "s' = s\<lparr>as_calls := as_calls s @ [w], as_pcs := (as_pcs s)(t := pc)\<rparr>"
      and pc: "pc = (case cl of C_Run r p \<Rightarrow> (case r of Inr v \<Rightarrow> W_Value w w p v | Inl e \<Rightarrow> W_Exception w w p e)
        | C_Detached r \<Rightarrow> W_Delete w w)"
      using st W_Call c by (cases cl) (auto split: sum.splits)
    show ?thesis
    proof (rule async_inv_frame [OF inv])
      show "as_pcs s' = (as_pcs s)(t := pc)" by (simp add: s')
      show "serves (as_pcs s t) = None \<or> serves (as_pcs s t) = Some w" using W_Call by simp
      show pcw: "serves pc = None \<or> serves pc = Some w" by (auto simp: pc split: closure.splits sum.splits)
      show "callback_ok s' pc" using ok W_Call c by (auto simp: pc s' split: closure.splits sum.splits)
      have "serves pc = Some w" by (auto simp: pc split: closure.splits sum.splits)
      then have "work_served s' w" using sv W_Call by (intro work_served_same [of s w s' t pc]) (simp_all add: s')
      then show "work_free s' w \<or> work_queued s' w \<or> work_served s' w" by simp
      show "promises_ok s'" using prom by (rule promises_ok_same) (simp_all add: s')
    qed (use sv W_Call dist c in \<open>auto simp: s' same_at_def\<close>)
  next
    case (W_Value w c p v)
    note sv = served_by [OF inv, of t w]
    from ok W_Value have c: "c = w" "as_ctx s w = Some (C_Run (Inr v) p)" "unset (fs_states (as_futures s) p)" by auto
    from set_value_unset [OF c(3), of le v] obtain fs where
      set: "promise_SetValue le (Some p) v (as_futures s) = Some (None, fs)" "holds_outcome (fs_states fs p) (Inr v)"
        "\<And>m'. m' \<noteq> p \<Longrightarrow> fs_states fs m' = fs_states (as_futures s) m'" "fs_next fs = fs_next (as_futures s)"
      by metis
    have s': "s' = s\<lparr>as_futures := fs, as_pcs := (as_pcs s)(t := W_Delete w w)\<rparr>" using st W_Value c set by simp
    show ?thesis
    proof (rule async_inv_frame [OF inv])
      show "as_pcs s' = (as_pcs s)(t := W_Delete w w)" by (simp add: s')
      show "serves (as_pcs s t) = None \<or> serves (as_pcs s t) = Some w" using W_Value by simp
      show "callback_ok s' (W_Delete w w)" using c set by (simp add: s')
      have "work_served s' w" using sv W_Value by (intro work_served_same [of s w s' t "W_Delete w w"]) (simp_all add: s')
      then show "work_free s' w \<or> work_queued s' w \<or> work_served s' w" by simp
      show "promises_ok s'" by (rule promises_ok_set(1) [OF prom c(2) set(2,3,4)]) (simp_all add: s')
      show "same_at s s' n" if "n \<noteq> w" for n
        using promises_ok_set(2) [OF prom c(2) set(2,3,4), of s' n] that by (simp add: same_at_def s')
    qed (use sv W_Value dist in \<open>auto simp: s'\<close>)
  next
    case (W_Exception w c p e)
    note sv = served_by [OF inv, of t w]
    from ok W_Exception have c: "c = w" "as_ctx s w = Some (C_Run (Inl e) p)" "unset (fs_states (as_futures s) p)" by auto
    from set_exception_unset [OF c(3), of le e] obtain fs where
      set: "promise_SetException le (Some p) e (as_futures s) = Some (None, fs)" "holds_outcome (fs_states fs p) (Inl e)"
        "\<And>m'. m' \<noteq> p \<Longrightarrow> fs_states fs m' = fs_states (as_futures s) m'" "fs_next fs = fs_next (as_futures s)"
      by metis
    have s': "s' = s\<lparr>as_futures := fs, as_pcs := (as_pcs s)(t := W_Delete w w)\<rparr>" using st W_Exception c set by simp
    show ?thesis
    proof (rule async_inv_frame [OF inv])
      show "as_pcs s' = (as_pcs s)(t := W_Delete w w)" by (simp add: s')
      show "serves (as_pcs s t) = None \<or> serves (as_pcs s t) = Some w" using W_Exception by simp
      show "callback_ok s' (W_Delete w w)" using c set by (simp add: s')
      have "work_served s' w" using sv W_Exception by (intro work_served_same [of s w s' t "W_Delete w w"]) (simp_all add: s')
      then show "work_free s' w \<or> work_queued s' w \<or> work_served s' w" by simp
      show "promises_ok s'" by (rule promises_ok_set(1) [OF prom c(2) set(2,3,4)]) (simp_all add: s')
      show "same_at s s' n" if "n \<noteq> w" for n
        using promises_ok_set(2) [OF prom c(2) set(2,3,4), of s' n] that by (simp add: same_at_def s')
    qed (use sv W_Exception dist in \<open>auto simp: s'\<close>)
  next
    case (W_Delete w c)
    note sv = served_by [OF inv, of t w]
    from ok W_Delete have c: "c = w" "as_ctx s w \<noteq> None"
      "\<And>r p. as_ctx s w = Some (C_Run r p) \<Longrightarrow> holds_outcome (fs_states (as_futures s) p) r" by auto
    have s': "s' = s\<lparr>as_ctx := (as_ctx s)(w := None), as_pcs := (as_pcs s)(t := W_Close w)\<rparr>" using st W_Delete c by simp
    show ?thesis
    proof (rule async_inv_frame [OF inv])
      show "as_pcs s' = (as_pcs s)(t := W_Close w)" by (simp add: s')
      show "serves (as_pcs s t) = None \<or> serves (as_pcs s t) = Some w" using W_Delete by simp
      have "work_served s' w" using sv W_Delete by (intro work_served_same [of s w s' t "W_Close w"]) (simp_all add: s')
      then show "work_free s' w \<or> work_queued s' w \<or> work_served s' w" by simp
      have "(\<exists>n. as_ctx s' n = Some (C_Run r p)) \<or> holds_outcome (fs_states (as_futures s) p) r" if "as_made s p = Some r" for p r
        using promises_okD(4) [OF prom that] c(3) [of r p] by (auto simp: s') metis
      then show "promises_ok s'"
        using promises_okD(1,2,3) [OF prom] unfolding promises_ok_def by (auto simp: s' split: if_splits)
    qed (use sv W_Delete dist in \<open>auto simp: s' same_at_def\<close>)
  next
    case (W_Close w)
    note sv = served_by [OF inv, of t w]
    from ok W_Close have c: "as_ctx s w = None" by simp
    have s': "s' = s\<lparr>as_works := (as_works s)(w := None), as_pcs := (as_pcs s)(t := W_Idle)\<rparr>"
      using st W_Close sv by (auto simp: work_served_def)
    show ?thesis
    proof (rule async_inv_frame [OF inv])
      show "as_pcs s' = (as_pcs s)(t := W_Idle)" by (simp add: s')
      show "serves (as_pcs s t) = None \<or> serves (as_pcs s t) = Some w" using W_Close by simp
      have "work_free s' w" using sv W_Close c by (auto simp: work_free_def s')
      then show "work_free s' w \<or> work_queued s' w \<or> work_served s' w" by simp
      show "promises_ok s'" using prom by (rule promises_ok_same) (simp_all add: s')
    qed (use sv W_Close dist in \<open>auto simp: s' same_at_def\<close>)
  qed (use st in auto)
qed

lemma async_inv_begin:
  assumes inv: "async_inv s" and st: "async_step le (A_Begin t w) s = Some s'"
  shows "async_inv s'"
proof -
  from st obtain wi where wi: "as_works s w = Some wi" "as_pcs s t = W_Idle" "0 < wi_queued wi"
    by (auto split: option.splits if_splits)
  with async_invD(1) [OF inv, of w] have q: "work_queued s w" by (auto simp: work_free_def work_served_def)
  then have wi': "wi = \<lparr>wi_ctx = w, wi_queued = 1\<rparr>" using wi by (simp add: work_queued_def)
  have s': "s' = s\<lparr>as_works := (as_works s)(w \<mapsto> \<lparr>wi_ctx = w, wi_queued = 0\<rparr>), as_pcs := (as_pcs s)(t := W_Call w w)\<rparr>"
    using st wi wi' by simp
  show ?thesis
  proof (rule async_inv_frame [OF inv])
    show "as_pcs s' = (as_pcs s)(t := W_Call w w)" by (simp add: s')
    have "work_served s' w" using q by (auto simp: work_served_def work_queued_def s')
    then show "work_free s' w \<or> work_queued s' w \<or> work_served s' w" by simp
    show "callback_ok s' (W_Call w w)" using q by (auto simp: work_queued_def s')
    show False if "as_next s \<le> w" using async_invD(2) [OF inv that] q by (auto simp: work_free_def work_queued_def)
    show "promises_ok s'" using async_invD(5) [OF inv] by (rule promises_ok_same) (simp_all add: s')
  qed (use q wi async_invD(4) [OF inv] in \<open>auto simp: s' same_at_def work_queued_def\<close>)
qed

text \<open>A new context: \<open>futs\<close> and \<open>made\<close> are as the caller leaves them.\<close>

lemma inv_new:
  assumes inv: "async_inv s" and st: "fs_states fs = fs_states (as_futures s)"
    and ctx: "as_ctx s' = (as_ctx s)(as_next s := c)"
    and works: "as_works s' = (as_works s)(as_next s := (case c of None \<Rightarrow> None | Some _ \<Rightarrow> Some \<lparr>wi_ctx = as_next s, wi_queued = 1\<rparr>))"
    and rest: "as_next s' = Suc (as_next s)" "as_pcs s' = as_pcs s" "as_calls s' = as_calls s" "as_futures s' = fs"
    and run: "\<And>r p. c = Some (C_Run r p) \<Longrightarrow> unset (fs_states fs p)"
    and prom: "promises_ok s'"
  shows "async_inv s'"
  unfolding async_inv_def
proof (intro conjI allI impI)
  let ?n = "as_next s"
  have new: "work_free s ?n" "?n \<notin> set (as_calls s)" using async_invD(2) [OF inv] by auto
  have same: "same_at s s' n" if "n \<noteq> ?n" for n
    using that ctx works rest st by (simp add: same_at_def)
  have frees: "work_free s n \<Longrightarrow> work_free s' n" if "n \<noteq> ?n" for n
    using same [OF that] rest by (auto simp: work_free_def same_at_def)
  show "work_free s' n \<or> work_queued s' n \<or> work_served s' n" for n
  proof (cases "n = ?n")
    case True
    then show ?thesis
      using new ctx works rest run by (cases c) (auto simp: work_free_def work_queued_def)
  next
    case False
    from same [OF False] rest have
      "work_queued s n \<Longrightarrow> work_queued s' n" "work_served s n \<Longrightarrow> work_served s' n"
      by (auto simp: work_queued_def work_served_def same_at_def)
    with frees [OF False] async_invD(1) [OF inv, of n] show ?thesis by blast
  qed
  fix n assume n: "as_next s' \<le> n"
  then show "work_free s' n" "n \<notin> set (as_calls s')" using rest async_invD(2) [OF inv, of n] frees [of n] by auto
next
  show "callback_ok s' (as_pcs s' t)" for t
  proof -
    have "serves (as_pcs s t) \<noteq> Some (as_next s)" using async_invD(2) [OF inv, of "as_next s"] by (simp add: work_free_def)
    then have "same_at s s' n" if "serves (as_pcs s t) = Some n" for n
      using that ctx works rest st by (auto simp: same_at_def)
    then show ?thesis using async_invD(3) [OF inv, of t] rest callback_ok_frame [of s "as_pcs s t" s'] by simp
  qed
qed (use async_invD [OF inv] rest prom in simp_all)

lemma async_inv_run:
  assumes inv: "async_inv s" and st: "async_step le (A_Run created r) s = Some s'"
  shows "async_inv s'"
proof -
  let ?fs = "as_futures s" let ?p = "fs_next ?fs"
  note ok = async_invD(5) [OF inv]
  note D = promises_okD [OF ok]
  have unset: "unset (fs_states ?fs ?p)" "as_made s ?p = None" using D(1) [of ?p] by auto
  have n: "as_ctx s (as_next s) = None" "as_works s (as_next s) = None"
    using async_invD(2) [OF inv, of "as_next s"] by (simp_all add: work_free_def)
  have below: "q \<noteq> ?p" if "as_ctx s m = Some (C_Run r' q)" for m r' q using D(2) [OF that] by auto
  show ?thesis
  proof (cases created)
    case True
    then have s': "s' = s\<lparr>as_futures := ?fs\<lparr>fs_next := Suc ?p\<rparr>, as_ctx := (as_ctx s)(as_next s \<mapsto> C_Run r ?p),
        as_next := Suc (as_next s), as_works := (as_works s)(as_next s \<mapsto> \<lparr>wi_ctx = as_next s, wi_queued = 1\<rparr>),
        as_made := (as_made s)(?p \<mapsto> r)\<rparr>"
      using st by (simp add: async_Run_def promise_new_def promise_GetFuture_def async_submit_def Let_def)
    show ?thesis
    proof (rule inv_new [OF inv, of "?fs\<lparr>fs_next := Suc ?p\<rparr>" s' "Some (C_Run r ?p)"])
      show "promises_ok s'"
        unfolding promises_ok_def
      proof (intro conjI allI impI)
        show "as_made s' q = Some r'" "q < fs_next (as_futures s')" if "as_ctx s' m = Some (C_Run r' q)" for m r' q
          using that D(2) [of m r' q] below [of m r' q] by (auto simp: s' split: if_splits)
        show "m = m'" if "as_ctx s' m = Some (C_Run r1 q)" "as_ctx s' m' = Some (C_Run r2 q)" for m m' r1 r2 q
          using that D(3) [of m r1 q m' r2] below [of m r1 q] below [of m' r2 q] by (auto simp: s' split: if_splits)
        show "(\<exists>m. as_ctx s' m = Some (C_Run r' q)) \<or> holds_outcome (fs_states (as_futures s') q) r'" if "as_made s' q = Some r'" for q r'
        proof (cases "q = ?p")
          case False
          with that D(4) [of q r'] have "(\<exists>m. as_ctx s m = Some (C_Run r' q)) \<or> holds_outcome (fs_states ?fs q) r'" by (simp add: s')
          then show ?thesis
          proof
            assume "\<exists>m. as_ctx s m = Some (C_Run r' q)"
            then obtain m where m: "as_ctx s m = Some (C_Run r' q)" by blast
            with n have "m \<noteq> as_next s" by auto
            with m have "as_ctx s' m = Some (C_Run r' q)" by (simp add: s')
            then show ?thesis by blast
          qed (simp add: s')
        qed (use that in \<open>auto simp: s'\<close>)
      qed (use D(1) in \<open>auto simp: s'\<close>)
    qed (use unset in \<open>auto simp: s'\<close>)
  next
    case False
    then have s': "s' = s\<lparr>as_futures := ?fs\<lparr>fs_next := Suc ?p\<rparr>, as_next := Suc (as_next s)\<rparr>"
      using st n by (simp add: async_Run_def promise_new_def promise_GetFuture_def async_submit_def Let_def fun_upd_idem)
    show ?thesis
    proof (rule inv_new [OF inv, of "?fs\<lparr>fs_next := Suc ?p\<rparr>" s' None])
      show "promises_ok s'"
        using D(1,3,4) less_SucI [OF conjunct2 [OF D(2)]] conjunct1 [OF D(2)] unfolding promises_ok_def s'
        by (intro conjI allI impI) (auto; blast)+
    qed (use n in \<open>auto simp: s'\<close>)
  qed
qed

lemma inv_run_detached:
  assumes inv: "async_inv s" and st: "async_step le (A_RunDetached created r) s = Some s'"
  shows "async_inv s'"
proof -
  note ok = async_invD(5) [OF inv]
  have n: "as_ctx s (as_next s) = None" "as_works s (as_next s) = None"
    using async_invD(2) [OF inv, of "as_next s"] by (simp_all add: work_free_def)
  show ?thesis
  proof (cases created)
    case True
    then have s': "s' = s\<lparr>as_ctx := (as_ctx s)(as_next s \<mapsto> C_Detached r), as_next := Suc (as_next s),
        as_works := (as_works s)(as_next s \<mapsto> \<lparr>wi_ctx = as_next s, wi_queued = 1\<rparr>)\<rparr>"
      using st by (simp add: async_RunDetached_def async_submit_def Let_def)
    show ?thesis
    proof (rule inv_new [OF inv, of "as_futures s" s' "Some (C_Detached r)"])
      have "as_ctx s' m = Some (C_Run r' q) \<longleftrightarrow> as_ctx s m = Some (C_Run r' q)" for m r' q
        using n by (auto simp: s')
      moreover have "as_futures s' = as_futures s" "as_made s' = as_made s" by (simp_all add: s')
      ultimately show "promises_ok s'" using ok by (simp add: promises_ok_def)
    qed (auto simp: s')
  next
    case False
    then have s': "s' = s\<lparr>as_next := Suc (as_next s)\<rparr>"
      using st n by (simp add: async_RunDetached_def async_submit_def Let_def fun_upd_idem)
    have "promises_ok s'" using ok by (rule promises_ok_same) (simp_all add: s')
    then show ?thesis by (intro inv_new [OF inv, of "as_futures s" s' None]) (use n in \<open>auto simp: s'\<close>)
  qed
qed

lemma async_inv_init: "async_inv (async_init d)"
  by (auto simp: async_inv_def async_init_def work_free_def promises_ok_def unset_def futures_new_def shared_new_def)

lemma async_inv_step: "async_inv s \<Longrightarrow> async_step le l s = Some s' \<Longrightarrow> async_inv s'"
  by (cases l) (use async_inv_run inv_run_detached async_inv_begin inv_callback in \<open>auto simp del: async_step.simps(1,2,3)\<close>)

interpretation async_system: inductive_invariant "async_step le" "async_init d" async_inv for le d
  by unfold_locales (rule async_inv_init, rule async_inv_step)

section \<open>What the functions promise\<close>

text \<open>
  C16. Whatever calls of \<open>Run\<close> and \<open>RunDetached\<close> interleave with whatever threads of the pool, and whether
  or not a work can be created, no callback uses a context or a work that is gone. A function is
  called at most once. A context or work that still exists waits for its only callback or is
  served by exactly one thread, so nothing is left once all callbacks have ended.
\<close>

theorem async_contexts_once:
  assumes "reach (async_step le) (async_init d) s"
  shows "as_pcs s t \<noteq> W_Undefined \<and> distinct (as_calls s) \<and>
    (as_ctx s n = None \<and> as_works s n = None \<or>
     as_works s n = Some \<lparr>wi_ctx = n, wi_queued = 1\<rparr> \<and> as_ctx s n \<noteq> None \<and> n \<notin> set (as_calls s) \<or>
     as_works s n = Some \<lparr>wi_ctx = n, wi_queued = 0\<rparr> \<and> (\<exists>!t. serves (as_pcs s t) = Some n))"
proof -
  note inv = async_system.inv_reach [OF assms]
  have "as_pcs s t \<noteq> W_Undefined" using async_invD(3) [OF inv, of t] by auto
  with async_invD(1) [OF inv, of n] async_invD(4) [OF inv] show ?thesis
    unfolding work_free_def work_queued_def work_served_def by metis
qed

lemma async_run_simps:
  "async_step le (A_Run created r) s = Some (snd (async_Run created le r s))"
  "async_Run True le r s = (Inr (Some (fs_next (as_futures s))),
     s\<lparr>as_futures := (as_futures s)\<lparr>fs_next := Suc (fs_next (as_futures s))\<rparr>,
       as_ctx := (as_ctx s)(as_next s \<mapsto> C_Run r (fs_next (as_futures s))), as_next := Suc (as_next s),
       as_works := (as_works s)(as_next s \<mapsto> \<lparr>wi_ctx = as_next s, wi_queued = 1\<rparr>),
       as_made := (as_made s)(fs_next (as_futures s) \<mapsto> r)\<rparr>)"
  by (simp_all add: async_Run_def promise_new_def promise_GetFuture_def async_submit_def Let_def)

definition one_run :: "(unit, int) async_label list" where
  "one_run = [A_Run True (Inr 7), A_Begin 1 0, A_Callback 1]"

lemma one_run: "\<exists>s. run (async_step 0) one_run (async_init 0) = Some s \<and> as_made s 0 = Some (Inr 7) \<and>
    as_works s 0 = Some \<lparr>wi_ctx = 0, wi_queued = 0\<rparr> \<and> \<not> holds_outcome (fs_states (as_futures s) 0) (Inr 7)"
  by (simp add: one_run_def async_run_simps async_init_def futures_new_def shared_new_def holds_outcome_def)

lemma async_contexts_once_witness:
  "\<exists>s :: (unit, int) async. run (async_step 0) one_run (async_init 0) = Some s \<and> (\<exists>!t. serves (as_pcs s t) = Some 0)"
proof -
  obtain s where s: "run (async_step 0) one_run (async_init 0) = Some s" "as_works s 0 = Some \<lparr>wi_ctx = 0, wi_queued = 0\<rparr>"
    using one_run by blast
  from async_contexts_once [OF run_reach [OF s(1)], of 0 0] s show ?thesis by auto
qed

lemma callback_delivers_set:
  assumes inv: "async_inv s" and pc: "as_pcs s t = W_Value n c p v \<and> r = Inr v \<or> as_pcs s t = W_Exception n c p e \<and> r = Inl e"
  shows "\<exists>s'. async_step le (A_Callback t) s = Some s' \<and> holds_outcome (fs_states (as_futures s') p) r"
  using pc
proof
  assume a: "as_pcs s t = W_Value n c p v \<and> r = Inr v"
  then have "unset (fs_states (as_futures s) p)" using async_invD(3) [OF inv, of t] by simp
  from set_value_unset [OF this, of le v] show ?thesis using a by fastforce
next
  assume a: "as_pcs s t = W_Exception n c p e \<and> r = Inl e"
  then have "unset (fs_states (as_futures s) p)" using async_invD(3) [OF inv, of t] by simp
  from set_exception_unset [OF this, of le e] show ?thesis using a by fastforce
qed

lemma callback_delivers_call:
  assumes inv: "async_inv s" and pc: "as_pcs s t = W_Call n n" and c: "as_ctx s n = Some (C_Run r p)"
  shows "\<exists>s'. run (async_step le) [A_Callback t, A_Callback t] s = Some s' \<and> holds_outcome (fs_states (as_futures s') p) r"
proof -
  obtain s1 where s1: "async_step le (A_Callback t) s = Some s1"
    "as_pcs s1 t = (case r of Inr v \<Rightarrow> W_Value n n p v | Inl e \<Rightarrow> W_Exception n n p e)"
    using pc c by simp
  have "async_inv s1" using inv_callback [OF inv, of le t s1] s1 by simp
  from callback_delivers_set [OF this, of t n n p _ r _ le] s1(2)
  obtain s' where "async_step le (A_Callback t) s1 = Some s'" "holds_outcome (fs_states (as_futures s') p) r"
    by (cases r) (auto simp del: async_step.simps)
  with s1(1) show ?thesis by (simp del: async_step.simps)
qed

text \<open>A run of at most three steps of the pool that satisfies the promise.\<close>

abbreviation pool_delivers :: "dword \<Rightarrow> ('x, 'a) async \<Rightarrow> nat \<Rightarrow> ('x, 'a) result \<Rightarrow> bool" where
  "pool_delivers le s p r \<equiv>
     \<exists>ls s'. length ls \<le> 3 \<and> (\<forall>l\<in>set ls. (\<exists>t n. l = A_Begin t n) \<or> (\<exists>t. l = A_Callback t)) \<and>
       run (async_step le) ls s = Some s' \<and> holds_outcome (fs_states (as_futures s') p) r"

lemma queued_delivers:
  assumes inv: "async_inv s" and c: "as_ctx s n = Some (C_Run r p)" and "work_queued s n"
  shows "unset (fs_states (as_futures s) p) \<and> pool_delivers le s p r"
proof
  have "\<exists>t. t \<notin> {t. as_pcs s t \<noteq> W_Idle}" using async_invD(6) [OF inv] ex_new_if_finite [OF infinite_UNIV_nat] by blast
  then obtain t where t: "as_pcs s t = W_Idle" by blast
  then obtain s1 where s1: "async_step le (A_Begin t n) s = Some s1" "as_pcs s1 t = W_Call n n" "as_ctx s1 n = Some (C_Run r p)"
    using assms(3) c by (simp add: work_queued_def)
  from callback_delivers_call [OF async_inv_begin [OF inv s1(1)] s1(2,3), of le]
  obtain s' where "run (async_step le) [A_Callback t, A_Callback t] s1 = Some s'" "holds_outcome (fs_states (as_futures s') p) r" by blast
  then show "pool_delivers le s p r"
    using s1(1) by (intro exI [of _ "[A_Begin t n, A_Callback t, A_Callback t]"] exI [of _ s']) (simp del: async_step.simps)
qed (use assms in \<open>auto simp: work_queued_def\<close>)

lemma served_delivers:
  assumes inv: "async_inv s" and c: "as_ctx s n = Some (C_Run r p)" and "work_served s n"
    and "\<not> holds_outcome (fs_states (as_futures s) p) r"
  shows "unset (fs_states (as_futures s) p) \<and> pool_delivers le s p r"
proof -
  obtain t where t: "serves (as_pcs s t) = Some n" using assms(3) by (auto simp: work_served_def)
  have ok: "callback_ok s (as_pcs s t)" by (rule async_invD(3) [OF inv])
  consider "as_pcs s t = W_Call n n"
    | (setting) v e where "as_pcs s t = W_Value n n p v \<and> r = Inr v \<or> as_pcs s t = W_Exception n n p e \<and> r = Inl e"
    using t ok c assms(4) by (cases "as_pcs s t") auto
  then show ?thesis
  proof cases
    case 1
    from callback_delivers_call [OF inv 1 c, of le] obtain s' where
      "run (async_step le) [A_Callback t, A_Callback t] s = Some s'" "holds_outcome (fs_states (as_futures s') p) r" by blast
    then have "pool_delivers le s p r"
      by (intro exI [of _ "[A_Callback t, A_Callback t]"] exI [of _ s']) (simp del: async_step.simps)
    with 1 ok c show ?thesis by auto
  next
    case setting
    from callback_delivers_set [OF inv setting, of le] obtain s' where
      "async_step le (A_Callback t) s = Some s'" "holds_outcome (fs_states (as_futures s') p) r" by blast
    then have "pool_delivers le s p r" by (intro exI [of _ "[A_Callback t]"] exI [of _ s']) (simp del: async_step.simps)
    with setting ok show ?thesis by auto
  qed
qed

text \<open>
  C2. The future of \<open>Run\<close> gets exactly the outcome of the function. Until its state is ready it is
  untouched; and from every reachable state, at most three steps of the pool, with no further
  call by anyone, make it ready with the value that the function returned or the exception that
  it threw.
\<close>

theorem async_run_delivers:
  assumes "reach (async_step le) (async_init d) s" and made: "as_made s p = Some r"
  shows "(unset (fs_states (as_futures s) p) \<or> holds_outcome (fs_states (as_futures s) p) r) \<and>
    (\<exists>ls s'. length ls \<le> 3 \<and> (\<forall>l\<in>set ls. (\<exists>t n. l = A_Begin t n) \<or> (\<exists>t. l = A_Callback t)) \<and>
      run (async_step le) ls s = Some s' \<and> holds_outcome (fs_states (as_futures s') p) r)"
proof (cases "holds_outcome (fs_states (as_futures s) p) r")
  case True
  then show ?thesis by (intro conjI exI [of _ "[]"] exI [of _ s]) auto
next
  case False
  note inv = async_system.inv_reach [OF assms(1)]
  obtain n where c: "as_ctx s n = Some (C_Run r p)" using False promises_okD(4) [OF async_invD(5) [OF inv] made] by blast
  then consider "work_queued s n" | "work_served s n" using async_invD(1) [OF inv, of n] by (auto simp: work_free_def)
  then show ?thesis using queued_delivers [OF inv c, of le] served_delivers [OF inv c _ False, of le] by cases blast+
qed

lemma async_run_delivers_witness:
  "\<exists>s s' :: (unit, int) async. run (async_step 0) one_run (async_init 0) = Some s \<and>
     unset (fs_states (as_futures s) 0) \<and> (\<exists>ls. length ls \<le> 3 \<and> run (async_step 0) ls s = Some s') \<and>
     holds_outcome (fs_states (as_futures s') 0) (Inr 7)"
proof -
  obtain s where s: "run (async_step 0) one_run (async_init 0) = Some s" "as_made s 0 = Some (Inr 7)"
    "\<not> holds_outcome (fs_states (as_futures s) 0) (Inr 7)"
    using one_run by blast
  from async_run_delivers [OF run_reach [OF s(1)] s(2)] s show ?thesis by blast
qed

end
