(* ===== verification/Pool_Submit.thy ===== *)
theory Pool_Submit
  imports Pool Async_Run
begin

text \<open>
  What \<open>ThreadPool::Submit\<close> and \<open>SubmitDetached\<close> put into the queue of a pool (\<open>src/src/ezthread/pool.hpp\<close>,
  \<open>pool.cpp\<close>), and what the executed tasks of theory \<open>Pool\<close> do to the futures: the composition
  of the pool with \<open>Future\<close> and \<open>Promise\<close>.
\<close>

section \<open>The tasks\<close>

text \<open>A task is the bound function of \<open>Submit\<close> with its promise, or the wrapped function of \<open>SubmitDetached\<close>.\<close>

datatype ('x, 'a) pool_fn = T_Submit "('x, 'a) result" nat | T_Detached "('x, unit) result"

text \<open>\<open>Submit\<close> up to the queue: the promise, its future, and the task.\<close>

definition submit_task ::
  "dword \<Rightarrow> ('x, 'a) result \<Rightarrow> ('x, 'a) futures \<Rightarrow> ('x, handle \<times> ('x, 'a) pool_fn) result \<times> ('x, 'a) futures" where
  "submit_task le r fs =
     (case promise_new fs of
        (promise, fs') \<Rightarrow> (case promise_GetFuture le promise of
          Inl e \<Rightarrow> (Inl e, fs')
        | Inr future \<Rightarrow> (Inr (future, T_Submit r (the promise)), fs')))"

definition submit_detached_task :: "('x, unit) result \<Rightarrow> ('x, 'a) pool_fn" where
  "submit_detached_task r = T_Detached r"

text \<open>\<open>Execute\<close>: the exception that leaves it, and the futures after it.\<close>

fun task_Execute :: "dword \<Rightarrow> ('x, 'a) pool_fn \<Rightarrow> ('x, 'a) futures \<Rightarrow> ('x exn option \<times> ('x, 'a) futures) option" where
  "task_Execute le (T_Submit (Inr v) p) fs =
     (case promise_SetValue le (Some p) v fs of
        Some (Some e, fs') \<Rightarrow> promise_SetException le (Some p) e fs'
      | res \<Rightarrow> res)"
| "task_Execute le (T_Submit (Inl e) p) fs = promise_SetException le (Some p) e fs"
| "task_Execute le (T_Detached r) fs = Some (None, fs)"

section \<open>Submissions and executions in the order of a run\<close>

text \<open>
  What the calls of \<open>Submit\<close> and \<open>SubmitDetached\<close> are given: the outcome of the function. The state is
  the supply of tasks, the task that each call has made, the future that it has returned, and the
  shared states.
\<close>

datatype ('x, 'a) submission = Sub_Future "('x, 'a) result" | Sub_Detached "('x, unit) result"

record ('x, 'a) submitted =
  sub_next :: task
  sub_table :: "task \<Rightarrow> ('x, 'a) pool_fn option"
  sub_future :: "task \<Rightarrow> handle"
  sub_futures :: "('x, 'a) futures"

definition submitted_new :: "'a \<Rightarrow> ('x, 'a) submitted" where
  "submitted_new d = \<lparr>sub_next = 0, sub_table = Map.empty, sub_future = (\<lambda>_. None), sub_futures = futures_new d\<rparr>"

definition submit_call :: "dword \<Rightarrow> ('x, 'a) submission \<Rightarrow> ('x, 'a) submitted \<Rightarrow> ('x, 'a) submitted option" where
  "submit_call le sub st =
     (case sub of
        Sub_Detached r \<Rightarrow> Some (st\<lparr>sub_next := Suc (sub_next st),
          sub_table := (sub_table st)(sub_next st \<mapsto> submit_detached_task r)\<rparr>)
      | Sub_Future r \<Rightarrow>
          (case submit_task le r (sub_futures st) of
             (Inl e, fs) \<Rightarrow> None
           | (Inr (future, f), fs) \<Rightarrow> Some (st\<lparr>sub_next := Suc (sub_next st),
               sub_table := (sub_table st)(sub_next st \<mapsto> f), sub_future := (sub_future st)(sub_next st := future),
               sub_futures := fs\<rparr>)))"

text \<open>An exception that leaves \<open>Execute\<close> would end the program: \<open>None\<close>.\<close>

definition execute_task :: "dword \<Rightarrow> task \<Rightarrow> ('x, 'a) submitted \<Rightarrow> ('x, 'a) submitted option" where
  "execute_task le i st =
     (case sub_table st i of
        None \<Rightarrow> None
      | Some f \<Rightarrow>
          (case task_Execute le f (sub_futures st) of
             Some (None, fs) \<Rightarrow> Some (st\<lparr>sub_futures := fs\<rparr>)
           | _ \<Rightarrow> None))"

text \<open>
  The history of a pool, statement by statement: \<open>Submit\<close> makes the promise where it makes the task,
  and a worker executes the task that was made for its number. \<open>subs i\<close> is what call \<open>i\<close> is given.
\<close>

fun task_effect ::
  "dword \<Rightarrow> (task \<Rightarrow> ('x, 'a) submission) \<Rightarrow> pool_pc \<Rightarrow> ('x, 'a) submitted \<Rightarrow> ('x, 'a) submitted option" where
  "task_effect le subs (PC C_Submit) st = submit_call le (subs (sub_next st)) st"
| "task_effect le subs (PW j (W_Execute i)) st = execute_task le i st"
| "task_effect le subs k st = Some st"

fun task_effects ::
  "dword \<Rightarrow> (task \<Rightarrow> ('x, 'a) submission) \<Rightarrow> (tid \<times> pool_pc) list \<Rightarrow> ('x, 'a) submitted \<Rightarrow> ('x, 'a) submitted option" where
  "task_effects le subs [] st = Some st"
| "task_effects le subs ((t, k) # lg) st =
     (case task_effect le subs k st of None \<Rightarrow> None | Some st' \<Rightarrow> task_effects le subs lg st')"

lemma task_effects_append:
  "task_effects le subs (lg @ lg') st =
     (case task_effects le subs lg st of None \<Rightarrow> None | Some st' \<Rightarrow> task_effects le subs lg' st')"
  by (induction lg arbitrary: st) (auto split: option.splits)

section \<open>The futures of the executed tasks\<close>

lemma task_Execute_unset:
  assumes "unset (fs_states fs p)"
  obtains fs' where "task_Execute le (T_Submit r p) fs = Some (None, fs')"
    and "holds_outcome (fs_states fs' p) r" and "\<And>q. q \<noteq> p \<Longrightarrow> fs_states fs' q = fs_states fs q"
    and "fs_next fs' = fs_next fs"
proof (cases r)
  case (Inl e)
  from set_exception_unset [OF assms, of le e] show ?thesis using Inl that by (metis task_Execute.simps(2))
next
  case (Inr v)
  from set_value_unset [OF assms, of le v] obtain fs' where "promise_SetValue le (Some p) v fs = Some (None, fs')"
    "holds_outcome (fs_states fs' p) (Inr v)" "\<And>m. m \<noteq> p \<Longrightarrow> fs_states fs' m = fs_states fs m"
    "fs_next fs' = fs_next fs" by metis
  then show ?thesis using Inr that by simp
qed

text \<open>
  After \<open>n\<close> submissions, of which the tasks \<open>E\<close> were executed: each task with a future has a promise
  of its own, which holds the outcome of its function or is not set.
\<close>

definition delivered :: "('x, 'a) submitted \<Rightarrow> bool \<Rightarrow> task \<Rightarrow> ('x, 'a) result \<Rightarrow> bool" where
  "delivered st ex i r \<longleftrightarrow> (\<exists>p. sub_table st i = Some (T_Submit r p) \<and> sub_future st i = Some p \<and>
     p < fs_next (sub_futures st) \<and>
     (if ex then holds_outcome (fs_states (sub_futures st) p) r else unset (fs_states (sub_futures st) p)))"

definition submitted_ok ::
  "(task \<Rightarrow> ('x, 'a) submission) \<Rightarrow> nat \<Rightarrow> task set \<Rightarrow> ('x, 'a) submitted \<Rightarrow> bool" where
  "submitted_ok subs n E st \<longleftrightarrow> sub_next st = n \<and>
     (\<forall>i<n. \<forall>r. subs i = Sub_Future r \<longrightarrow> delivered st (i \<in> E) i r) \<and>
     (\<forall>i<n. \<forall>r. subs i = Sub_Detached r \<longrightarrow> sub_table st i = Some (T_Detached r)) \<and>
     (\<forall>i p. sub_future st i = Some p \<longrightarrow> i < n \<and> p < fs_next (sub_futures st) \<and> (\<exists>r. subs i = Sub_Future r)) \<and>
     (\<forall>i j p. sub_future st i = Some p \<longrightarrow> sub_future st j = Some p \<longrightarrow> i = j) \<and>
     (\<forall>q\<ge>fs_next (sub_futures st). unset (fs_states (sub_futures st) q))"

lemma submitted_ok_new: "submitted_ok subs 0 {} (submitted_new d)"
  by (simp add: submitted_ok_def submitted_new_def futures_new_def shared_new_def unset_def)

lemma submitted_okI:
  assumes "sub_next st = n" and "\<And>i r. i < n \<Longrightarrow> subs i = Sub_Future r \<Longrightarrow> delivered st (i \<in> E) i r"
    and "\<And>i r. i < n \<Longrightarrow> subs i = Sub_Detached r \<Longrightarrow> sub_table st i = Some (T_Detached r)"
    and "\<And>i p. sub_future st i = Some p \<Longrightarrow> i < n \<and> p < fs_next (sub_futures st) \<and> (\<exists>r. subs i = Sub_Future r)"
    and "\<And>i j p. sub_future st i = Some p \<Longrightarrow> sub_future st j = Some p \<Longrightarrow> i = j"
    and "\<And>q. fs_next (sub_futures st) \<le> q \<Longrightarrow> unset (fs_states (sub_futures st) q)"
  shows "submitted_ok subs n E st"
  using assms unfolding submitted_ok_def by blast

lemma submitted_okD:
  assumes "submitted_ok subs n E st"
  shows "sub_next st = n" and "i < n \<Longrightarrow> subs i = Sub_Future r \<Longrightarrow> delivered st (i \<in> E) i r"
    and "i < n \<Longrightarrow> subs i = Sub_Detached r' \<Longrightarrow> sub_table st i = Some (T_Detached r')"
    and "sub_future st i = Some p \<Longrightarrow> i < n \<and> p < fs_next (sub_futures st) \<and> (\<exists>r. subs i = Sub_Future r)"
    and "sub_future st i = Some p \<Longrightarrow> sub_future st j = Some p \<Longrightarrow> i = j"
    and "fs_next (sub_futures st) \<le> q \<Longrightarrow> unset (fs_states (sub_futures st) q)"
  using assms unfolding submitted_ok_def by blast+

lemma submit_call_ok:
  assumes ok: "submitted_ok subs n E st" and "n \<notin> E"
  shows "\<exists>st'. submit_call le (subs n) st = Some st' \<and> submitted_ok subs (Suc n) E st'"
proof (cases "subs n")
  case (Sub_Detached r)
  let ?st = "st\<lparr>sub_next := Suc n, sub_table := (sub_table st)(n \<mapsto> T_Detached r)\<rparr>"
  have "submit_call le (subs n) st = Some ?st"
    using Sub_Detached submitted_okD(1) [OF ok] by (simp add: submit_call_def submit_detached_task_def)
  moreover have "delivered ?st (i \<in> E) i r'" if "i < Suc n" "subs i = Sub_Future r'" for i r'
    using that Sub_Detached submitted_okD(2) [OF ok, of i r'] by (cases "i = n"; cases "i \<in> E") (simp_all add: delivered_def)
  then have "submitted_ok subs (Suc n) E ?st"
    using submitted_okD [OF ok] Sub_Detached by (auto simp: submitted_ok_def less_Suc_eq)
  ultimately show ?thesis by blast
next
  case (Sub_Future r)
  let ?p = "fs_next (sub_futures st)"
  let ?st = "st\<lparr>sub_next := Suc n, sub_table := (sub_table st)(n \<mapsto> T_Submit r ?p), sub_future := (sub_future st)(n := Some ?p),
    sub_futures := (sub_futures st)\<lparr>fs_next := Suc ?p\<rparr>\<rparr>"
  have "submit_call le (subs n) st = Some ?st"
    using Sub_Future submitted_okD(1) [OF ok] by (simp add: submit_call_def submit_task_def promise_new_def promise_GetFuture_def)
  moreover have "submitted_ok subs (Suc n) E ?st"
  proof (rule submitted_okI)
    show "delivered ?st (i \<in> E) i r'" if "i < Suc n" "subs i = Sub_Future r'" for i r'
      using that Sub_Future assms(2) submitted_okD(2) [OF ok, of i r'] submitted_okD(6) [OF ok, of ?p]
      by (cases "i = n") (auto simp: delivered_def)
    show "i < Suc n \<and> p < fs_next (sub_futures ?st) \<and> (\<exists>r. subs i = Sub_Future r)" if "sub_future ?st i = Some p" for i p
      using that Sub_Future submitted_okD(4) [OF ok, of i p] by (auto split: if_splits)
    show "i = j" if "sub_future ?st i = Some p" "sub_future ?st j = Some p" for i j p
      using that submitted_okD(5) [OF ok, of i p j] submitted_okD(4) [OF ok, of i p] submitted_okD(4) [OF ok, of j p]
      by (auto split: if_splits)
    show "sub_table ?st i = Some (T_Detached r')" if "i < Suc n" "subs i = Sub_Detached r'" for i r'
      using that Sub_Future submitted_okD(3) [OF ok, of i r'] by (cases "i = n") simp_all
    show "unset (fs_states (sub_futures ?st) q)" if "fs_next (sub_futures ?st) \<le> q" for q
      using that submitted_okD(6) [OF ok, of q] by simp
  qed simp
  ultimately show ?thesis by blast
qed

lemma execute_task_ok:
  assumes ok: "submitted_ok subs n E st" and "i < n" and "i \<notin> E"
  shows "\<exists>st'. execute_task le i st = Some st' \<and> submitted_ok subs n (insert i E) st'"
proof (cases "subs i")
  case (Sub_Detached r)
  then have "execute_task le i st = Some st" using submitted_okD(3) [OF ok assms(2)] by (simp add: execute_task_def)
  moreover have "delivered st (j \<in> insert i E) j r'" if "j < n" "subs j = Sub_Future r'" for j r'
    using submitted_okD(2) [OF ok that] that Sub_Detached by (cases "j = i") auto
  then have "submitted_ok subs n (insert i E) st" using submitted_okD [OF ok] by (auto simp: submitted_ok_def)
  ultimately show ?thesis by blast
next
  case (Sub_Future r)
  let ?fs = "sub_futures st"
  obtain p where p: "sub_table st i = Some (T_Submit r p)" "sub_future st i = Some p" "p < fs_next ?fs" "unset (fs_states ?fs p)"
    using submitted_okD(2) [OF ok assms(2) Sub_Future] assms(3) by (auto simp: delivered_def)
  obtain fs where fs: "task_Execute le (T_Submit r p) ?fs = Some (None, fs)" "holds_outcome (fs_states fs p) r"
    "\<And>q. q \<noteq> p \<Longrightarrow> fs_states fs q = fs_states ?fs q" "fs_next fs = fs_next ?fs"
    using task_Execute_unset [OF p(4)] by metis
  let ?st = "st\<lparr>sub_futures := fs\<rparr>"
  have "execute_task le i st = Some ?st" using p(1) fs(1) by (simp add: execute_task_def)
  moreover have "delivered ?st (j \<in> insert i E) j r'" if j: "j < n" "subs j = Sub_Future r'" for j r'
  proof (cases "j = i")
    case True
    then show ?thesis using j Sub_Future p fs(2,4) by (simp add: delivered_def)
  next
    case False
    obtain q where q: "sub_table st j = Some (T_Submit r' q)" "sub_future st j = Some q" "q < fs_next ?fs"
      "if j \<in> E then holds_outcome (fs_states ?fs q) r' else unset (fs_states ?fs q)"
      using submitted_okD(2) [OF ok j] by (auto simp: delivered_def)
    have "q \<noteq> p" using submitted_okD(5) [OF ok q(2), of i] p(2) False by blast
    with q fs(3,4) False show ?thesis by (simp add: delivered_def)
  qed
  moreover have "unset (fs_states fs q)" if "fs_next ?fs \<le> q" for q
    using submitted_okD(6) [OF ok that] fs(3) [of q] p(3) that by simp
  ultimately show ?thesis
    using submitted_okD(1,3,4,5) [OF ok] fs(4) by (intro exI [of _ ?st]) (auto simp: submitted_ok_def)
qed

lemma executed_pushed:
  assumes "win_sync_ok api" and "reach (pool_step api) (mon_init api (pool_new hw c)) s"
  shows "distinct (executed (mon_log s)) \<and> set (executed (mon_log s)) \<subseteq> set (pushed (mon_log s))"
proof -
  have J: "tasks_J (mon_data s) (mon_pcs s) (mon_log s) (mon_asleep api s)"
    by (rule pool_tasks.reach_J [OF assms(1) _ assms(2)]) simp
  then obtain gone where gone: "pushed (mon_log s) = gone @ pl_taskQueue (mon_data s)" "subseq (taken (mon_log s)) gone"
    unfolding tasks_J_def by blast
  have "set (taken (mon_log s)) \<subseteq> set gone" using gone(2) subseq_order.trans by (metis subsetI subseq_singleton_left)
  then have "set (taken (mon_log s)) \<subseteq> set (pushed (mon_log s))" using gone(1) by auto
  then show ?thesis using J by (auto simp: tasks_J_def)
qed

lemma executed_submitted:
  assumes "win_sync_ok api" and "reach (pool_step api) (mon_init api (pool_new hw c)) s"
  shows "\<forall>i\<in>set (executed (mon_log s)). i < pl_next (mon_data s)"
  using executed_pushed [OF assms] pool_tasks.reach_J [OF assms(1) _ assms(2)] by (auto simp: tasks_J_def)

text \<open>The statement of a thread, and its effect on the tasks.\<close>

lemma pool_new_next: "pl_next (pool_new hw c) = 0"
proof -
  have "pl_next ((create_worker ^^ n) p) = pl_next p" for n p
    by (induction n) (simp_all add: create_worker_def Let_def)
  then show ?thesis by (simp add: pool_new_def)
qed

lemma task_effect_ok:
  assumes ok: "submitted_ok subs (pl_next p) E st" and "pool_prog k p = (p', j)"
    and "\<forall>x\<in>E. x < pl_next p" and "\<And>x. executing_task k = Some x \<Longrightarrow> x \<notin> E \<and> x < pl_next p'"
  shows "\<exists>st'. task_effect le subs k st = Some st' \<and>
    submitted_ok subs (pl_next p') (E \<union> set_option (executing_task k)) st'"
proof -
  consider "k = PC C_Submit" | j' x where "k = PW j' (W_Execute x)"
    | "k \<noteq> PC C_Submit" "executing_task k = None" "task_effect le subs k st = Some st"
    by (cases "(le, subs, k, st)" rule: task_effect.cases) auto
  then show ?thesis
  proof cases
    case 1
    moreover have "sub_next st = pl_next p" using ok by (simp add: submitted_ok_def)
    moreover have "pl_next p \<notin> E" using assms(3) by blast
    ultimately show ?thesis using submit_call_ok [OF ok, of le] assms(2) by auto
  next
    case 2
    then have "pl_next p' = pl_next p" using pool_run_next [OF assms(2)] by simp
    with 2 show ?thesis using execute_task_ok [OF ok, of x le] assms(4) by simp
  next
    case 3
    then show ?thesis using ok pool_run_next [OF assms(2)] by simp
  qed
qed

lemma history_submitted:
  assumes "win_sync_ok api" and "reach (pool_step api) (mon_init api (pool_new hw c)) s"
  shows "\<exists>st. task_effects le subs (mon_log s) (submitted_new d) = Some st \<and>
    submitted_ok subs (pl_next (mon_data s)) (set (executed (mon_log s))) st"
  using assms(2)
proof (induction rule: reach.induct)
  case reach_init
  show ?case by (simp add: mon_init_def pool_new_next submitted_ok_new)
next
  case (reach_step s l s')
  then obtain st where st: "task_effects le subs (mon_log s) (submitted_new d) = Some st"
    "submitted_ok subs (pl_next (mon_data s)) (set (executed (mon_log s))) st" by blast
  have r': "reach (pool_step api) (mon_init api (pool_new hw c)) s'" by (rule reach.reach_step [OF reach_step.hyps])
  from reach_step.hyps(2) show ?case
  proof (rule mon_step_log)
    assume "mon_log s' = mon_log s"
    moreover have "mon_data s' = mon_data s"
      using reach_step.hyps(2) \<open>mon_log s' = mon_log s\<close> by (cases l) (auto split: thread_pc.splits option.splits prod.splits if_splits)
    ultimately show ?thesis using st by simp
  next
    fix t k assume k: "l = M_Run t" "mon_pcs s t = T_At k" "mon_log s' = mon_log s @ [(t, k)]"
    obtain p' j where p: "pool_prog k (mon_data s) = (p', j)" by fastforce
    then have d: "mon_data s' = p'" using reach_step.hyps(2) k(1,2) by auto
    have "distinct (executed (mon_log s'))" using executed_pushed [OF assms(1) r'] by simp
    then have new: "x \<notin> set (executed (mon_log s)) \<and> x < pl_next p'" if "executing_task k = Some x" for x
      using that k(3) d executed_submitted [OF assms(1) r'] by auto
    from task_effect_ok [OF st(2) p executed_submitted [OF assms(1) reach_step.hyps(1)] new] obtain st' where
      "task_effect le subs k st = Some st'"
      "submitted_ok subs (pl_next p') (set (executed (mon_log s)) \<union> set_option (executing_task k)) st'" by blast
    moreover have "set (executed (mon_log s')) = set (executed (mon_log s)) \<union> set_option (executing_task k)"
      using k(3) by (cases "executing_task k") auto
    ultimately show ?thesis using st(1) k(3) d by (simp add: task_effects_append)
  qed
qed

text \<open>
  C3. Submitting and executing through a pool: whatever the clients submit and however the pool is
  scheduled, no call of \<open>Submit\<close> fails, no executed task throws, and every call has returned a future
  of its own. The promise of that future holds exactly the value or the exception of the function
  of the call once its task was executed, and is not set before.
\<close>

theorem submit_futures_deliver:
  assumes "win_sync_ok api" and "reach (pool_step api) (mon_init api (pool_new hw c)) s"
  shows "\<exists>st. task_effects le subs (mon_log s) (submitted_new d) = Some st \<and> sub_next st = pl_next (mon_data s) \<and>
    (\<forall>i < sub_next st. \<forall>r. subs i = Sub_Future r \<longrightarrow> (\<exists>p. sub_future st i = Some p \<and>
       (if i \<in> set (executed (mon_log s)) then holds_outcome (fs_states (sub_futures st) p) r
        else unset (fs_states (sub_futures st) p)))) \<and>
    (\<forall>i j p. sub_future st i = Some p \<longrightarrow> sub_future st j = Some p \<longrightarrow> i = j) \<and>
    set (executed (mon_log s)) \<subseteq> {..<sub_next st}"
proof -
  obtain st where st: "task_effects le subs (mon_log s) (submitted_new d) = Some st"
    "submitted_ok subs (pl_next (mon_data s)) (set (executed (mon_log s))) st"
    using history_submitted [OF assms, of le subs d] by blast
  have "\<exists>p. sub_future st i = Some p \<and> (if i \<in> set (executed (mon_log s))
      then holds_outcome (fs_states (sub_futures st) p) r else unset (fs_states (sub_futures st) p))"
    if "i < sub_next st" "subs i = Sub_Future r" for i r
    using submitted_okD(2) [OF st(2), of i r] that submitted_okD(1) [OF st(2)] by (auto simp: delivered_def)
  then show ?thesis
    using st(1) executed_submitted [OF assms] submitted_okD(1,5) [OF st(2)] by (intro exI [of _ st]) auto
qed

text \<open>Two tasks of a client that one worker executes: the second one throws.\<close>

definition take_run :: "pool_pc mon_label list" where
  "take_run = [M_Run 1, M_Run 1, M_Enter 1] @ replicate 8 (M_Run 1) @ [M_Enter 1] @ replicate 4 (M_Run 1) @
     [M_Enter 1, M_Run 1, M_Run 1]"

lemma two_tasks_demo:
  "\<exists>s. run (pool_step fifo_sync) (submit_run @ submit_run @ [M_Call 1 (PW 0 W_Start), M_Run 1] @ take_run @ take_run) pool_demo = Some s \<and>
     pl_next (mon_data s) = 2 \<and> pushed (mon_log s) = [0, 1] \<and> executed (mon_log s) = [0, 1]"
  by (simp add: pool_run_simps take_run_def numeral_eq_Suc)

abbreviation demo_subs :: "task \<Rightarrow> (unit, int) submission" where
  "demo_subs \<equiv> \<lambda>i. Sub_Future (if i = 0 then Inr 5 else Inl (User_Exn ()))"

lemma submit_futures_deliver_witness:
  "\<exists>(s :: (pool_mutex, pool_pc, pool) fifo_mon) st p. executed (mon_log s) = [0, 1] \<and>
     task_effects 0 demo_subs (mon_log s) (submitted_new 0) = Some st \<and>
     sub_future st 1 = Some p \<and> holds_outcome (fs_states (sub_futures st) p) (Inl (User_Exn ()))"
proof -
  obtain s where s: "run (pool_step fifo_sync) (submit_run @ submit_run @ [M_Call 1 (PW 0 W_Start), M_Run 1] @ take_run @ take_run) pool_demo = Some s"
    "pl_next (mon_data s) = 2" "executed (mon_log s) = [0, 1]"
    using two_tasks_demo by blast
  obtain st where st: "task_effects 0 demo_subs (mon_log s) (submitted_new 0) = Some st" "sub_next st = pl_next (mon_data s)"
    "\<forall>i < sub_next st. \<forall>r. demo_subs i = Sub_Future r \<longrightarrow> (\<exists>p. sub_future st i = Some p \<and>
       (if i \<in> set (executed (mon_log s)) then holds_outcome (fs_states (sub_futures st) p) r
        else unset (fs_states (sub_futures st) p)))"
    using submit_futures_deliver [OF fifo_sync_ok run_reach [OF s(1)], of 0 demo_subs 0] by blast
  from st(3) [rule_format, of 1 "Inl (User_Exn ())"] st(1,2) s(2,3) show ?thesis by auto
qed

end
