(* ===== verification/Parallel.thy ===== *)
theory Parallel
  imports Prelude
begin

text \<open>
  How the loops of the library are split into the tasks of a pool: \<open>ParallelFor\<close> of
  \<open>src/src/ezthread/pool.cpp\<close>, and \<open>ForEach\<close>, \<open>Reduce\<close> and \<open>Sort\<close> of namespace
  \<open>parallel\<close> in \<open>src/src/ezthread/sync.hpp\<close>. The tasks of one call touch different indices,
  and the call waits for all of them, so that the order in which the pool runs them does not
  matter; \<open>hw\<close> stands for \<open>std::thread::hardware_concurrency()\<close>.
\<close>

section \<open>ParallelFor\<close>

text \<open>
  The loop over the tasks, with \<open>size_t\<close> arithmetic: \<open>n\<close> turns are left, and \<open>i\<close> is the
  next one.
\<close>

fun pf_loop :: "size_t \<Rightarrow> size_t \<Rightarrow> size_t \<Rightarrow> nat \<Rightarrow> size_t \<Rightarrow> (size_t \<times> size_t) list" where
  "pf_loop b e chunk 0 i = []"
| "pf_loop b e chunk (Suc n) i =
     (let chunkBegin = b + i * chunk; chunkEnd = min e (chunkBegin + chunk)
      in if chunkBegin \<ge> chunkEnd then [] else (chunkBegin, chunkEnd) # pf_loop b e chunk n (i + 1))"

text \<open>The ranges of the tasks, or the one range that the caller runs through itself.\<close>

definition parallel_for :: "size_t \<Rightarrow> size_t \<Rightarrow> size_t \<Rightarrow> (size_t \<times> size_t) list" where
  "parallel_for maxThreads b e =
     (if b \<ge> e then []
      else let cnt = e - b; n = min maxThreads cnt
           in if n \<le> 1 then [(b, e)]
              else pf_loop b e ((cnt + n - 1) div n) (unat n) 0)"

text \<open>The indices for which a task calls the function, in its order.\<close>

definition range_calls :: "size_t \<times> size_t \<Rightarrow> nat list" where
  "range_calls r = [unat (fst r)..<unat (snd r)]"

section \<open>Chunks of a container\<close>

text \<open>The same loop over the positions of a container, whose size is a natural number.\<close>

fun chunk_loop :: "nat \<Rightarrow> nat \<Rightarrow> nat \<Rightarrow> nat \<Rightarrow> (nat \<times> nat) list" where
  "chunk_loop len chunk 0 i = []"
| "chunk_loop len chunk (Suc n) i =
     (let chunkBegin = i * chunk; chunkEnd = min len (chunkBegin + chunk)
      in if chunkBegin \<ge> chunkEnd then [] else (chunkBegin, chunkEnd) # chunk_loop len chunk n (Suc i))"

definition chunks_of :: "nat \<Rightarrow> nat \<Rightarrow> (nat \<times> nat) list" where
  "chunks_of len n = chunk_loop len ((len + n - 1) div n) n 0"

definition subrange :: "'a list \<Rightarrow> nat \<times> nat \<Rightarrow> 'a list" where
  "subrange xs r = take (snd r - fst r) (drop (fst r) xs)"

section \<open>ForEach, Reduce and Sort\<close>

text \<open>\<open>ForEach\<close>: the elements that each task, or the caller, passes to the function.\<close>

definition for_each :: "size_t option \<Rightarrow> 'a list \<Rightarrow> 'a list list" where
  "for_each pool xs =
     (if xs = [] then []
      else case pool of
        None \<Rightarrow> [xs]
      | Some maxThreads \<Rightarrow>
          map (\<lambda>r. map (\<lambda>i. xs ! i) (range_calls r)) (parallel_for maxThreads 0 (word_of_nat (length xs))))"

definition reduce :: "nat \<Rightarrow> bool \<Rightarrow> 'b \<Rightarrow> ('b \<Rightarrow> 'a \<Rightarrow> 'b) \<Rightarrow> ('b \<Rightarrow> 'b \<Rightarrow> 'b) \<Rightarrow> 'a list \<Rightarrow> 'b" where
  "reduce hw pool ini f g xs =
     (let distance = length xs; n = if pool then max 1 (min hw distance) else 1
      in if distance = 0 then ini
         else if n \<le> 1 then foldl f ini xs
         else let rs = chunks_of distance n;
                  partials = map (\<lambda>r. foldl f ini (subrange xs r)) rs @ replicate (n - length rs) ini
              in foldl g ini partials)"

text \<open>\<open>std::sort\<close>: one order of the elements that are equivalent for the comparison.\<close>

fun std_insert :: "('a \<Rightarrow> 'a \<Rightarrow> bool) \<Rightarrow> 'a \<Rightarrow> 'a list \<Rightarrow> 'a list" where
  "std_insert lt x [] = [x]"
| "std_insert lt x (y # ys) = (if lt y x then y # std_insert lt x ys else x # y # ys)"

definition std_sort :: "('a \<Rightarrow> 'a \<Rightarrow> bool) \<Rightarrow> 'a list \<Rightarrow> 'a list" where
  "std_sort lt xs = foldr (std_insert lt) xs []"

text \<open>
  The merge: the first chunk whose next element is smallest, by the scan over the chunks,
  then the loop that takes it. \<open>n\<close> is the number of elements still missing in the result.
\<close>

definition merge_pick ::
  "('a \<Rightarrow> 'a \<Rightarrow> bool) \<Rightarrow> 'a list list \<Rightarrow> nat list \<Rightarrow> bool list \<Rightarrow> nat option \<Rightarrow> nat \<Rightarrow> nat option" where
  "merge_pick lt chunks idx done best i =
     (if \<not> done ! i \<and> idx ! i < length (chunks ! i)
      then case best of
             None \<Rightarrow> Some i
           | Some b \<Rightarrow> if lt (chunks ! i ! (idx ! i)) (chunks ! b ! (idx ! b)) then Some i else best
      else best)"

definition merge_best ::
  "('a \<Rightarrow> 'a \<Rightarrow> bool) \<Rightarrow> 'a list list \<Rightarrow> nat list \<Rightarrow> bool list \<Rightarrow> nat option" where
  "merge_best lt chunks idx done = foldl (merge_pick lt chunks idx done) None [0..<length chunks]"

fun merge_loop ::
  "('a \<Rightarrow> 'a \<Rightarrow> bool) \<Rightarrow> 'a list list \<Rightarrow> nat \<Rightarrow> nat list \<Rightarrow> bool list \<Rightarrow> 'a list \<Rightarrow> 'a list" where
  "merge_loop lt chunks 0 idx done res = res"
| "merge_loop lt chunks (Suc n) idx done res =
     (case merge_best lt chunks idx done of
        None \<Rightarrow> res
      | Some b \<Rightarrow>
          let x = chunks ! b ! (idx ! b); idx' = idx[b := Suc (idx ! b)];
              done' = if idx' ! b \<ge> length (chunks ! b) then done[b := True] else done
          in merge_loop lt chunks n idx' done' (res @ [x]))"

definition parallel_sort :: "nat \<Rightarrow> bool \<Rightarrow> ('a \<Rightarrow> 'a \<Rightarrow> bool) \<Rightarrow> 'a list \<Rightarrow> 'a list" where
  "parallel_sort hw pool lt xs =
     (if length xs \<le> 1 then xs
      else if \<not> pool \<or> length xs < 10000 then std_sort lt xs
      else let n = min hw (length xs div 1000)
           in if n \<le> 1 then std_sort lt xs
              else let rs = chunks_of (length xs) n;
                       chunks = map (\<lambda>r. std_sort lt (subrange xs r)) rs @ replicate (n - length rs) []
                   in merge_loop lt chunks (length xs) (replicate n 0) (replicate n False) [])"

section \<open>Every index once\<close>

lemma upt_chunks:
  "b \<le> c \<Longrightarrow> c \<le> e \<Longrightarrow> [b..<c] @ [c..<e] = [b..<(e :: nat)]"
  by (metis le_add_diff_inverse upt_add_eq_append)

lemma chunk_loop_ranges:
  assumes "0 < chunk" and "i * chunk \<le> len" and "len \<le> (i + n) * chunk"
  shows "concat (map (\<lambda>r. [fst r..<snd r]) (chunk_loop len chunk n i)) = [i * chunk..<len]"
  using assms
proof (induction n arbitrary: i)
  case 0
  then show ?case by simp
next
  case (Suc n)
  show ?case
  proof (cases "i * chunk < len")
    case False
    with Suc.prems show ?thesis by (simp add: Let_def)
  next
    case True
    let ?e = "min len (i * chunk + chunk)"
    have lt: "i * chunk < ?e" using True Suc.prems(1) by simp
    show ?thesis
    proof (cases "Suc i * chunk \<le> len")
      case True
      then have IH: "concat (map (\<lambda>r. [fst r..<snd r]) (chunk_loop len chunk n (Suc i))) = [Suc i * chunk..<len]"
        using Suc.prems by (intro Suc.IH) (auto simp: algebra_simps)
      have "?e = Suc i * chunk" using True by (simp add: add.commute)
      with lt IH True show ?thesis
        using upt_chunks [of "i * chunk" "chunk + i * chunk" len] by (simp add: Let_def add.commute)
    next
      case False
      then have e: "?e = len" by (simp add: add.commute)
      have "chunk_loop len chunk n (Suc i) = []" using False by (cases n) (auto simp: Let_def)
      with lt e show ?thesis by (simp add: Let_def)
    qed
  qed
qed

lemma chunk_size_covers:
  assumes "0 < (n :: nat)"
  shows "len \<le> n * ((len + n - 1) div n)" and "n * ((len + n - 1) div n) \<le> len + n - 1"
proof -
  let ?q = "(len + n - 1) div n"
  have eq: "len + n - 1 = n * ?q + (len + n - 1) mod n" by simp
  have "(len + n - 1) mod n < n" using assms by simp
  with eq have "len + n - 1 < n * ?q + n" by linarith
  then show "len \<le> n * ?q" using assms by simp
  show "n * ?q \<le> len + n - 1" using eq by linarith
qed

lemma chunks_of_ranges:
  assumes "0 < n"
  shows "concat (map (\<lambda>r. [fst r..<snd r]) (chunks_of len n)) = [0..<len]"
proof (cases "len = 0")
  case True
  with assms show ?thesis by (cases n) (auto simp: chunks_of_def Let_def)
next
  case False
  with assms have "0 < (len + n - 1) div n" by (simp add: div_greater_zero_iff)
  moreover have "len \<le> (0 + n) * ((len + n - 1) div n)" using chunk_size_covers(1) [OF assms] by simp
  ultimately show ?thesis using chunk_loop_ranges [of "(len + n - 1) div n" 0 len n]
    by (simp add: chunks_of_def)
qed

lemma range_calls_pair: "range_calls (i, j) = [unat i..<unat j]"
  by (simp add: range_calls_def)

lemma upt_shift: "[k + i..<k + j] = map (\<lambda>l. k + l) [i..<(j :: nat)]"
  by (intro nth_equalityI) auto

text \<open>The loop over words, as long as nothing wraps, is the loop over natural numbers.\<close>

lemma pf_loop_nat:
  fixes b e chunk i :: size_t
  assumes "unat e = unat b + len" and "unat b + (unat i + n) * unat chunk < 2 ^ 64" and "unat i + n < 2 ^ 64"
  shows "map range_calls (pf_loop b e chunk n i) =
    map (\<lambda>r. [unat b + fst r..<unat b + snd r]) (chunk_loop len (unat chunk) n (unat i))"
  using assms
proof (induction n arbitrary: i)
  case 0
  then show ?case by simp
next
  case (Suc n)
  let ?b = "b + i * chunk"
  have le: "unat b + unat i * unat chunk + unat chunk \<le> unat b + (unat i + Suc n) * unat chunk"
    by (simp add: algebra_simps)
  then have "unat i * unat chunk < 2 ^ 64" using Suc.prems(2) by linarith
  then have mult: "unat (i * chunk) = unat i * unat chunk" by (simp add: unat_word_ariths)
  have bound: "unat b + unat i * unat chunk + unat chunk < 2 ^ 64" using le Suc.prems(2) by linarith
  then have cb: "unat ?b = unat b + unat i * unat chunk"
    using mult by (subst unat_add_no_wrap) auto
  then have "unat (?b + chunk) = unat b + unat i * unat chunk + unat chunk"
    using bound by (subst unat_add_no_wrap) auto
  then have ce: "unat (min e (?b + chunk)) = unat b + min len (unat i * unat chunk + unat chunk)"
    using Suc.prems(1) by (simp add: min_def word_le_nat_alt)
  have "unat (i + 1) = Suc (unat i)" using Suc.prems(3) by (intro unat_inc) simp
  moreover have "map range_calls (pf_loop b e chunk n (i + 1)) =
      map (\<lambda>r. [unat b + fst r..<unat b + snd r]) (chunk_loop len (unat chunk) n (unat (i + 1)))"
    using Suc.prems calculation by (intro Suc.IH) auto
  moreover have "?b \<ge> min e (?b + chunk) \<longleftrightarrow>
      unat i * unat chunk \<ge> min len (unat i * unat chunk + unat chunk)"
    unfolding word_le_nat_alt cb ce by simp
  ultimately show ?case
    using cb ce by (simp add: Let_def range_calls_pair)
qed


lemma parallel_for_covers:
  assumes "unat e + unat maxThreads < 2 ^ 64"
  shows "concat (map range_calls (parallel_for maxThreads b e)) = [unat b..<unat e]"
proof (cases "b \<ge> e")
  case True
  then show ?thesis by (simp add: parallel_for_def word_le_nat_alt)
next
  case False
  define cnt where "cnt = e - b"
  define n where "n = min maxThreads cnt"
  have cnt: "unat e = unat b + unat cnt"
    using False unfolding cnt_def by (simp add: unat_sub word_le_nat_alt)
  have n_le: "unat n \<le> unat maxThreads" "unat n \<le> unat cnt"
    unfolding n_def by (auto simp: min_def word_le_nat_alt)
  show ?thesis
  proof (cases "n \<le> 1")
    case True
    then show ?thesis using False
      by (simp add: parallel_for_def Let_def range_calls_def flip: cnt_def n_def)
  next
    case gt: False
    then have n_gt: "1 < unat n" by (simp add: word_le_nat_alt)
    let ?k = "(unat cnt + unat n - 1) div unat n"
    have s: "unat (cnt + n) = unat cnt + unat n"
      using cnt n_le assms by (intro unat_add_no_wrap) linarith
    have "unat (cnt + n - 1) = unat cnt + unat n - 1"
      using s n_gt by (subst unat_sub) (auto simp: word_le_nat_alt)
    then have chunk: "unat ((cnt + n - 1) div n) = ?k" by (simp add: unat_div)
    have le: "unat n * ?k \<le> unat cnt + unat n - 1" using n_gt by (intro chunk_size_covers) simp
    then have fits: "unat b + unat n * ?k < 2 ^ 64" using n_gt n_le cnt assms by linarith
    have "map range_calls (pf_loop b e ((cnt + n - 1) div n) (unat n) 0) =
        map (\<lambda>r. [unat b + fst r..<unat b + snd r]) (chunk_loop (unat cnt) ?k (unat n) 0)"
      using cnt fits unsigned_less [of n] by (subst pf_loop_nat [of e b "unat cnt"]) (simp_all add: chunk)
    also have "\<dots> = map (map (\<lambda>i. unat b + i)) (map (\<lambda>r. [fst r..<snd r]) (chunks_of (unat cnt) (unat n)))"
      by (simp add: chunks_of_def upt_shift)
    finally have "concat (map range_calls (parallel_for maxThreads b e)) =
        map (\<lambda>i. unat b + i) (concat (map (\<lambda>r. [fst r..<snd r]) (chunks_of (unat cnt) (unat n))))"
      using False gt by (simp add: parallel_for_def Let_def map_concat flip: cnt_def n_def)
    with cnt n_gt show ?thesis
      using upt_shift [of "unat b" 0 "unat cnt"] by (simp add: chunks_of_ranges)
  qed
qed

section \<open>Reduce\<close>

lemma concat_slices:
  assumes "concat (map (\<lambda>r. [fst r..<snd r]) rs) = [0..<length xs]"
  shows "concat (map (subrange xs) rs) = xs"
proof -
  have inb: "\<And>r i. r \<in> set rs \<Longrightarrow> i \<in> set [fst r..<snd r] \<Longrightarrow> i < length xs"
    using arg_cong [OF assms, of set] by (force simp: set_eq_iff)
  have "subrange xs r = map ((!) xs) [fst r..<snd r]" if "r \<in> set rs" for r
  proof (cases "fst r < snd r")
    case True
    with inb [OF that, of "snd r - 1"] have "snd r - 1 < length xs" by simp
    with True have "snd r \<le> length xs" by linarith
    with True show ?thesis by (auto simp: subrange_def intro!: nth_equalityI)
  qed (simp add: subrange_def)
  then have "concat (map (subrange xs) rs) = concat (map (map ((!) xs)) (map (\<lambda>r. [fst r..<snd r]) rs))"
    by (simp cong: map_cong)
  also have "\<dots> = map ((!) xs) [0..<length xs]" by (simp only: assms map_concat [symmetric])
  finally show ?thesis by (simp add: map_nth)
qed

lemma slices_of_chunks:
  "0 < n \<Longrightarrow> concat (map (subrange xs) (chunks_of (length xs) n)) = xs"
  by (simp add: concat_slices chunks_of_ranges)

lemma foldl_partials:
  assumes g: "\<And>x. g x ini = x" "\<And>x y a. g x (f y a) = f (g x y) a"
  shows "foldl g x (map (foldl f ini) yss) = foldl f x (concat yss)"
proof (induction yss arbitrary: x)
  case (Cons ys yss)
  have "g x (foldl f ini ys) = foldl f x ys" by (induction ys rule: rev_induct) (auto simp: g)
  with Cons show ?case by simp
qed simp

lemma foldl_neutral: "(\<And>x. g x ini = x) \<Longrightarrow> foldl g x (replicate k ini) = x"
  by (induction k) auto

lemma reduce_eq_foldl:
  assumes "\<And>x. g x ini = x" "\<And>x y a. g x (f y a) = f (g x y) a"
  shows "reduce hw pool ini f g xs = foldl f ini xs"
proof -
  let ?n = "if pool then max 1 (min hw (length xs)) else 1"
  have "0 < ?n" by (auto simp: max_def)
  then have "concat (map (subrange xs) (chunks_of (length xs) ?n)) = xs" by (rule slices_of_chunks)
  then show ?thesis
    using foldl_partials [of g ini f ini "map (subrange xs) (chunks_of (length xs) ?n)", OF assms]
    by (simp add: reduce_def Let_def comp_def foldl_neutral [where g = g and ini = ini, OF assms(1)])
qed

section \<open>Sort\<close>

text \<open>A strict weak order, as the comparison of \<open>std::sort\<close> must be.\<close>

definition strict_weak :: "('a \<Rightarrow> 'a \<Rightarrow> bool) \<Rightarrow> bool" where
  "strict_weak lt \<longleftrightarrow> (\<forall>x. \<not> lt x x) \<and> (\<forall>x y z. lt x y \<longrightarrow> lt y z \<longrightarrow> lt x z) \<and>
     (\<forall>x y z. \<not> lt x y \<longrightarrow> \<not> lt y z \<longrightarrow> \<not> lt x z)"

definition ordered :: "('a \<Rightarrow> 'a \<Rightarrow> bool) \<Rightarrow> 'a list \<Rightarrow> bool" where
  "ordered lt = sorted_wrt (\<lambda>x y. \<not> lt y x)"

lemma strict_weakD:
  assumes "strict_weak lt"
  shows "\<not> lt x x" and "lt x y \<Longrightarrow> lt y z \<Longrightarrow> lt x z" and "\<not> lt x y \<Longrightarrow> \<not> lt y z \<Longrightarrow> \<not> lt x z"
    and "lt x y \<Longrightarrow> \<not> lt y x"
  using assms unfolding strict_weak_def by blast+

lemma ordered_simps [simp]:
  "ordered lt []" "ordered lt (x # xs) \<longleftrightarrow> (\<forall>y\<in>set xs. \<not> lt y x) \<and> ordered lt xs"
  "ordered lt (xs @ ys) \<longleftrightarrow> ordered lt xs \<and> ordered lt ys \<and> (\<forall>x\<in>set xs. \<forall>y\<in>set ys. \<not> lt y x)"
  by (auto simp: ordered_def sorted_wrt_append)

lemma mset_std_insert: "mset (std_insert lt x xs) = add_mset x (mset xs)"
  by (induction xs) auto

lemma ordered_std_insert: "strict_weak lt \<Longrightarrow> ordered lt xs \<Longrightarrow> ordered lt (std_insert lt x xs)"
proof (induction xs)
  case (Cons y ys)
  note order = strict_weakD [OF Cons.prems(1)]
  have set: "set (std_insert lt x ys) = insert x (set ys)"
    using arg_cong [OF mset_std_insert [of lt x ys], of set_mset] by simp
  show ?case
  proof (cases "lt y x")
    case True
    with Cons set order(4) show ?thesis by simp
  next
    case False
    have "\<not> lt z x" if "z \<in> set ys" for z
      using Cons.prems(2) that False order(3) [of z y x] by simp
    with False Cons.prems(2) show ?thesis by simp
  qed
qed simp

lemma std_sort_ok:
  "mset (std_sort lt xs) = mset xs" "strict_weak lt \<Longrightarrow> ordered lt (std_sort lt xs)"
  unfolding std_sort_def by (induction xs) (auto simp: mset_std_insert ordered_std_insert)

text \<open>The elements that the merge has not taken yet, chunk by chunk.\<close>

definition remaining :: "'a list list \<Rightarrow> nat list \<Rightarrow> 'a list list" where
  "remaining chunks idx = map2 drop idx chunks"

definition merge_live :: "'a list list \<Rightarrow> nat list \<Rightarrow> nat \<Rightarrow> bool" where
  "merge_live chunks idx i \<longleftrightarrow> idx ! i < length (chunks ! i)"

definition merge_inv :: "'a list list \<Rightarrow> nat list \<Rightarrow> bool list \<Rightarrow> bool" where
  "merge_inv chunks idx done \<longleftrightarrow> length idx = length chunks \<and> length done = length chunks \<and>
     (\<forall>i<length chunks. done ! i \<longrightarrow> \<not> merge_live chunks idx i)"

lemma merge_scan:
  assumes "strict_weak lt" "merge_inv chunks idx done" "k \<le> length chunks"
  shows "case foldl (merge_pick lt chunks idx done) None [0..<k] of
      None \<Rightarrow> \<forall>i<k. \<not> merge_live chunks idx i
    | Some b \<Rightarrow> b < k \<and> merge_live chunks idx b \<and>
        (\<forall>i<k. merge_live chunks idx i \<longrightarrow> \<not> lt (chunks ! i ! (idx ! i)) (chunks ! b ! (idx ! b)))"
  using assms(3)
proof (induction k)
  case (Suc k)
  note order = strict_weakD [OF assms(1)]
  have "\<not> done ! k \<and> idx ! k < length (chunks ! k) \<longleftrightarrow> merge_live chunks idx k"
    using assms(2) Suc.prems by (auto simp: merge_inv_def merge_live_def)
  with Suc order(1,4) show ?case
    by (auto simp: merge_pick_def less_Suc_eq split: option.splits dest: order(2))
qed simp

lemma mset_concat_update:
  "b < length xss \<Longrightarrow> xss ! b = y # ys \<Longrightarrow>
    mset (concat xss) = add_mset y (mset (concat (xss[b := ys])))"
  by (simp add: upd_conv_take_nth_drop) (subst id_take_nth_drop [of b xss], simp_all)

lemma remaining_take:
  assumes "merge_inv chunks idx done" "b < length chunks" "merge_live chunks idx b"
  shows "remaining chunks (idx[b := Suc (idx ! b)]) = (remaining chunks idx)[b := drop (Suc (idx ! b)) (chunks ! b)]"
    and "remaining chunks idx ! b = chunks ! b ! (idx ! b) # drop (Suc (idx ! b)) (chunks ! b)"
    and "b < length (remaining chunks idx)"
  using assms unfolding merge_inv_def merge_live_def remaining_def
  by (auto simp: Cons_nth_drop_Suc intro!: nth_equalityI simp: nth_list_update)

lemma merge_inv_step:
  assumes "merge_inv chunks idx done" "b < length chunks" "idx' = idx[b := Suc (idx ! b)]"
    and "done' = (if idx' ! b \<ge> length (chunks ! b) then done[b := True] else done)"
  shows "merge_inv chunks idx' done'"
  using assms unfolding merge_inv_def merge_live_def by (auto simp: nth_list_update)

lemma remaining_ordered:
  assumes "strict_weak lt" "merge_inv chunks idx done" "\<forall>c\<in>set chunks. ordered lt c"
    and "y \<in> set (concat (remaining chunks idx))"
  obtains i where "i < length chunks" "merge_live chunks idx i" "\<not> lt y (chunks ! i ! (idx ! i))"
proof -
  from assms(2,4) obtain i where i: "i < length chunks" "y \<in> set (drop (idx ! i) (chunks ! i))"
    by (auto simp: remaining_def merge_inv_def set_zip)
  then have live: "merge_live chunks idx i"
    by (cases "idx ! i < length (chunks ! i)") (auto simp: merge_live_def)
  have "ordered lt (drop (idx ! i) (chunks ! i))"
    using assms(3) i(1) nth_mem unfolding ordered_def by (blast intro: sorted_wrt_drop)
  moreover have "drop (idx ! i) (chunks ! i) = chunks ! i ! (idx ! i) # drop (Suc (idx ! i)) (chunks ! i)"
    using live by (simp add: merge_live_def Cons_nth_drop_Suc)
  ultimately have "\<not> lt y (chunks ! i ! (idx ! i))" using i(2) strict_weakD(1) [OF assms(1)] by auto
  with i(1) live that show thesis by blast
qed

text \<open>
  What the loop adds to the result is the elements that are left, in order, provided the
  elements taken so far are in order and none of those that are left goes before them.
\<close>

lemma merge_loop_ok:
  assumes "strict_weak lt" "\<forall>c\<in>set chunks. ordered lt c"
    and "merge_inv chunks idx done" "n = length (concat (remaining chunks idx))"
    and "ordered lt res" "\<forall>x\<in>set res. \<forall>y\<in>set (concat (remaining chunks idx)). \<not> lt y x"
  shows "ordered lt (merge_loop lt chunks n idx done res) \<and>
    mset (merge_loop lt chunks n idx done res) = mset res + mset (concat (remaining chunks idx))"
  using assms(3-)
proof (induction n arbitrary: idx "done" res)
  case 0
  then show ?case by simp
next
  case (Suc n)
  note scan = merge_scan [OF assms(1) Suc.prems(1) le_refl, folded merge_best_def]
  from Suc.prems(2) obtain y where "y \<in> set (concat (remaining chunks idx))"
    by (cases "concat (remaining chunks idx)") auto
  then obtain i where "i < length chunks" "merge_live chunks idx i"
    using remaining_ordered [OF assms(1) Suc.prems(1) assms(2)] by metis
  with scan obtain b where b: "merge_best lt chunks idx done = Some b"
    by (cases "merge_best lt chunks idx done") auto
  let ?x = "chunks ! b ! (idx ! b)" and ?idx = "idx[b := Suc (idx ! b)]"
  define D where "D = (if ?idx ! b \<ge> length (chunks ! b) then done[b := True] else done)"
  have bl: "b < length chunks" "merge_live chunks idx b"
    and least: "\<And>i. i < length chunks \<Longrightarrow> merge_live chunks idx i \<Longrightarrow> \<not> lt (chunks ! i ! (idx ! i)) ?x"
    using scan b by auto
  have inv: "merge_inv chunks ?idx D" using merge_inv_step [OF Suc.prems(1) bl(1) refl] by (simp add: D_def)
  have ms: "mset (concat (remaining chunks idx)) = add_mset ?x (mset (concat (remaining chunks ?idx)))"
    using remaining_take [OF Suc.prems(1) bl] mset_concat_update by metis
  have min: "\<not> lt y ?x" if "y \<in> set (concat (remaining chunks idx))" for y
    using remaining_ordered [OF assms(1) Suc.prems(1) assms(2) that] least strict_weakD(3) [OF assms(1)]
    by metis
  have left: "set (concat (remaining chunks idx)) = insert ?x (set (concat (remaining chunks ?idx)))"
    using arg_cong [OF ms, of set_mset] by (simp only: set_mset_mset set_mset_add_mset_insert)
  have n: "n = length (concat (remaining chunks ?idx))"
    using arg_cong [OF ms, of size] Suc.prems(2) by (simp only: size_mset size_add_mset)
  have "\<forall>x\<in>set res. \<forall>y\<in>insert ?x (set (concat (remaining chunks ?idx))). \<not> lt y x"
    using Suc.prems(4) unfolding left .
  then have res: "ordered lt (res @ [?x])"
    and le: "\<forall>x\<in>set (res @ [?x]). \<forall>y\<in>set (concat (remaining chunks ?idx)). \<not> lt y x"
    using Suc.prems(3) min unfolding left by (simp, simp, blast)
  have eq: "merge_loop lt chunks (Suc n) idx done res = merge_loop lt chunks n ?idx D (res @ [?x])"
    using b by (simp add: Let_def D_def)
  show ?case
    unfolding eq using Suc.IH [OF inv n res le] ms by simp
qed

lemma remaining_start: "length idx = length chunks \<Longrightarrow> idx = replicate (length chunks) 0 \<Longrightarrow>
    remaining chunks idx = chunks"
  by (auto simp: remaining_def intro!: nth_equalityI)

lemma chunk_loop_length: "length (chunk_loop len chunk n i) \<le> n"
  by (induction n arbitrary: i) (auto simp: Let_def)

section \<open>Properties\<close>

text \<open>
  C24. \<open>ParallelFor\<close> calls its function for every index from \<open>begin\<close> up to, not including, \<open>end\<close>, and
  for each of them once: the ranges of its tasks, one after the other, are that interval.
  The hypothesis keeps the rounded-up chunk boundaries below \<open>2 ^ 64\<close>.
\<close>

theorem parallel_for_each_index_once:
  assumes "unat e + unat maxThreads < 2 ^ 64"
  shows "concat (map range_calls (parallel_for maxThreads b e)) = [unat b..<unat e]"
  using assms by (rule parallel_for_covers)

lemma parallel_for_each_index_once_witness:
  "parallel_for 4 10 20 = [(10, 13), (13, 16), (16, 19), (19, 20)] \<and>
    concat (map range_calls (parallel_for 4 10 20)) = [unat (10 :: size_t)..<unat (20 :: size_t)]"
proof
  show "parallel_for 4 10 20 = [(10, 13), (13, 16), (16, 19), (19, 20)]" by code_simp
  show "concat (map range_calls (parallel_for 4 10 20)) = [unat (10 :: size_t)..<unat (20 :: size_t)]"
    by (rule parallel_for_each_index_once) simp
qed

text \<open>
  Without that bound an index is lost: for an interval that ends at \<open>SIZE_MAX\<close>, the end of the
  last chunk wraps around, the minimum with \<open>end\<close> is the wrapped value, the loop breaks off,
  and the last index is never visited.
\<close>

theorem parallel_for_wraps_near_max:
  "concat (map range_calls (parallel_for 4 18446744073709551605 18446744073709551615)) =
     [18446744073709551605..<18446744073709551614]"
proof -
  have "parallel_for 4 18446744073709551605 18446744073709551615 =
      [(18446744073709551605, 18446744073709551608), (18446744073709551608, 18446744073709551611),
       (18446744073709551611, 18446744073709551614)]" by code_simp
  then show ?thesis
    by (simp add: range_calls_pair upt_chunks del: upt_Suc upt_rec_numeral)
qed

text \<open>
  \<open>ForEach\<close> passes every element of the container to the function once, with a pool or without:
  the lists of its tasks, one after the other, are the container.
\<close>

theorem for_each_every_element_once:
  assumes "length xs + (case pool of None \<Rightarrow> 0 | Some m \<Rightarrow> unat m) < 2 ^ 64"
  shows "concat (for_each pool xs) = xs"
proof -
  have "unat (word_of_nat (length xs) :: size_t) = length xs" using assms by (simp add: unat_of_nat)
  moreover have "concat (map (\<lambda>r. map ((!) xs) (range_calls r)) rs) = map ((!) xs) (concat (map range_calls rs))"
    for rs by (simp add: map_concat comp_def)
  ultimately show ?thesis using assms
    by (auto simp: for_each_def parallel_for_covers map_nth split: option.splits)
qed

lemma for_each_every_element_once_witness:
  "concat (for_each (Some 2) [7, 8, 9 :: nat]) = [7, 8, 9]"
  by (rule for_each_every_element_once) simp

text \<open>
  C34. \<open>Reduce\<close> is the left fold of the container from the initial value, however the container is
  split, when the initial value is neutral for the combination of partial results and the function
  may be regrouped.
\<close>

theorem reduce_is_fold:
  assumes "\<And>x. g x ini = x" and "\<And>x y a. g x (f y a) = f (g x y) a"
  shows "reduce hw pool ini f g xs = foldl f ini xs"
  using assms by (rule reduce_eq_foldl)

lemma reduce_is_fold_witness:
  "reduce 4 True 0 (+) (+) [1, 2, 3, 4, 5, 6 :: int] = foldl (+) 0 [1, 2, 3, 4, 5, 6]"
  by (rule reduce_is_fold) auto

text \<open>
  When the initial value is not neutral, the result depends on the number of processors: the
  value is folded into every partial result and once more at the end, whether a task filled
  that slot or not. The sum of a non-empty list from \<open>ini\<close> counts \<open>ini\<close> once for each of the \<open>n > 1\<close>
  tasks and once more.
\<close>

theorem reduce_repeats_initial:
  assumes "1 < n" and "n = min hw (length xs)"
  shows "reduce hw True ini (+) (+) xs = of_nat (n + 1) * ini + sum_list (xs :: int list)"
proof -
  have plus: "foldl (+) a ys = a + sum_list ys" for a :: int and ys by (induction ys arbitrary: a) auto
  let ?rs = "chunks_of (length xs) n"
  have len: "length ?rs \<le> n" by (simp add: chunks_of_def chunk_loop_length)
  have "sum_list (map (\<lambda>r. ini + sum_list (subrange xs r)) rs) =
      of_nat (length rs) * ini + sum_list (concat (map (subrange xs) rs))" for rs
    by (induction rs) (auto simp: algebra_simps)
  moreover have "concat (map (subrange xs) ?rs) = xs" using assms(1) by (intro slices_of_chunks) simp
  moreover have "max 1 (min hw (length xs)) = n" "length xs \<noteq> 0" "\<not> n \<le> 1" using assms by auto
  moreover have "of_nat (n - length ?rs) = (of_nat n - of_nat (length ?rs) :: int)" using len by simp
  ultimately show ?thesis
    unfolding reduce_def Let_def if_True by (simp add: plus sum_list_replicate algebra_simps)
qed

lemma reduce_repeats_initial_witness:
  "reduce 2 True 10 (+) (+) [1, 2 :: int] = of_nat (2 + 1) * 10 + sum_list [1, 2] \<and>
    reduce 2 False 10 (+) (+) [1, 2 :: int] = 13"
proof
  show "reduce 2 True 10 (+) (+) [1, 2 :: int] = of_nat (2 + 1) * 10 + sum_list [1, 2]"
    by (rule reduce_repeats_initial) simp_all
  show "reduce 2 False 10 (+) (+) [1, 2 :: int] = 13" by (simp add: reduce_def)
qed

text \<open>
  C23. \<open>Sort\<close> leaves a permutation of the container that is in the order of the comparison, on each of
  its paths: nothing to do, one \<open>std::sort\<close>, or chunks sorted by tasks and merged.
\<close>

theorem parallel_sort_sorts:
  assumes "strict_weak lt"
  shows "ordered lt (parallel_sort hw pool lt xs) \<and> mset (parallel_sort hw pool lt xs) = mset xs"
proof -
  let ?n = "min hw (length xs div 1000)"
  let ?rs = "chunks_of (length xs) ?n"
  define chunks where "chunks = map (\<lambda>r. std_sort lt (subrange xs r)) ?rs @ replicate (?n - length ?rs) []"
  consider "length xs \<le> 1" | "\<not> length xs \<le> 1" "\<not> pool \<or> length xs < 10000 \<or> ?n \<le> 1"
    | "\<not> length xs \<le> 1" "\<not> (\<not> pool \<or> length xs < 10000)" "\<not> ?n \<le> 1" by blast
  then show ?thesis
  proof cases
    case 1
    then show ?thesis by (cases xs) (auto simp: parallel_sort_def)
  next
    case 2
    then show ?thesis using std_sort_ok [of lt] assms by (auto simp: parallel_sort_def)
  next
    case 3
    have "length ?rs \<le> ?n" unfolding chunks_of_def by (rule chunk_loop_length)
    then have len: "length chunks = ?n" by (simp add: chunks_def)
    have "mset (concat (map (\<lambda>r. std_sort lt (subrange xs r)) rs)) = mset (concat (map (subrange xs) rs))" for rs
      by (induction rs) (auto simp: std_sort_ok)
    moreover have "0 < ?n" using 3(3) by linarith
    ultimately have ms: "mset (concat chunks) = mset xs"
      using slices_of_chunks [of ?n xs] by (simp add: chunks_def)
    have eq: "parallel_sort hw pool lt xs =
        merge_loop lt chunks (length xs) (replicate ?n 0) (replicate ?n False) []"
      using 3 by (simp only: parallel_sort_def Let_def if_False chunks_def)
    have "ordered lt (merge_loop lt chunks (length xs) (replicate ?n 0) (replicate ?n False) []) \<and>
        mset (merge_loop lt chunks (length xs) (replicate ?n 0) (replicate ?n False) []) =
          mset [] + mset (concat (remaining chunks (replicate ?n 0)))"
    proof (rule merge_loop_ok)
      show "\<forall>c\<in>set chunks. ordered lt c" using std_sort_ok(2) [OF assms] by (auto simp: chunks_def)
      show "merge_inv chunks (replicate ?n 0) (replicate ?n False)" using len by (auto simp: merge_inv_def)
      show "length xs = length (concat (remaining chunks (replicate ?n 0)))"
        using ms len by (simp add: remaining_start) (metis size_mset)
    qed (use assms in auto)
    then show ?thesis unfolding eq using ms len by (simp add: remaining_start)
  qed
qed

lemma parallel_sort_sorts_witness:
  "ordered (<) (parallel_sort 4 True (<) [5, 3, 9, 1 :: nat]) \<and>
    mset (parallel_sort 4 True (<) [5, 3, 9, 1 :: nat]) = mset [5, 3, 9, 1]"
  by (rule parallel_sort_sorts) (auto simp: strict_weak_def)

end
