(* ===== verification/Pool_Parallel.thy ===== *)
theory Pool_Parallel
  imports Pool_Submit Parallel
begin

text \<open>
  \<open>ThreadPool::ParallelFor\<close> (\<open>src/src/ezthread/pool.cpp\<close>) on the pool itself: the tasks into which theory \<open>Parallel\<close>
  splits the interval, submitted to the pool of theory \<open>Pool\<close>, and the wait for their futures. The
  function may throw.
\<close>

section \<open>The tasks\<close>

text \<open>
  The loop of a task over its indices, with the exception that the function throws for an index, if
  any: the calls that it makes, and its outcome.
\<close>

fun range_run :: "(nat \<Rightarrow> 'x exn option) \<Rightarrow> nat list \<Rightarrow> nat list \<times> ('x, unit) result" where
  "range_run fn [] = ([], Inr ())"
| "range_run fn (j # js) =
     (case fn j of
        Some e \<Rightarrow> ([j], Inl e)
      | None \<Rightarrow> (case range_run fn js of (calls, r) \<Rightarrow> (j # calls, r)))"

definition pf_task :: "(nat \<Rightarrow> 'x exn option) \<Rightarrow> size_t \<times> size_t \<Rightarrow> ('x, unit) submission" where
  "pf_task fn r = Sub_Future (snd (range_run fn (range_calls r)))"

text \<open>
  The calls of the function, in the order in which the workers started the tasks \<open>T\<close> of one
  \<open>ParallelFor\<close>; \<open>rng i\<close> is the interval that task \<open>i\<close> has captured.
\<close>

definition pf_calls :: "(nat \<Rightarrow> 'x exn option) \<Rightarrow> (task \<Rightarrow> size_t \<times> size_t) \<Rightarrow> task list \<Rightarrow> task list \<Rightarrow> nat list" where
  "pf_calls fn rng T ex = concat (map (\<lambda>i. fst (range_run fn (range_calls (rng i)))) (filter (\<lambda>i. i \<in> set T) ex))"

text \<open>\<open>ParallelFor\<close> has returned: every future that it waits for is ready.\<close>

definition pf_returned :: "task list \<Rightarrow> ('x, 'a) submitted \<Rightarrow> bool" where
  "pf_returned T st \<longleftrightarrow>
     list_all (\<lambda>i. case sub_future st i of None \<Rightarrow> False | Some p \<Rightarrow> sh_ready (fs_states (sub_futures st) p)) T"

lemma range_run_mset: "mset (fst (range_run fn js)) \<subseteq># mset js"
  by (induction js) (auto split: option.splits prod.splits)

lemma range_run_all: "(\<And>j. j \<in> set js \<Longrightarrow> fn j = None) \<Longrightarrow> range_run fn js = (js, Inr ())"
  by (induction js) auto

lemma range_run_set:
  "sorted js \<Longrightarrow> distinct js \<Longrightarrow> set (fst (range_run fn js)) = {j \<in> set js. \<forall>k\<in>set js. k < j \<longrightarrow> fn k = None}"
proof (induction js)
  case (Cons a js)
  then have IH: "set (fst (range_run fn js)) = {j \<in> set js. \<forall>k\<in>set js. k < j \<longrightarrow> fn k = None}" by simp
  have less: "a < j" if "j \<in> set js" for j using that Cons.prems by (metis distinct.simps(2) order_le_less sorted_simps(2))
  show ?case
  proof (cases "fn a")
    case None
    then show ?thesis using IH less by (cases "range_run fn js") (auto dest: less_asym)
  next
    case (Some e)
    then show ?thesis using less by (auto dest: less_asym)
  qed
qed simp

lemma mset_concat_map_same:
  "mset xs = mset ys \<Longrightarrow> mset (concat (map f xs)) = mset (concat (map f ys))"
  by (metis mset_concat mset_map sum_mset_sum_list)

lemma mset_concat_map_mono:
  "(\<And>x. mset (f x) \<subseteq># mset (g x)) \<Longrightarrow> mset (concat (map f xs)) \<subseteq># mset (concat (map g xs))"
  by (induction xs) (auto intro: subset_mset.add_mono)

lemma sub_distinct:
  assumes "mset xs \<subseteq># mset ys" and "distinct ys"
  shows "distinct xs"
proof -
  obtain M where "mset ys = mset xs + M" using assms(1) by (metis subset_mset.le_iff_add)
  moreover obtain zs where "M = mset zs" by (metis ex_mset)
  ultimately have "mset (xs @ zs) = mset ys" by simp
  then have "distinct (xs @ zs)" using assms(2) mset_eq_imp_distinct_iff by blast
  then show ?thesis by simp
qed

section \<open>The wait\<close>

lemma returned_executed:
  assumes "win_sync_ok api" and "reach (pool_step api) (mon_init api (pool_new hw c)) s"
    and st: "task_effects le subs (mon_log s) (submitted_new d) = Some st" and T: "pf_returned T st"
  shows "set T \<subseteq> set (executed (mon_log s))"
proof
  have ok: "submitted_ok subs (pl_next (mon_data s)) (set (executed (mon_log s))) st"
    using history_submitted [OF assms(1,2), of le subs d] st by simp
  fix i assume "i \<in> set T"
  then obtain p where p: "sub_future st i = Some p" "sh_ready (fs_states (sub_futures st) p)"
    using T by (auto simp: pf_returned_def list_all_iff split: option.splits)
  obtain r where i: "i < pl_next (mon_data s)" "subs i = Sub_Future r" using submitted_okD(4) [OF ok p(1)] by blast
  show "i \<in> set (executed (mon_log s))"
  proof (rule ccontr)
    assume "i \<notin> set (executed (mon_log s))"
    with submitted_okD(2) [OF ok i] p show False by (auto simp: delivered_def unset_def)
  qed
qed

text \<open>The calls of a \<open>ParallelFor\<close> that has returned, up to the order of the tasks.\<close>

lemma returned_calls:
  assumes "win_sync_ok api" and "reach (pool_step api) (mon_init api (pool_new hw c)) s"
    and "task_effects le subs (mon_log s) (submitted_new d) = Some st" and "pf_returned T st"
    and "distinct T" and "map rng T = parallel_for maxThreads b e"
  shows "mset (pf_calls fn rng T (executed (mon_log s))) =
    mset (concat (map (\<lambda>r. fst (range_run fn (range_calls r))) (parallel_for maxThreads b e)))"
proof -
  let ?E = "executed (mon_log s)"
  have "set T \<subseteq> set ?E" by (rule returned_executed [OF assms(1-4)])
  moreover have "distinct ?E" using executed_pushed [OF assms(1,2)] by simp
  ultimately have "mset (filter (\<lambda>i. i \<in> set T) ?E) = mset T"
    using assms(5) by (intro set_eq_iff_mset_eq_distinct [THEN iffD1]) auto
  then have "mset (pf_calls fn rng T ?E) = mset (concat (map (\<lambda>i. fst (range_run fn (range_calls (rng i)))) T))"
    unfolding pf_calls_def by (rule mset_concat_map_same)
  also have "map (\<lambda>i. fst (range_run fn (range_calls (rng i)))) T =
      map (\<lambda>r. fst (range_run fn (range_calls r))) (parallel_for maxThreads b e)"
    using assms(6) by (metis (no_types, lifting) comp_apply list.map_comp list.map_cong)
  finally show ?thesis .
qed

text \<open>
  C10. When \<open>ParallelFor\<close> with more than one task returns, whatever else the pool was given and however its
  workers ran: the function was called at most once for every index, and within each chunk exactly for
  the indices before which it has not thrown. So if it throws nowhere, it was called exactly once for
  every index of the interval; if it throws, the rest of the chunk is left out although
  \<open>ParallelFor\<close> returns normally.
\<close>

theorem parallel_for_on_pool:
  assumes "win_sync_ok api" and "reach (pool_step api) (mon_init api (pool_new hw c)) s"
    and "task_effects le subs (mon_log s) (submitted_new d) = Some st"
    and T: "distinct T" "map rng T = parallel_for maxThreads b e" "\<forall>i\<in>set T. subs i = pf_task fn (rng i)"
    and "pf_returned T st" and "1 < min maxThreads (e - b)" and bound: "unat e + unat maxThreads < 2 ^ 64"
  shows "distinct (pf_calls fn rng T (executed (mon_log s))) \<and>
    set (pf_calls fn rng T (executed (mon_log s))) =
      {j. \<exists>r\<in>set (parallel_for maxThreads b e). j \<in> set (range_calls r) \<and> (\<forall>k\<in>set (range_calls r). k < j \<longrightarrow> fn k = None)} \<and>
    ((\<forall>j. unat b \<le> j \<and> j < unat e \<longrightarrow> fn j = None) \<longrightarrow>
      mset (pf_calls fn rng T (executed (mon_log s))) = mset [unat b..<unat e]) \<and>
    (\<forall>i\<in>set T. \<forall>r. subs i = Sub_Future r \<longrightarrow> (\<exists>p. sub_future st i = Some p \<and> holds_outcome (fs_states (sub_futures st) p) r))"
proof -
  let ?C = "pf_calls fn rng T (executed (mon_log s))" and ?R = "parallel_for maxThreads b e"
  have calls: "mset ?C = mset (concat (map (\<lambda>r. fst (range_run fn (range_calls r))) ?R))"
    by (rule returned_calls [OF assms(1-3,7) T(1,2)])
  have all: "concat (map range_calls ?R) = [unat b..<unat e]" by (rule parallel_for_covers [OF bound])
  have "mset ?C \<subseteq># mset [unat b..<unat e]"
    unfolding calls all [symmetric] by (rule mset_concat_map_mono) (rule range_run_mset)
  then have "distinct ?C" by (rule sub_distinct) simp
  moreover have "set ?C = (\<Union>r\<in>set ?R. set (fst (range_run fn (range_calls r))))"
    using arg_cong [OF calls, of set_mset] by simp
  then have "set ?C = {j. \<exists>r\<in>set ?R. j \<in> set (range_calls r) \<and> (\<forall>k\<in>set (range_calls r). k < j \<longrightarrow> fn k = None)}"
    by (auto simp: range_run_set range_calls_def)
  moreover have "mset ?C = mset [unat b..<unat e]" if none: "\<forall>j. unat b \<le> j \<and> j < unat e \<longrightarrow> fn j = None"
  proof -
    have "fst (range_run fn (range_calls r)) = range_calls r" if "r \<in> set ?R" for r
    proof -
      have "set (range_calls r) \<subseteq> set (concat (map range_calls ?R))" using that by auto
      then have "fn j = None" if "j \<in> set (range_calls r)" for j using that none unfolding all by auto
      then show ?thesis by (simp add: range_run_all)
    qed
    then have eq: "map (\<lambda>r. fst (range_run fn (range_calls r))) ?R = map range_calls ?R" by simp
    show ?thesis using calls unfolding eq all .
  qed
  moreover have "\<exists>p. sub_future st i = Some p \<and> holds_outcome (fs_states (sub_futures st) p) r"
    if "i \<in> set T" "subs i = Sub_Future r" for i r
  proof -
    have "i \<in> set (executed (mon_log s))" using returned_executed [OF assms(1-3,7)] that(1) by blast
    moreover have ok: "submitted_ok subs (pl_next (mon_data s)) (set (executed (mon_log s))) st"
      using history_submitted [OF assms(1,2), of le subs d] assms(3) by simp
    ultimately show ?thesis
      using submitted_okD(2) [OF ok _ that(2)] executed_submitted [OF assms(1,2)] by (auto simp: delivered_def)
  qed
  ultimately show ?thesis by blast
qed

text \<open>A default pool has no worker: \<open>ParallelFor\<close> never returns once it has submitted a task.\<close>

lemma default_parallel_for_blocks:
  assumes "win_sync_ok api" and "reach (pool_step api) (mon_init api (pool_new hw (pool_config_default hw))) s"
    and "task_effects le subs (mon_log s) (submitted_new d) = Some st" and "T \<noteq> []"
  shows "\<not> pf_returned T st"
proof
  assume "pf_returned T st"
  then have "set T \<subseteq> set (executed (mon_log s))" by (rule returned_executed [OF assms(1-3)])
  with assms(4) pool_default_runs_nothing [OF assms(1,2)] show False by simp
qed

text \<open>Two tasks of one \<open>ParallelFor\<close> that one worker runs; the function throws for 10, so 11 is left out.\<close>

abbreviation demo_fn :: "nat \<Rightarrow> unit exn option" where
  "demo_fn \<equiv> \<lambda>j. if j = 10 then Some (User_Exn ()) else None"

abbreviation demo_rng :: "task \<Rightarrow> size_t \<times> size_t" where
  "demo_rng \<equiv> \<lambda>i. if i = 0 then (10, 12) else (12, 14)"

lemma parallel_for_on_pool_witness:
  "\<exists>s :: (pool_mutex, pool_pc, pool) fifo_mon. executed (mon_log s) = [0, 1] \<and> parallel_for 2 10 14 = [(10, 12), (12, 14)] \<and>
     distinct (pf_calls demo_fn demo_rng [0, 1] (executed (mon_log s))) \<and>
     set (pf_calls demo_fn demo_rng [0, 1] (executed (mon_log s))) = {10, 12, 13}"
proof -
  let ?subs = "\<lambda>i. pf_task demo_fn (demo_rng i)"
  obtain s where s: "run (pool_step fifo_sync) (submit_run @ submit_run @ [M_Call 1 (PW 0 W_Start), M_Run 1] @ take_run @ take_run) pool_demo = Some s"
    "pl_next (mon_data s) = 2" "executed (mon_log s) = [0, 1]"
    using two_tasks_demo by blast
  obtain st where st: "task_effects 0 ?subs (mon_log s) (submitted_new ()) = Some st"
    "submitted_ok ?subs (pl_next (mon_data s)) (set (executed (mon_log s))) st"
    using history_submitted [OF fifo_sync_ok run_reach [OF s(1)], of 0 ?subs "()"] by blast
  have ranges: "parallel_for 2 10 14 = [(10, 12), (12, 14 :: size_t)]" by code_simp
  have "pf_returned [0, 1] st"
    using submitted_okD(2) [OF st(2), of 0] submitted_okD(2) [OF st(2), of 1] s(2,3)
    by (auto simp: pf_returned_def pf_task_def delivered_def holds_outcome_def)
  from parallel_for_on_pool [OF fifo_sync_ok run_reach [OF s(1)] st(1) _ _ _ this, of demo_rng 2 10 14 demo_fn] ranges
  have "distinct (pf_calls demo_fn demo_rng [0, 1] (executed (mon_log s)))"
    "set (pf_calls demo_fn demo_rng [0, 1] (executed (mon_log s))) =
      {j. \<exists>r\<in>{(10, 12), (12, 14 :: size_t)}. j \<in> set (range_calls r) \<and> (\<forall>k\<in>set (range_calls r). k < j \<longrightarrow> demo_fn k = None)}"
    by simp_all
  moreover have "{j. \<exists>r\<in>{(10, 12), (12, 14 :: size_t)}. j \<in> set (range_calls r) \<and> (\<forall>k\<in>set (range_calls r). k < j \<longrightarrow> demo_fn k = None)} = {10, 12, 13}"
    by (auto simp: range_calls_def)
  ultimately show ?thesis using s(3) ranges by metis
qed

end
