(* ===== verification/Pool_Progress.thy ===== *)
theory Pool_Progress
  imports Pool
begin

text \<open>
  Progress of \<open>ThreadPool\<close> (\<open>src/src/ezthread/pool.cpp\<close>): as long as one worker runs and the pool is neither
  paused nor stopped, every task of the queue can still be executed, without a further call of a
  client. The proof follows a worker by the statements it has left.
\<close>

section \<open>Schedules without new calls\<close>

fun no_call :: "'k mon_label \<Rightarrow> bool" where
  "no_call (M_Call t k) \<longleftrightarrow> False"
| "no_call _ \<longleftrightarrow> True"

definition can_execute ::
  "('c, 'v) win_sync \<Rightarrow> task \<Rightarrow> ('c, 'v, pool_mutex, pool_pc, pool) mon \<Rightarrow> bool" where
  "can_execute api x s \<longleftrightarrow> (\<exists>ls s'. list_all no_call ls \<and> run (pool_step api) ls s = Some s' \<and>
     x \<in> set (executed (mon_log s')))"

lemma can_execute_later:
  assumes "run (pool_step api) ls s = Some s1" and "list_all no_call ls" and "can_execute api x s1"
  shows "can_execute api x s"
proof -
  obtain ls' s' where "list_all no_call ls'" "run (pool_step api) ls' s1 = Some s'" "x \<in> set (executed (mon_log s'))"
    using assms(3) unfolding can_execute_def by blast
  with assms(1,2) show ?thesis
    unfolding can_execute_def by (intro exI [of _ "ls @ ls'"] exI [of _ s']) (simp add: run_append)
qed

lemma can_execute_step:
  assumes "pool_step api l s = Some s1" and "no_call l" and "can_execute api x s1"
  shows "can_execute api x s"
  using assms by (intro can_execute_later [of api "[l]" s s1]) (simp_all del: mon_step.simps)

section \<open>A worker that runs\<close>

text \<open>
  A worker that has begun its loop and does not end by an exception of \<open>WaitFor\<close>; and a bound on the
  statements it executes until it takes a task or, with a task in hand, runs it.
\<close>

fun alive :: "pool_pc \<Rightarrow> bool" where
  "alive (PW i W_Start) \<longleftrightarrow> False"
| "alive (PW i (W_Woken r)) \<longleftrightarrow> r = Cv_True \<or> r = Cv_False ERROR_TIMEOUT"
| "alive (PW i W_Throw_Unlock) \<longleftrightarrow> False"
| "alive (PW i W_Thrown) \<longleftrightarrow> False"
| "alive (PW i W_Ended) \<longleftrightarrow> False"
| "alive (PW i w) \<longleftrightarrow> True"
| "alive (PC c) \<longleftrightarrow> False"

definition working :: "(pool_mutex, pool_pc) thread_pc \<Rightarrow> bool" where
  "working pc \<longleftrightarrow> (case next_pc pc of None \<Rightarrow> False | Some k \<Rightarrow> alive k)"

fun statements_left :: "pool_pc \<Rightarrow> nat" where
  "statements_left (PW i (W_Pop x)) = 0"
| "statements_left (PW i W_Front) = 1"
| "statements_left (PW i W_Take_Stop) = 2"
| "statements_left (PW i W_Take) = 3"
| "statements_left (PW i W_Empty) = 4"
| "statements_left (PW i (W_Woken r)) = 5"
| "statements_left (PW i W_Pause_Test) = 5"
| "statements_left (PW i W_Loop) = 6"
| "statements_left (PW i W_Empty_Stop) = 7"
| "statements_left (PW i W_Reset_Unlock) = 7"
| "statements_left (PW i W_Reset_Active) = 8"
| "statements_left (PW i W_Deactivate) = 9"
| "statements_left (PW i (W_Execute x)) = 10"
| "statements_left (PW i (W_Active_Unlock x)) = 11"
| "statements_left (PW i (W_Set_Active x)) = 12"
| "statements_left (PW i (W_Activate x)) = 13"
| "statements_left (PW i (W_Unlock tk)) = 14"
| "statements_left (PW i (W_Sub x)) = 15"
| "statements_left _ = 0"

fun steps_left :: "(pool_mutex, pool_pc) thread_pc \<Rightarrow> nat" where
  "steps_left (T_At k) = 3 * statements_left k"
| "steps_left (T_Entering m k) = 3 * statements_left k + 1"
| "steps_left (T_Asleep m ms f) = 3 * statements_left (f Cv_True) + 2"
| "steps_left _ = 0"

text \<open>The task waits in the queue of a pool that runs; \<open>tasks_before\<close> are ahead of it.\<close>

definition waits_in :: "pool \<Rightarrow> task \<Rightarrow> bool" where
  "waits_in p x \<longleftrightarrow> \<not> pl_stopping p \<and> \<not> pl_paused p \<and> x \<in> set (pl_taskQueue p)"

definition tasks_before :: "pool \<Rightarrow> task \<Rightarrow> nat" where
  "tasks_before p x = length (takeWhile (\<lambda>y. y \<noteq> x) (pl_taskQueue p))"

text \<open>A worker's own statement brings it closer, unless it takes a task.\<close>

lemma worker_closer:
  assumes "alive (PW i w)" and "waits_in p x" and "\<And>z. w \<noteq> W_Pop z" and "pool_prog (PW i w) p = (p', j)"
  shows "working (pc_after j)" and "steps_left (pc_after j) < steps_left (T_At (PW i w))"
proof -
  have "pl_taskQueue p \<noteq> []" "\<not> pl_stopping p" "\<not> pl_paused p" using assms(2) by (auto simp: waits_in_def)
  then have "working (pc_after j) \<and> steps_left (pc_after j) < steps_left (T_At (PW i w))"
    using assms(1,3,4)
    by (cases w) (auto simp: working_def cv_WaitFor_def ERROR_TIMEOUT_def split: option.splits cv_result.splits)
  then show "working (pc_after j)" "steps_left (pc_after j) < steps_left (T_At (PW i w))" by simp_all
qed

lemma carrier_closer:
  assumes "carrying (PW i w) = Some x" and "w \<noteq> W_Execute x" and "pool_prog (PW i w) p = (p', j)"
  shows "role carrying (pc_after j) = Some x" and "steps_left (pc_after j) < steps_left (T_At (PW i w))"
  using assms by (cases w; auto)+

section \<open>Statements of any thread\<close>

lemma nobody_stops:
  assumes "win_sync_ok api" and "reach (pool_step api) (mon_init api (pool_new hw c)) s" and "\<not> pl_stopping (mon_data s)"
  shows "role stopper (mon_pcs s t) = None"
proof -
  have "one_stopper (mon_data s) (mon_pcs s) (mon_log s)"
    using pool_workers.reach_J [OF assms(1) _ assms(2)] by (simp add: workers_J_def)
  then show ?thesis using assms(3) claimsI [of "role stopper" "mon_pcs s" t]
    by (cases "role stopper (mon_pcs s t)") (auto simp: one_stopper_def)
qed

text \<open>
  The queue after a statement inside a critical section, or of a worker: the task is still there,
  or the thread carries it.
\<close>

lemma tasks_before_append: "x \<in> set (pl_taskQueue p) \<Longrightarrow> takeWhile (\<lambda>y. y \<noteq> x) (pl_taskQueue p @ q) = takeWhile (\<lambda>y. y \<noteq> x) (pl_taskQueue p)"
  by (rule takeWhile_append1 [of x]) auto

lemma statement_queue:
  assumes "waits_in p x" and "queue_known p k" and "stopper k = None" and "pool_holds k \<noteq> None \<or> (\<exists>i w. k = PW i w)"
    and "pool_prog k p = (p', j)"
  shows "waits_in p' x \<and> tasks_before p' x \<le> tasks_before p x \<and>
      ((\<exists>i y. k = PW i (W_Pop y)) \<longrightarrow> tasks_before p' x < tasks_before p x) \<or>
    (\<exists>i. j = I_Goto (PW i (W_Sub x)))"
proof (cases k)
  case (PW i w)
  show ?thesis
  proof (cases "\<exists>y. w = W_Pop y")
    case True
    then obtain y q where "w = W_Pop y" "pl_taskQueue p = y # q"
      using assms(2) PW by (cases "pl_taskQueue p") auto
    then show ?thesis using assms PW by (auto simp: waits_in_def tasks_before_def)
  next
    case False
    then show ?thesis using assms PW
      by (cases w) (auto simp: waits_in_def tasks_before_def set_active_def split: if_splits)
  qed
next
  case (PC c)
  then show ?thesis using assms
    by (cases c) (auto simp: waits_in_def tasks_before_def tasks_before_append)
qed

lemma statement_keeps:
  assumes "win_sync_ok api" and r: "reach (pool_step api) (mon_init api (pool_new hw c)) s"
    and pc: "mon_pcs s u = T_At k" and "waits_in (mon_data s) x" and "pool_holds k \<noteq> None \<or> (\<exists>i w. k = PW i w)"
  obtains s1 where "pool_step api (M_Run u) s = Some s1" "reach (pool_step api) (mon_init api (pool_new hw c)) s1"
    "mon_pcs s1 = (mon_pcs s)(u := pc_after (snd (pool_prog k (mon_data s))))" "mon_data s1 = fst (pool_prog k (mon_data s))"
    "waits_in (mon_data s1) x \<and> tasks_before (mon_data s1) x \<le> tasks_before (mon_data s) x \<and>
       ((\<exists>i y. k = PW i (W_Pop y)) \<longrightarrow> tasks_before (mon_data s1) x < tasks_before (mon_data s) x) \<or>
     role carrying (mon_pcs s1 u) = Some x"
proof -
  obtain p' j where p: "pool_prog k (mon_data s) = (p', j)" by fastforce
  have inv: "pool_sections.locked.mon_inv api s" by (rule pool_sections.locked.mon_inv_reach [OF assms(1) _ r]) simp
  from pool_sections.owner_step [OF inv assms(1) pc] obtain s1 where
    s1: "pool_step api (M_Run u) s = Some s1"
    "mon_pcs s1 = (mon_pcs s)(u := pc_after (snd (pool_prog k (mon_data s))))" "mon_data s1 = fst (pool_prog k (mon_data s))"
    by blast
  have "tasks_J (mon_data s) (mon_pcs s) (mon_log s) (mon_asleep api s)"
    by (rule pool_tasks.reach_J [OF assms(1) _ r]) simp
  then have "pool_thread (mon_data s) (mon_pcs s u)" by (simp add: tasks_J_def)
  then have known: "queue_known (mon_data s) k" using pc by simp
  have "stopper k = None" using nobody_stops [OF assms(1) r, of u] assms(4) pc by (simp add: waits_in_def)
  from statement_queue [OF assms(4) known this assms(5) p] s1(2,3) p
  have "waits_in (mon_data s1) x \<and> tasks_before (mon_data s1) x \<le> tasks_before (mon_data s) x \<and>
       ((\<exists>i y. k = PW i (W_Pop y)) \<longrightarrow> tasks_before (mon_data s1) x < tasks_before (mon_data s) x) \<or>
     role carrying (mon_pcs s1 u) = Some x" by auto
  then show ?thesis using that s1 reach_step [OF r s1(1)] by blast
qed

text \<open>A thread inside a critical section leaves it, and the task is still in the queue or carried by that thread.\<close>

lemma leaves_queue:
  assumes "win_sync_ok api" and "reach (pool_step api) (mon_init api (pool_new hw c)) s"
    and "mon_pcs s u = T_At k" and "pool_holds k = Some m" and "waits_in (mon_data s) x"
  shows "\<exists>n s'. run (pool_step api) (replicate n (M_Run u)) s = Some s' \<and>
    reach (pool_step api) (mon_init api (pool_new hw c)) s' \<and>
    (role carrying (mon_pcs s' u) = Some x \<or>
     (\<forall>v. v \<noteq> u \<longrightarrow> mon_pcs s' v = mon_pcs s v) \<and> (\<forall>v. \<not> inside pool_holds m (mon_pcs s' v)) \<and>
       waits_in (mon_data s') x \<and> tasks_before (mon_data s') x \<le> tasks_before (mon_data s) x)"
  using assms(2-5)
proof (induction "pool_rank k (mon_data s)" arbitrary: s k rule: less_induct)
  case less
  let ?i = "snd (pool_prog k (mon_data s))"
  have holds: "pool_holds k \<noteq> None \<or> (\<exists>i w. k = PW i w)" using less.prems(3) by simp
  obtain s1 where s1: "pool_step api (M_Run u) s = Some s1" "reach (pool_step api) (mon_init api (pool_new hw c)) s1"
    "mon_pcs s1 = (mon_pcs s)(u := pc_after ?i)" "mon_data s1 = fst (pool_prog k (mon_data s))"
    "waits_in (mon_data s1) x \<and> tasks_before (mon_data s1) x \<le> tasks_before (mon_data s) x \<or>
     role carrying (mon_pcs s1 u) = Some x"
    by (rule statement_keeps [OF assms(1) less.prems(1,2,4) holds]) blast
  have one: "run (pool_step api) (replicate 1 (M_Run u)) s = Some s1" using s1(1) by (simp del: mon_step.simps)
  have disc: "disciplined pool_holds k ?i" by (rule pool_disciplined)
  show ?case
  proof (cases "role carrying (mon_pcs s1 u) = Some x")
    case True
    with one s1(2) show ?thesis by blast
  next
    case carried: False
    with s1(5) have w: "waits_in (mon_data s1) x" "tasks_before (mon_data s1) x \<le> tasks_before (mon_data s) x" by simp_all
    show ?thesis
    proof (cases "next_inside ?i")
      case (Some k')
      then have k': "mon_pcs s1 u = T_At k'" "pool_holds k' = Some m" using disc less.prems(3) s1(3) by (cases ?i; simp)+
      have lt: "pool_rank k' (mon_data s1) < pool_rank k (mon_data s)"
        using pool_sections.rank_less [OF less.prems(3) Some] s1(4) by simp
      from less.hyps [OF lt s1(2) k' w(1)] obtain n s' where
        s': "run (pool_step api) (replicate n (M_Run u)) s1 = Some s'" "reach (pool_step api) (mon_init api (pool_new hw c)) s'"
        "role carrying (mon_pcs s' u) = Some x \<or>
         (\<forall>v. v \<noteq> u \<longrightarrow> mon_pcs s' v = mon_pcs s1 v) \<and> (\<forall>v. \<not> inside pool_holds m (mon_pcs s' v)) \<and>
           waits_in (mon_data s') x \<and> tasks_before (mon_data s') x \<le> tasks_before (mon_data s1) x" by blast
      have "run (pool_step api) (replicate (Suc n) (M_Run u)) s = Some s'"
        using s1(1) s'(1) by (simp del: mon_step.simps)
      with s' s1(3) w(2) show ?thesis by (intro exI [of _ "Suc n"] exI [of _ s']) auto
    next
      case None
      have "mon_locks api pool_holds s"
        using pool_sections.locked.mon_inv_reach [OF assms(1) _ less.prems(1)] by (simp add: pool_sections.locked.mon_inv_def)
      then have "\<not> inside pool_holds m (mon_pcs s v)" if "v \<noteq> u" for v
        using pool_sections.locked.locks_owner(2) [of api s m u v] less.prems(2,3) that by auto
      moreover have "\<not> inside pool_holds m (pc_after ?i)" using None disc less.prems(3) by (cases ?i) auto
      ultimately have "\<forall>v. \<not> inside pool_holds m (mon_pcs s1 v)" using s1(3) by simp
      with one s1(2,3) w show ?thesis by (intro exI [of _ 1] exI [of _ s1]) auto
    qed
  qed
qed

section \<open>The task is executed\<close>

text \<open>A thread that waits to enter gets in once the critical section is free.\<close>

lemma enters:
  assumes "win_sync_ok api" and r: "reach (pool_step api) (mon_init api (pool_new hw c)) s"
    and pc: "mon_pcs s t = T_Entering m k" and "\<And>v. \<not> inside pool_holds m (mon_pcs s v)"
  obtains s1 where "pool_step api (M_Enter t) s = Some s1" "reach (pool_step api) (mon_init api (pool_new hw c)) s1"
    "mon_pcs s1 t = T_At k" "mon_data s1 = mon_data s"
proof -
  have "mon_locks api pool_holds s"
    using pool_sections.locked.mon_inv_reach [OF assms(1) _ r] by (simp add: pool_sections.locked.mon_inv_def)
  from pool_sections.enter_free [OF this assms(1,4) pc] obtain s1 where s1: "pool_step api (M_Enter t) s = Some s1" by blast
  moreover have "mon_pcs s1 t = T_At k" "mon_data s1 = mon_data s"
    using s1 pc by (auto split: option.splits)
  ultimately show ?thesis using that reach_step [OF r] by blast
qed

text \<open>A worker with a task in hand runs it.\<close>

lemma carrier_enters:
  assumes "win_sync_ok api" and r: "reach (pool_step api) (mon_init api (pool_new hw c)) s"
    and pc: "mon_pcs s t = T_Entering m k"
  shows "\<exists>ls s1. run (pool_step api) ls s = Some s1 \<and> list_all no_call ls \<and>
    reach (pool_step api) (mon_init api (pool_new hw c)) s1 \<and> mon_pcs s1 t = T_At k"
proof (cases "\<exists>u. inside pool_holds m (mon_pcs s u)")
  case False
  then obtain s1 where s1: "pool_step api (M_Enter t) s = Some s1"
    "reach (pool_step api) (mon_init api (pool_new hw c)) s1" "mon_pcs s1 t = T_At k"
    using enters [OF assms] by blast
  then show ?thesis by (intro exI [of _ "[M_Enter t]"] exI [of _ s1]) (simp del: mon_step.simps)
next
  case True
  then obtain u k' where u: "mon_pcs s u = T_At k'" "pool_holds k' = Some m" by (auto simp: inside_def)
  have inv: "pool_sections.locked.mon_inv api s" by (rule pool_sections.locked.mon_inv_reach [OF assms(1) _ r]) simp
  from pool_sections.owner_leaves [OF inv assms(1) u] obtain n s' where
    s': "run (pool_step api) (replicate n (M_Run u)) s = Some s'" "\<forall>v. \<not> inside pool_holds m (mon_pcs s' v)"
      "\<forall>v. v \<noteq> u \<longrightarrow> mon_pcs s' v = mon_pcs s v" by blast
  have r': "reach (pool_step api) (mon_init api (pool_new hw c)) s'" by (rule run_reach_from [OF s'(1) r])
  have "mon_pcs s' t = T_Entering m k" using s'(3) u(1) pc by (cases "t = u") auto
  then obtain s1 where s1: "pool_step api (M_Enter t) s' = Some s1"
    "reach (pool_step api) (mon_init api (pool_new hw c)) s1" "mon_pcs s1 t = T_At k"
    using enters [OF assms(1) r'] s'(2) by blast
  have "run (pool_step api) (replicate n (M_Run u) @ [M_Enter t]) s = Some s1"
    using s'(1) s1(1) by (simp add: run_append del: mon_step.simps)
  with s1 show ?thesis
    by (intro exI [of _ "replicate n (M_Run u) @ [M_Enter t]"] exI [of _ s1]) (simp add: list_all_iff)
qed

lemma carrier_executes:
  assumes "win_sync_ok api" and "reach (pool_step api) (mon_init api (pool_new hw c)) s"
    and "role carrying (mon_pcs s t) = Some x"
  shows "can_execute api x s"
  using assms(2,3)
proof (induction "steps_left (mon_pcs s t)" arbitrary: s rule: less_induct)
  case less
  have inv: "pool_sections.locked.mon_inv api s" by (rule pool_sections.locked.mon_inv_reach [OF assms(1) _ less.prems(1)]) simp
  show ?case
  proof (cases "mon_pcs s t")
    case (T_At k)
    then obtain i w where k: "k = PW i w" "carrying (PW i w) = Some x" using less.prems(2) by (cases k) auto
    obtain s1 where s1: "pool_step api (M_Run t) s = Some s1"
      "mon_pcs s1 = (mon_pcs s)(t := pc_after (snd (pool_prog k (mon_data s))))"
      by (rule pool_sections.owner_step [OF inv assms(1) T_At])
    obtain p' j where p: "pool_prog k (mon_data s) = (p', j)" by fastforce
    show ?thesis
    proof (cases "w = W_Execute x")
      case True
      then have "x \<in> set (executed (mon_log s1))" using s1(1) T_At k by auto
      then have "can_execute api x s1"
        unfolding can_execute_def by (intro exI [of _ "[]"] exI [of _ s1]) simp
      with s1(1) show ?thesis by (intro can_execute_step [of api "M_Run t" s s1]) simp_all
    next
      case False
      note closer = carrier_closer [OF k(2) False p [unfolded k(1)]]
      have "mon_pcs s1 t = pc_after j" using s1(2) p by (simp only: fun_upd_same snd_conv)
      with closer T_At k have "can_execute api x s1"
        by (intro less.hyps) (simp_all only: reach_step [OF less.prems(1) s1(1)])
      with s1(1) show ?thesis by (intro can_execute_step [of api "M_Run t" s s1]) simp_all
    qed
  next
    case (T_Entering m k)
    from carrier_enters [OF assms(1) less.prems(1) this] obtain ls s1 where s1: "run (pool_step api) ls s = Some s1"
      "list_all no_call ls" "reach (pool_step api) (mon_init api (pool_new hw c)) s1" "mon_pcs s1 t = T_At k" by blast
    have "can_execute api x s1" by (rule less.hyps) (use s1(3,4) T_Entering less.prems(2) in simp_all)
    with s1(1,2) show ?thesis by (rule can_execute_later)
  next
    case (T_Asleep m ms f)
    have "tasks_J (mon_data s) (mon_pcs s) (mon_log s) (mon_asleep api s)"
      by (rule pool_tasks.reach_J [OF assms(1) _ less.prems(1)]) simp
    then have "pool_thread (mon_data s) (mon_pcs s t)" by (simp add: tasks_J_def)
    with T_Asleep less.prems(2) show ?thesis by auto
  qed (use less.prems(2) in auto)
qed

text \<open>
  What a worker reaches next, with the help of a thread that is in its way: it is closer to the
  task, or the task is carried by some worker.
\<close>

definition closer ::
  "tid \<Rightarrow> task \<Rightarrow> ('c, 'v, pool_mutex, pool_pc, pool) mon \<Rightarrow> ('c, 'v, pool_mutex, pool_pc, pool) mon \<Rightarrow> bool" where
  "closer t x s s1 \<longleftrightarrow> working (mon_pcs s1 t) \<and> waits_in (mon_data s1) x \<and>
     tasks_before (mon_data s1) x \<le> tasks_before (mon_data s) x \<and>
     (tasks_before (mon_data s1) x < tasks_before (mon_data s) x \<or> steps_left (mon_pcs s1 t) < steps_left (mon_pcs s t))"

definition advances ::
  "('c, 'v) win_sync \<Rightarrow> ('c, 'v, pool_mutex, pool_pc, pool) mon \<Rightarrow> tid \<Rightarrow> task \<Rightarrow>
   ('c, 'v, pool_mutex, pool_pc, pool) mon \<Rightarrow> bool" where
  "advances api s0 t x s \<longleftrightarrow> (\<exists>ls s1. run (pool_step api) ls s = Some s1 \<and> list_all no_call ls \<and>
     reach (pool_step api) s0 s1 \<and> (closer t x s s1 \<or> (\<exists>u. role carrying (mon_pcs s1 u) = Some x)))"

lemma advances_step:
  assumes "pool_step api l s = Some s1" and "no_call l" and "reach (pool_step api) s0 s1"
    and "closer t x s s1 \<or> (\<exists>u. role carrying (mon_pcs s1 u) = Some x)"
  shows "advances api s0 t x s"
  unfolding advances_def
  by (intro exI [of _ "[l]"] exI [of _ s1]) (use assms in \<open>simp del: mon_step.simps\<close>)

lemma advances_at:
  assumes "win_sync_ok api" and r: "reach (pool_step api) (mon_init api (pool_new hw c)) s"
    and pc: "mon_pcs s t = T_At k" and alive: "alive k" and w: "waits_in (mon_data s) x"
  shows "advances api (mon_init api (pool_new hw c)) t x s"
proof -
  obtain i wp where k: "k = PW i wp" using alive by (cases k) auto
  obtain s1 where s1: "pool_step api (M_Run t) s = Some s1" "reach (pool_step api) (mon_init api (pool_new hw c)) s1"
    "mon_pcs s1 = (mon_pcs s)(t := pc_after (snd (pool_prog k (mon_data s))))"
    "waits_in (mon_data s1) x \<and> tasks_before (mon_data s1) x \<le> tasks_before (mon_data s) x \<and>
       ((\<exists>i y. k = PW i (W_Pop y)) \<longrightarrow> tasks_before (mon_data s1) x < tasks_before (mon_data s) x) \<or>
     role carrying (mon_pcs s1 t) = Some x"
    by (rule statement_keeps [OF assms(1) r pc w]) (use k in auto)
  obtain p' j where p: "pool_prog k (mon_data s) = (p', j)" by fastforce
  have j: "mon_pcs s1 t = pc_after j" using s1(3) p by (simp only: fun_upd_same snd_conv)
  have "closer t x s s1" if no: "role carrying (mon_pcs s1 t) \<noteq> Some x"
  proof (cases "\<exists>y. wp = W_Pop y")
    case True
    then obtain y where "wp = W_Pop y" "j = I_Goto (PW i (W_Sub y))" using p k by auto
    with s1(4) no j k show ?thesis by (simp add: closer_def working_def)
  next
    case False
    then have "working (pc_after j)" "steps_left (pc_after j) < steps_left (T_At (PW i wp))"
      using worker_closer [OF alive [unfolded k] w _ p [unfolded k]] by blast+
    with s1(4) no j pc k show ?thesis by (auto simp: closer_def)
  qed
  then show ?thesis by (intro advances_step [OF s1(1) _ s1(2)]) auto
qed

lemma advances_entering:
  assumes "win_sync_ok api" and r: "reach (pool_step api) (mon_init api (pool_new hw c)) s"
    and pc: "mon_pcs s t = T_Entering m k" and alive: "alive k" and w: "waits_in (mon_data s) x"
  shows "advances api (mon_init api (pool_new hw c)) t x s"
proof (cases "\<exists>u. inside pool_holds m (mon_pcs s u)")
  case False
  then obtain s1 where s1: "pool_step api (M_Enter t) s = Some s1" "reach (pool_step api) (mon_init api (pool_new hw c)) s1"
    "mon_pcs s1 t = T_At k" "mon_data s1 = mon_data s" using enters [OF assms(1) r pc] by blast
  then have "closer t x s s1" using pc alive w by (simp add: closer_def working_def)
  then show ?thesis by (intro advances_step [OF s1(1) _ s1(2)]) simp_all
next
  case True
  then obtain u k' where u: "mon_pcs s u = T_At k'" "pool_holds k' = Some m" by (auto simp: inside_def)
  from leaves_queue [OF assms(1) r u w] obtain n s' where
    s': "run (pool_step api) (replicate n (M_Run u)) s = Some s'" "reach (pool_step api) (mon_init api (pool_new hw c)) s'"
    "role carrying (mon_pcs s' u) = Some x \<or>
     (\<forall>v. v \<noteq> u \<longrightarrow> mon_pcs s' v = mon_pcs s v) \<and> (\<forall>v. \<not> inside pool_holds m (mon_pcs s' v)) \<and>
       waits_in (mon_data s') x \<and> tasks_before (mon_data s') x \<le> tasks_before (mon_data s) x" by blast
  have quiet: "list_all no_call (replicate n (M_Run u))" by (simp add: list_all_iff)
  show ?thesis
  proof (cases "role carrying (mon_pcs s' u) = Some x")
    case True
    with s'(1,2) quiet show ?thesis unfolding advances_def by blast
  next
    case False
    with s'(3) have free: "\<And>v. v \<noteq> u \<Longrightarrow> mon_pcs s' v = mon_pcs s v" "\<And>v. \<not> inside pool_holds m (mon_pcs s' v)"
      "waits_in (mon_data s') x" "tasks_before (mon_data s') x \<le> tasks_before (mon_data s) x" by blast+
    have pc': "mon_pcs s' t = T_Entering m k" using free(1) u(1) pc by (cases "t = u") auto
    obtain s1 where s1: "pool_step api (M_Enter t) s' = Some s1" "reach (pool_step api) (mon_init api (pool_new hw c)) s1"
      "mon_pcs s1 t = T_At k" "mon_data s1 = mon_data s'" by (rule enters [OF assms(1) s'(2) pc' free(2)])
    have "closer t x s s1" using s1(3,4) pc alive free(3,4) by (simp add: closer_def working_def)
    moreover have "run (pool_step api) (replicate n (M_Run u) @ [M_Enter t]) s = Some s1"
      using s'(1) s1(1) by (simp add: run_append del: mon_step.simps)
    moreover have "list_all no_call (replicate n (M_Run u) @ [M_Enter t])" using quiet by simp
    ultimately show ?thesis using s1(2) unfolding advances_def by blast
  qed
qed

lemma advances_asleep:
  assumes "win_sync_ok api" and r: "reach (pool_step api) (mon_init api (pool_new hw c)) s"
    and pc: "mon_pcs s t = T_Asleep m ms f" and w: "waits_in (mon_data s) x"
    and returns: "api_returns api ms r" "r = Cv_True \<or> r = Cv_False ERROR_TIMEOUT"
  shows "advances api (mon_init api (pool_new hw c)) t x s"
proof -
  have "tasks_J (mon_data s) (mon_pcs s) (mon_log s) (mon_asleep api s)"
    by (rule pool_tasks.reach_J [OF assms(1) _ assms(2)]) simp
  then have "pool_thread (mon_data s) (mon_pcs s t)" by (simp add: tasks_J_def)
  then obtain i where f: "f = (\<lambda>r. PW i (W_Woken r))" using pc by auto
  obtain s1 where s1: "pool_step api (M_Woken t r) s = Some s1" "mon_pcs s1 t = T_Entering m (f r)"
    "mon_data s1 = mon_data s" using pc returns(1) by simp
  have "closer t x s s1" using s1(2,3) pc f w returns(2) by (auto simp: closer_def working_def)
  then show ?thesis by (intro advances_step [OF s1(1) _ reach_step [OF assms(2) s1(1)]]) simp_all
qed

text \<open>The only sleep is that of a worker, with a time-out of 100 milliseconds.\<close>

fun sleeps_100 :: "('m, 'k) thread_pc \<Rightarrow> bool" where
  "sleeps_100 (T_Asleep m ms f) \<longleftrightarrow> ms = 100"
| "sleeps_100 _ \<longleftrightarrow> True"

lemma pool_sleep_100: "pool_prog k p = (p', i) \<Longrightarrow> sleeps_100 (pc_after i)"
proof (cases k)
  case (PW i w)
  then show "pool_prog k p = (p', i') \<Longrightarrow> sleeps_100 (pc_after i')" for i'
    by (cases w) (auto split: option.splits sum.splits if_splits)
next
  case (PC c)
  then show "pool_prog k p = (p', i) \<Longrightarrow> sleeps_100 (pc_after i)" by (cases c) auto
qed

lemma pool_sleeps_100:
  assumes "reach (pool_step api) (mon_init api p0) s"
  shows "sleeps_100 (mon_pcs s t)"
proof -
  have "\<forall>t. sleeps_100 (mon_pcs s t)"
    using assms
  proof (induction rule: reach.induct)
    case (reach_step s l s')
    from reach_step.hyps(2) obtain u pc where "mon_pcs s' = (mon_pcs s)(u := pc)" "sleeps_100 pc"
      by (cases l) (auto split: thread_pc.splits prod.splits option.splits if_splits dest: pool_sleep_100)
    with reach_step.IH show ?case by simp
  qed (simp add: mon_init_def)
  then show ?thesis by blast
qed

text \<open>A worker that runs comes to the task, by itself or because another worker takes it before.\<close>

lemma worker_executes:
  assumes "win_sync_ok api" and wakes: "api_returns api 100 Cv_True \<or> api_returns api 100 (Cv_False ERROR_TIMEOUT)"
    and "reach (pool_step api) (mon_init api (pool_new hw c)) s"
    and "working (mon_pcs s t)" and "waits_in (mon_data s) x"
  shows "can_execute api x s"
  using assms(3-5)
proof (induction s rule: wf_induct_rule
    [OF wf_measures [of "[\<lambda>s. tasks_before (mon_data s) x, \<lambda>s. steps_left (mon_pcs s t)]"]])
  case (1 s)
  note r = "1.prems"(1) and w = "1.prems"(3)
  have "advances api (mon_init api (pool_new hw c)) t x s"
  proof (cases "mon_pcs s t")
    case (T_Asleep m ms f)
    then have "ms = 100" using pool_sleeps_100 [OF r, of t] by simp
    with T_Asleep wakes show ?thesis by (auto intro: advances_asleep [OF assms(1) r _ w])
  qed (use "1.prems"(2) in \<open>auto simp: working_def intro: advances_at [OF assms(1) r _ _ w]
    advances_entering [OF assms(1) r _ _ w]\<close>)
  then obtain ls s1 where s1: "run (pool_step api) ls s = Some s1" "list_all no_call ls"
    "reach (pool_step api) (mon_init api (pool_new hw c)) s1"
    "closer t x s s1 \<or> (\<exists>u. role carrying (mon_pcs s1 u) = Some x)" unfolding advances_def by blast
  have "can_execute api x s1"
  proof (cases "closer t x s s1")
    case True
    then show ?thesis using "1.IH" [OF _ s1(3)] by (auto simp: closer_def le_less)
  next
    case False
    with s1(4) show ?thesis using carrier_executes [OF assms(1) s1(3)] by blast
  qed
  with s1(1,2) show ?case by (rule can_execute_later)
qed

section \<open>Properties\<close>

text \<open>
  C14. A pool makes progress. Whatever the schedule was so far, while a pool is neither paused nor
  stopped and one worker is in its loop, every task of the queue can still be executed without a
  further call of a client: the worker, and the threads inside the two critical sections in its
  way, need only run on. It does not matter whether a wake-up was lost, as the sleep of a worker
  ends after 100 milliseconds.
\<close>

theorem pool_task_can_run:
  assumes "win_sync_ok api" and "api_returns api 100 Cv_True \<or> api_returns api 100 (Cv_False ERROR_TIMEOUT)"
    and "reach (pool_step api) (mon_init api (pool_new hw c)) s"
    and "\<not> pl_stopping (mon_data s)" and "\<not> pl_paused (mon_data s)"
    and "working (mon_pcs s t)" and "x \<in> set (pl_taskQueue (mon_data s))"
  shows "\<exists>ls s'. list_all no_call ls \<and> run (pool_step api) ls s = Some s' \<and> x \<in> set (executed (mon_log s'))"
  using worker_executes [OF assms(1-3,6), of x] assms(4,5,7) by (simp add: can_execute_def waits_in_def)

text \<open>
  A worker sleeps and a client has pushed its task but not yet notified anybody; without the
  notification the time-out of the sleep brings the worker to the task.
\<close>

lemma pool_unnotified_demo:
  "\<exists>s. run (pool_step fifo_sync) (idle_run @ take 7 submit_run) pool_demo = Some s \<and>
     \<not> pl_stopping (mon_data s) \<and> \<not> pl_paused (mon_data s) \<and> working (mon_pcs s 1) \<and>
     pl_taskQueue (mon_data s) = [0] \<and> executed (mon_log s) = [] \<and> api_asleep fifo_sync (mon_cv s Queue_Mutex) 1"
  by (simp add: pool_run_simps working_def)

theorem pool_task_can_run_witness:
  "\<exists>(s :: (pool_mutex, pool_pc, pool) fifo_mon) ls s'. api_asleep fifo_sync (mon_cv s Queue_Mutex) 1 \<and>
     pl_taskQueue (mon_data s) = [0] \<and> executed (mon_log s) = [] \<and>
     list_all no_call ls \<and> run (pool_step fifo_sync) ls s = Some s' \<and> 0 \<in> set (executed (mon_log s'))"
proof -
  obtain s where s: "run (pool_step fifo_sync) (idle_run @ take 7 submit_run) pool_demo = Some s"
    "\<not> pl_stopping (mon_data s)" "\<not> pl_paused (mon_data s)" "working (mon_pcs s 1)"
    "pl_taskQueue (mon_data s) = [0]" "executed (mon_log s) = []" "api_asleep fifo_sync (mon_cv s Queue_Mutex) 1"
    using pool_unnotified_demo by (elim exE conjE) (rule that; assumption)
  have "api_returns fifo_sync 100 Cv_True \<or> api_returns fifo_sync 100 (Cv_False ERROR_TIMEOUT)"
    by (simp add: fifo_sync_def)
  from pool_task_can_run [OF fifo_sync_ok this run_reach [OF s(1)] s(2-4), of 0] s(5-7) show ?thesis by auto
qed

end
