(* ===== verification/Shared_State.thy ===== *)
theory Shared_State
  imports Future_Promise
begin

text \<open>
  Who keeps the shared states of \<open>src/src/ezthread/future.cpp\<close> alive: the objects of \<open>Future\<close> and \<open>Promise\<close> and
  the tasks of \<open>Then\<close> hold \<open>std::shared_ptr\<close>s, whose reference counts are written out here. One
  call of a constructor, an assignment, \<open>GetFuture\<close>, \<open>Then\<close> or a destructor is one step.
\<close>

section \<open>Objects and counts\<close>

text \<open>The task of \<open>Then\<close> holds the state it waits for and the promise that it will satisfy.\<close>

datatype owner = O_Future handle | O_Promise handle | O_Task handle nat

fun owner_refs :: "owner \<Rightarrow> nat list" where
  "owner_refs (O_Future h) = (case h of None \<Rightarrow> [] | Some m \<Rightarrow> [m])"
| "owner_refs (O_Promise h) = (case h of None \<Rightarrow> [] | Some m \<Rightarrow> [m])"
| "owner_refs (O_Task h p) = (case h of None \<Rightarrow> [] | Some m \<Rightarrow> [m]) @ [p]"

text \<open>The state that an object can satisfy.\<close>

fun owner_sets :: "owner \<Rightarrow> nat option" where
  "owner_sets (O_Future h) = None"
| "owner_sets (O_Promise h) = h"
| "owner_sets (O_Task h p) = Some p"

record store =
  st_objs :: "nat \<rightharpoonup> owner"
  st_count :: "nat \<Rightarrow> nat"
  st_live :: "nat set"
  st_next :: nat

definition store_init :: store where
  "store_init = \<lparr>st_objs = (\<lambda>_. None), st_count = (\<lambda>_. 0), st_live = {}, st_next = 0\<rparr>"

text \<open>A copy of a pointer, the end of one, and \<open>std::make_shared\<close>.\<close>

definition acquire :: "nat \<Rightarrow> store \<Rightarrow> store" where
  "acquire m s = s\<lparr>st_count := (st_count s)(m := Suc (st_count s m))\<rparr>"

definition release :: "nat \<Rightarrow> store \<Rightarrow> store" where
  "release m s =
     (let c = st_count s m - 1
      in s\<lparr>st_count := (st_count s)(m := c), st_live := if c = 0 then st_live s - {m} else st_live s\<rparr>)"

definition make_state :: "store \<Rightarrow> nat \<times> store" where
  "make_state s =
     (let m = st_next s
      in (m, s\<lparr>st_count := (st_count s)(m := 1), st_live := insert m (st_live s), st_next := Suc m\<rparr>))"

definition acquire_all :: "nat list \<Rightarrow> store \<Rightarrow> store" where
  "acquire_all ms s = fold acquire ms s"

definition release_all :: "nat list \<Rightarrow> store \<Rightarrow> store" where
  "release_all ms s = fold release ms s"

definition put_owner :: "nat \<Rightarrow> owner option \<Rightarrow> store \<Rightarrow> store" where
  "put_owner x ob s = s\<lparr>st_objs := (st_objs s)(x := ob)\<rparr>"

section \<open>The operations\<close>

datatype store_op =
    New_Future nat
  | New_Promise nat
  | Get_Future dword nat nat
  | Move_Future nat nat
  | Move_Promise nat nat
  | Assign_Future nat nat
  | Assign_Promise nat nat
  | Call_Then nat nat nat
  | Destroy_Object nat

text \<open>
  The handles after a move assignment; the old pointer of the target is released after the new
  one is in place. A fresh object is always put where none is.
\<close>

definition store_assign :: "(handle \<Rightarrow> owner) \<Rightarrow> nat \<Rightarrow> nat \<Rightarrow> handle \<Rightarrow> handle \<Rightarrow> store \<Rightarrow> store" where
  "store_assign mk x y this other s =
     (case handle_move_assign (x = y) this other of
        (this', other') \<Rightarrow>
          if x = y then s
          else release_all (owner_refs (mk this)) (put_owner x (Some (mk this')) (put_owner y (Some (mk other')) s)))"

definition store_move :: "(handle \<Rightarrow> owner) \<Rightarrow> nat \<Rightarrow> nat \<Rightarrow> handle \<Rightarrow> store \<Rightarrow> store" where
  "store_move mk x y other s =
     (case handle_move other of
        (this', other') \<Rightarrow> put_owner x (Some (mk this')) (put_owner y (Some (mk other')) s))"

definition store_then :: "handle \<Rightarrow> nat \<Rightarrow> nat \<Rightarrow> store \<Rightarrow> store" where
  "store_then h y t s =
     (case make_state s of
        (p, s1) \<Rightarrow>
          let s2 = put_owner y (Some (O_Future (Some p))) (acquire p s1)
          in put_owner t (Some (O_Task h p)) (acquire_all (case h of None \<Rightarrow> [] | Some m \<Rightarrow> [m]) s2))"

fun store_step :: "store_op \<Rightarrow> store \<Rightarrow> store option" where
  "store_step (New_Future x) s =
     (if st_objs s x = None then Some (put_owner x (Some (O_Future None)) s) else None)"
| "store_step (New_Promise x) s =
     (if st_objs s x = None
      then case make_state s of (m, s') \<Rightarrow> Some (put_owner x (Some (O_Promise (Some m))) s')
      else None)"
| "store_step (Get_Future le x y) s =
     (case (st_objs s x, st_objs s y) of
        (Some (O_Promise h), None) \<Rightarrow>
          (case (promise_GetFuture le h :: (unit, handle) result) of
             Inl e \<Rightarrow> Some s
           | Inr h' \<Rightarrow> Some (put_owner y (Some (O_Future h')) (acquire_all (owner_refs (O_Future h')) s)))
      | _ \<Rightarrow> None)"
| "store_step (Move_Future x y) s =
     (case (st_objs s x, st_objs s y) of
        (None, Some (O_Future h)) \<Rightarrow> Some (store_move O_Future x y h s) | _ \<Rightarrow> None)"
| "store_step (Move_Promise x y) s =
     (case (st_objs s x, st_objs s y) of
        (None, Some (O_Promise h)) \<Rightarrow> Some (store_move O_Promise x y h s) | _ \<Rightarrow> None)"
| "store_step (Assign_Future x y) s =
     (case (st_objs s x, st_objs s y) of
        (Some (O_Future h), Some (O_Future k)) \<Rightarrow> Some (store_assign O_Future x y h k s) | _ \<Rightarrow> None)"
| "store_step (Assign_Promise x y) s =
     (case (st_objs s x, st_objs s y) of
        (Some (O_Promise h), Some (O_Promise k)) \<Rightarrow> Some (store_assign O_Promise x y h k s) | _ \<Rightarrow> None)"
| "store_step (Call_Then x y t) s =
     (case (st_objs s x, st_objs s y, st_objs s t) of
        (Some (O_Future h), None, None) \<Rightarrow> if y = t then None else Some (store_then h y t s) | _ \<Rightarrow> None)"
| "store_step (Destroy_Object x) s =
     (case st_objs s x of None \<Rightarrow> None | Some ob \<Rightarrow> Some (release_all (owner_refs ob) (put_owner x None s)))"

section \<open>Counting the references\<close>

definition refs :: "(nat \<rightharpoonup> owner) \<Rightarrow> nat \<Rightarrow> nat" where
  "refs objs m = (\<Sum>x\<in>dom objs. count_list (owner_refs (the (objs x))) m)"

lemma refs_new:
  assumes "finite (dom objs)" and "objs x = None"
  shows "refs (objs(x \<mapsto> ob)) m = count_list (owner_refs ob) m + refs objs m"
proof -
  have "x \<notin> dom objs" using assms(2) by auto
  then have "(\<Sum>y\<in>dom objs. count_list (owner_refs (the ((objs(x \<mapsto> ob)) y))) m) = refs objs m"
    unfolding refs_def by (intro sum.cong) auto
  with assms(1) \<open>x \<notin> dom objs\<close> show ?thesis by (simp add: refs_def)
qed

lemma refs_remove:
  assumes "finite (dom objs)" and "objs x = Some ob"
  shows "refs objs m = count_list (owner_refs ob) m + refs (objs(x := None)) m"
proof -
  have "objs = (objs(x := None))(x \<mapsto> ob)" using assms(2) by auto
  moreover have "refs ((objs(x := None))(x \<mapsto> ob)) m = count_list (owner_refs ob) m + refs (objs(x := None)) m"
    using assms(1) by (intro refs_new) auto
  ultimately show ?thesis by simp
qed

lemma refs_replace:
  assumes "finite (dom objs)" and "objs x = Some ob"
  shows "refs (objs(x \<mapsto> ob')) m + count_list (owner_refs ob) m = refs objs m + count_list (owner_refs ob') m"
  using refs_remove [OF assms, of m] refs_new [of "objs(x := None)" x ob' m] assms(1) by simp

lemma refs_ge:
  assumes "finite (dom objs)" and "objs x = Some ob"
  shows "count_list (owner_refs ob) m \<le> refs objs m"
  using refs_remove [OF assms] by simp

lemma refs_pos:
  assumes "0 < refs objs m"
  obtains x ob where "objs x = Some ob" "m \<in> set (owner_refs ob)"
proof -
  have "\<exists>x\<in>dom objs. count_list (owner_refs (the (objs x))) m \<noteq> 0"
    by (rule ccontr) (use assms in \<open>simp add: refs_def\<close>)
  then obtain x ob where "objs x = Some ob" "count_list (owner_refs ob) m \<noteq> 0" by auto
  then show ?thesis using that by (metis count_notin)
qed

text \<open>
  The counts say how many pointers there are, apart from \<open>ex\<close>, pointers that are held by nobody
  yet or not any more, and a state lives as long as its count is not zero.
\<close>

definition counted :: "(nat \<Rightarrow> nat) \<Rightarrow> store \<Rightarrow> bool" where
  "counted ex s \<longleftrightarrow> finite (dom (st_objs s)) \<and> (\<forall>m. st_count s m = refs (st_objs s) m + ex m) \<and>
     st_live s = {m. 0 < st_count s m} \<and> (\<forall>m\<ge>st_next s. st_count s m = 0)"

lemma countedD:
  assumes "counted ex s"
  shows "finite (dom (st_objs s))" and "st_count s m = refs (st_objs s) m + ex m"
    and "st_live s = {m. 0 < st_count s m}" and "st_next s \<le> m \<Longrightarrow> st_count s m = 0"
  using assms unfolding counted_def by blast+

lemma counted_acquire:
  assumes "counted ex s" and "m < st_next s" and "0 < st_count s m"
  shows "counted (ex(m := Suc (ex m))) (acquire m s)"
  using assms by (auto simp: counted_def acquire_def)

lemma counted_release:
  assumes "counted ex s" and "0 < ex m"
  shows "counted (ex(m := ex m - 1)) (release m s)"
  using assms by (auto simp: counted_def release_def Let_def)

lemma counted_release_all:
  "counted ex s \<Longrightarrow> (\<And>m. count_list ms m \<le> ex m) \<Longrightarrow> counted (\<lambda>m. ex m - count_list ms m) (release_all ms s)"
proof (induction ms arbitrary: ex s)
  case Nil
  then show ?case by (simp add: release_all_def)
next
  case (Cons a ms)
  have pos: "0 < ex a" using Cons.prems(2) [of a] by simp
  have le: "count_list ms m \<le> (ex(a := ex a - 1)) m" for m using Cons.prems(2) [of m] by (auto split: if_splits)
  have "(\<lambda>m. (ex(a := ex a - 1)) m - count_list ms m) = (\<lambda>m. ex m - count_list (a # ms) m)" by auto
  with Cons.IH [OF counted_release [OF Cons.prems(1) pos] le] show ?case by (simp add: release_all_def)
qed

lemma counted_put_new:
  assumes "counted ex s" and "st_objs s x = None" and "\<And>m. count_list (owner_refs ob) m \<le> ex m"
  shows "counted (\<lambda>m. ex m - count_list (owner_refs ob) m) (put_owner x (Some ob) s)"
  using assms refs_new [of "st_objs s" x ob] by (auto simp: counted_def put_owner_def)

lemma counted_put_replace:
  assumes "counted ex s" and "st_objs s x = Some ob" and "\<And>m. count_list (owner_refs ob') m \<le> ex m + count_list (owner_refs ob) m"
  shows "counted (\<lambda>m. ex m + count_list (owner_refs ob) m - count_list (owner_refs ob') m) (put_owner x (Some ob') s)"
proof -
  have eq: "refs ((st_objs s)(x \<mapsto> ob')) m + count_list (owner_refs ob) m = refs (st_objs s) m + count_list (owner_refs ob') m" for m
    using assms(1,2) by (intro refs_replace) (auto simp: counted_def)
  then have "refs (st_objs s) m + ex m = refs ((st_objs s)(x \<mapsto> ob')) m + (ex m + count_list (owner_refs ob) m - count_list (owner_refs ob') m)"
    for m
  proof -
    let ?a = "count_list (owner_refs ob) m" and ?b = "count_list (owner_refs ob') m"
    have "refs ((st_objs s)(x \<mapsto> ob')) m + ?a = refs (st_objs s) m + ?b" using eq .
    with assms(3) [of m] show ?thesis by arith
  qed
  then show ?thesis using assms(1) by (auto simp: counted_def put_owner_def)
qed

lemma counted_remove:
  assumes "counted ex s" and "st_objs s x = Some ob"
  shows "counted (\<lambda>m. ex m + count_list (owner_refs ob) m) (put_owner x None s)"
proof -
  have "refs (st_objs s) m = count_list (owner_refs ob) m + refs ((st_objs s)(x := None)) m" for m
    using assms by (intro refs_remove) (auto simp: counted_def)
  then show ?thesis using assms(1) by (auto simp: counted_def put_owner_def)
qed

lemma counted_make:
  assumes "counted ex s" and "make_state s = (m, s')"
  shows "counted (ex(m := Suc (ex m))) s'" and "m < st_next s'" and "0 < st_count s' m"
    and "st_objs s' = st_objs s" and "m = st_next s"
proof -
  have "st_count s (st_next s) = 0" "st_count s (st_next s) = refs (st_objs s) (st_next s) + ex (st_next s)"
    using assms(1) unfolding counted_def by blast+
  then show "counted (ex(m := Suc (ex m))) s'" using assms by (auto simp: counted_def make_state_def Let_def)
qed (use assms in \<open>auto simp: make_state_def Let_def\<close>)

section \<open>The invariant\<close>

definition osets :: "owner option \<Rightarrow> nat option" where
  "osets ob = Option.bind ob owner_sets"

lemma osets_simps [simp]: "osets None = None" "osets (Some ob) = owner_sets ob"
  by (simp_all add: osets_def)

definition store_inv :: "store \<Rightarrow> bool" where
  "store_inv s \<longleftrightarrow> counted (\<lambda>_. 0) s \<and> claims_unique osets (st_objs s)"

text \<open>The states that an object can still satisfy: a step adds only fresh ones.\<close>

definition setters :: "store \<Rightarrow> nat set" where
  "setters s = claims osets (st_objs s)"

definition store_kept :: "store \<Rightarrow> store \<Rightarrow> bool" where
  "store_kept s s' \<longleftrightarrow> store_inv s' \<and> setters s' \<subseteq> setters s \<union> {st_next s..} \<and> st_next s \<le> st_next s'"

lemma claims_put:
  "claims f (pcs(t := pc)) \<subseteq> claims f pcs \<union> {p. f pc = Some p}"
  by (auto simp: claims_def split: if_splits)

lemma claims_put_none: "f pc = None \<Longrightarrow> claims_unique f pcs \<Longrightarrow> claims_unique f (pcs(t := pc))"
  by (auto simp: claims_unique_def)

lemma claims_move:
  assumes "claims_unique f pcs" and "f a = None" and "f b = f (pcs y)" and "x \<noteq> y"
  shows "claims_unique f (pcs(y := a, x := b))" and "claims f (pcs(y := a, x := b)) \<subseteq> claims f pcs"
  using assms by (auto simp: claims_unique_def claims_def)

lemma owner_sets_refs: "owner_sets ob = Some m \<Longrightarrow> m \<in> set (owner_refs ob)"
  by (cases ob) auto

lemma counted_live:
  assumes "counted ex s" and "st_objs s x = Some ob" and "m \<in> set (owner_refs ob)"
  shows "m \<in> st_live s" and "0 < st_count s m" and "m < st_next s"
proof -
  have "count_list (owner_refs ob) m \<noteq> 0" using assms(3) by (simp add: count_list_0_iff)
  moreover have "count_list (owner_refs ob) m \<le> refs (st_objs s) m"
    by (rule refs_ge [OF countedD(1) [OF assms(1)] assms(2)])
  ultimately show pos: "0 < st_count s m" using countedD(2) [OF assms(1), of m] by simp
  then show "m \<in> st_live s" using countedD(3) [OF assms(1)] by simp
  show "m < st_next s" using countedD(4) [OF assms(1), of m] pos by (cases "m < st_next s") auto
qed

lemma setters_old: "store_inv s \<Longrightarrow> m \<in> setters s \<Longrightarrow> m < st_next s"
  using counted_live(3) owner_sets_refs
  by (force simp: store_inv_def setters_def claims_def osets_def bind_eq_Some_conv)

lemma counted_cong: "counted ex s \<Longrightarrow> (\<And>m. ex m = ex' m) \<Longrightarrow> counted ex' s"
proof -
  assume "counted ex s" and "\<And>m. ex m = ex' m"
  then have "ex = ex'" by auto
  with \<open>counted ex s\<close> show ?thesis by simp
qed

lemma counted_same:
  assumes "counted ex s" and "st_objs s x = Some ob" and "owner_refs ob' = owner_refs ob"
  shows "counted ex (put_owner x (Some ob') s)"
  using counted_put_replace [OF assms(1,2), of ob'] assms(3) by (simp add: counted_cong)

lemma put_owner_simps [simp]:
  "st_objs (put_owner x ob s) = (st_objs s)(x := ob)"
  "st_next (put_owner x ob s) = st_next s"
  "st_count (put_owner x ob s) = st_count s"
  by (simp_all add: put_owner_def)

lemma release_frame [simp]: "st_objs (release m s) = st_objs s" "st_next (release m s) = st_next s"
  by (simp_all add: release_def Let_def)

lemma release_all_frame [simp]: "st_objs (release_all ms s) = st_objs s" "st_next (release_all ms s) = st_next s"
  by (induction ms arbitrary: s) (simp_all add: release_all_def)

lemma acquire_frame [simp]: "st_objs (acquire m s) = st_objs s" "st_next (acquire m s) = st_next s"
  by (simp_all add: acquire_def)

lemma kept_future:
  assumes inv: "store_inv s" and "st_objs s x = None"
  shows "store_kept s (put_owner x (Some (O_Future None)) s)"
proof -
  have "counted (\<lambda>_. 0) (put_owner x (Some (O_Future None)) s)"
    using counted_put_new [of "\<lambda>_. 0" s x "O_Future None"] assms by (simp add: store_inv_def)
  with inv show ?thesis
    using claims_put [of osets "st_objs s" x "Some (O_Future None)"]
    by (auto simp: store_kept_def store_inv_def setters_def intro!: claims_put_none)
qed

lemma kept_promise:
  assumes inv: "store_inv s" and "st_objs s x = None" and "make_state s = (m, s1)"
  shows "store_kept s (put_owner x (Some (O_Promise (Some m))) s1)"
proof -
  have C: "counted ((\<lambda>_. 0)(m := 1)) s1" "st_objs s1 = st_objs s" "m = st_next s"
    using counted_make [of "\<lambda>_. 0" s m s1] assms by (auto simp: store_inv_def)
  have "counted (\<lambda>_. 0) (put_owner x (Some (O_Promise (Some m))) s1)"
    by (rule counted_cong [OF counted_put_new [OF C(1)]]) (use C assms in auto)
  moreover have "m \<notin> claims osets (st_objs s)" using setters_old [OF inv, of m] C(3) by (auto simp: setters_def)
  moreover have "st_next s \<le> st_next s1" using assms(3) by (auto simp: make_state_def Let_def)
  ultimately show ?thesis
    using inv C claims_put [of osets "st_objs s" x "Some (O_Promise (Some m))"]
    by (auto simp: store_kept_def store_inv_def setters_def intro!: claims_unique_add)
qed

lemma kept_get_future:
  assumes inv: "store_inv s" and "st_objs s x = Some (O_Promise (Some m))" and "st_objs s y = None"
  shows "store_kept s (put_owner y (Some (O_Future (Some m))) (acquire m s))"
proof -
  have "counted ((\<lambda>_. 0)(m := 1)) (acquire m s)"
    using counted_acquire [of "\<lambda>_. 0" s m] counted_live(2,3) [of "\<lambda>_. 0" s x _ m] assms by (simp add: store_inv_def)
  from counted_put_new [OF this, of y "O_Future (Some m)"] assms(3)
  have "counted (\<lambda>_. 0) (put_owner y (Some (O_Future (Some m))) (acquire m s))"
    by (auto elim!: counted_cong)
  with inv show ?thesis
    using claims_put [of osets "st_objs s" y "Some (O_Future (Some m))"]
    by (auto simp: store_kept_def store_inv_def setters_def intro!: claims_put_none)
qed

lemma kept_destroy:
  assumes inv: "store_inv s" and "st_objs s x = Some ob"
  shows "store_kept s (release_all (owner_refs ob) (put_owner x None s))"
proof -
  have "counted (\<lambda>m. 0 + count_list (owner_refs ob) m) (put_owner x None s)"
    using assms by (intro counted_remove) (auto simp: store_inv_def)
  from counted_release_all [OF this, of "owner_refs ob"]
  have "counted (\<lambda>_. 0) (release_all (owner_refs ob) (put_owner x None s))" by simp
  with inv show ?thesis
    using claims_put [of osets "st_objs s" x None]
    by (auto simp: store_kept_def store_inv_def setters_def intro!: claims_put_none)
qed

lemma kept_move:
  assumes inv: "store_inv s" and "st_objs s x = None" and "st_objs s y = Some (mk h)" and mk: "mk = O_Future \<or> mk = O_Promise"
  shows "store_kept s (store_move mk x y h s)"
proof -
  have xy: "x \<noteq> y" using assms by auto
  have "counted (\<lambda>m. 0 + count_list (owner_refs (mk h)) m - count_list (owner_refs (mk None)) m) (put_owner y (Some (mk None)) s)"
    by (rule counted_put_replace) (use assms in \<open>auto simp: store_inv_def\<close>)
  then have "counted (\<lambda>m. count_list (owner_refs (mk h)) m) (put_owner y (Some (mk None)) s)" using mk by auto
  from counted_put_new [OF this, of x "mk h"]
  have "counted (\<lambda>_. 0) (store_move mk x y h s)" using assms(2) xy by (simp add: store_move_def handle_move_def)
  moreover have "osets (Some (mk None)) = None" "osets (Some (mk h)) = osets (st_objs s y)" using mk assms(3) by auto
  ultimately show ?thesis
    using claims_move [OF _ _ _ xy, of osets "st_objs s" "Some (mk None)" "Some (mk h)"] inv
    by (auto simp: store_kept_def store_inv_def setters_def store_move_def handle_move_def)
qed

lemma kept_assign:
  assumes inv: "store_inv s" and obs: "st_objs s x = Some (mk h)" "st_objs s y = Some (mk k)" and mk: "mk = O_Future \<or> mk = O_Promise"
  shows "store_kept s (store_assign mk x y h k s)"
proof (cases "x = y")
  case True
  with inv show ?thesis by (simp add: store_assign_def handle_move_assign_def store_kept_def)
next
  case False
  let ?s1 = "put_owner y (Some (mk None)) s" and ?r = "\<lambda>h m. count_list (owner_refs (mk h)) m"
  have "counted (\<lambda>m. 0 + ?r k m - ?r None m) ?s1"
    by (rule counted_put_replace) (use assms in \<open>auto simp: store_inv_def\<close>)
  then have "counted (?r k) ?s1" using mk by auto
  from counted_put_replace [OF this, of x "mk h" "mk k"]
  have C: "counted (?r h) (put_owner x (Some (mk k)) ?s1)" using obs False by simp
  have "counted (\<lambda>m. ?r h m - ?r h m) (release_all (owner_refs (mk h)) (put_owner x (Some (mk k)) ?s1))"
    by (rule counted_release_all [OF C]) simp
  then have "counted (\<lambda>_. 0) (store_assign mk x y h k s)"
    using False by (simp add: store_assign_def handle_move_assign_def)
  moreover have "osets (Some (mk None)) = None" "osets (Some (mk k)) = osets (st_objs s y)" using mk obs by auto
  ultimately show ?thesis
    using claims_move [OF _ _ _ False, of osets "st_objs s" "Some (mk None)" "Some (mk k)"] inv False
    by (auto simp: store_kept_def store_inv_def setters_def store_assign_def handle_move_assign_def)
qed

lemma kept_then:
  assumes inv: "store_inv s" and obs: "st_objs s x = Some (O_Future h)" "st_objs s y = None" "st_objs s t = None" "y \<noteq> t"
  shows "store_kept s (store_then h y t s)"
proof -
  obtain p s1 where mk: "make_state s = (p, s1)" by (cases "make_state s")
  let ?hs = "case h of None \<Rightarrow> [] | Some m \<Rightarrow> [m]" and ?s2 = "put_owner y (Some (O_Future (Some p))) (acquire p s1)"
  have C1: "counted ((\<lambda>_. 0)(p := 1)) s1" "p < st_next s1" "0 < st_count s1 p" "st_objs s1 = st_objs s" "p = st_next s"
    using counted_make [of "\<lambda>_. 0" s p s1] inv mk by (auto simp: store_inv_def)
  have C: "counted ((\<lambda>_. 0)(p := 2)) (acquire p s1)"
    using counted_acquire [OF C1(1-3)] by (auto elim!: counted_cong)
  have C2: "counted ((\<lambda>_. 0)(p := 1)) ?s2"
    by (rule counted_cong [OF counted_put_new [OF C]]) (use C1(4) obs in auto)
  have "counted (\<lambda>m. count_list (?hs @ [p]) m) (acquire_all ?hs ?s2)"
  proof (cases h)
    case None
    with C2 show ?thesis by (auto simp: acquire_all_def elim!: counted_cong)
  next
    case (Some m)
    have "st_objs ?s2 x = Some (O_Future (Some m))" using obs C1(4) Some by auto
    then have "0 < st_count ?s2 m" "m < st_next ?s2" using counted_live(2,3) [OF C2, of x _ m] by auto
    from counted_acquire [OF C2 this(2,1)] Some show ?thesis by (auto simp: acquire_all_def elim!: counted_cong)
  qed
  from counted_put_new [OF this, of t "O_Task h p"] obs C1(4)
  have "counted (\<lambda>_. 0) (store_then h y t s)"
    by (cases h) (auto simp: store_then_def mk Let_def acquire_all_def elim!: counted_cong)
  moreover have objs: "st_objs (store_then h y t s) = (st_objs s)(y \<mapsto> O_Future (Some p), t \<mapsto> O_Task h p)"
    and nxt: "st_next s \<le> st_next (store_then h y t s)"
    using mk by (cases h; auto simp: store_then_def acquire_all_def make_state_def Let_def)+
  moreover have "p \<notin> claims osets (st_objs s)" using setters_old [OF inv, of p] C1(5) by (auto simp: setters_def)
  moreover have same: "claims osets ((st_objs s)(y \<mapsto> O_Future (Some p))) = claims osets (st_objs s)"
    "claims_unique osets ((st_objs s)(y \<mapsto> O_Future (Some p)))"
    using claims_same [of osets "Some (O_Future (Some p))" "st_objs s" y] obs inv by (auto simp: store_inv_def)
  ultimately show ?thesis
    using claims_put [of osets "(st_objs s)(y \<mapsto> O_Future (Some p))" t "Some (O_Task h p)"] C1(5)
    by (auto simp: store_kept_def store_inv_def setters_def intro!: claims_unique_add)
qed

lemma store_step_kept:
  assumes inv: "store_inv s" and "store_step l s = Some s'"
  shows "store_kept s s'"
proof -
  have "store_kept s s" using inv by (simp add: store_kept_def)
  then show ?thesis
    using assms kept_future [OF inv] kept_promise [OF inv] kept_get_future [OF inv] kept_move [OF inv, of _ _ O_Future]
      kept_move [OF inv, of _ _ O_Promise] kept_assign [OF inv, of _ O_Future] kept_assign [OF inv, of _ O_Promise]
      kept_then [OF inv] kept_destroy [OF inv]
    by (cases l) (auto simp: promise_GetFuture_def acquire_all_def split: if_splits option.splits owner.splits prod.splits)
qed

interpretation stores: inductive_invariant store_step store_init store_inv
proof
  show "store_inv store_init"
    by (simp add: store_inv_def store_init_def counted_def refs_def claims_unique_def)
qed (use store_step_kept in \<open>auto simp: store_kept_def\<close>)

section \<open>What the counts promise\<close>

lemma counted_live_iff:
  assumes "counted (\<lambda>_. 0) s"
  shows "st_live s = (\<Union>ob\<in>ran (st_objs s). set (owner_refs ob))"
proof (rule equalityI; rule subsetI)
  fix m assume "m \<in> st_live s"
  then have "0 < refs (st_objs s) m" using countedD(2,3) [OF assms] by simp
  then obtain x ob where "st_objs s x = Some ob" "m \<in> set (owner_refs ob)" by (rule refs_pos)
  then show "m \<in> (\<Union>ob\<in>ran (st_objs s). set (owner_refs ob))" by (auto intro: ranI)
next
  fix m assume "m \<in> (\<Union>ob\<in>ran (st_objs s). set (owner_refs ob))"
  then show "m \<in> st_live s" using counted_live(1) [OF assms] by (auto simp: ran_def)
qed

lemma setters_reach:
  "reach store_step s s' \<Longrightarrow> store_inv s \<Longrightarrow> setters s' \<subseteq> setters s \<union> {st_next s..} \<and> st_next s \<le> st_next s'"
proof (induction rule: reach.induct)
  case (reach_step s1 l s2)
  have "store_kept s1 s2" using store_step_kept [OF stores.inv_reach_from reach_step.hyps(2)] reach_step by blast
  then show ?case using reach_step by (fastforce simp: store_kept_def)
qed simp

text \<open>
  C19. The shared states of futures and promises, under every sequence of constructors, moves,
  assignments, calls of \<open>GetFuture\<close> and \<open>Then\<close>, and destructors: exactly the states that an object or a
  task of \<open>Then\<close> refers to exist, so none is used after its end and none leaks; at most one object
  can satisfy a state; and a state that no object can satisfy any more, because its promise was
  destroyed, is never satisfied: its futures are not told.
\<close>

theorem shared_states_owned:
  assumes "reach store_step store_init s"
  shows "st_live s = (\<Union>ob\<in>ran (st_objs s). set (owner_refs ob)) \<and> claims_unique osets (st_objs s) \<and>
    (\<forall>m < st_next s. m \<notin> setters s \<longrightarrow> (\<forall>s'. reach store_step s s' \<longrightarrow> m \<notin> setters s'))"
proof -
  have inv: "store_inv s" using assms by (rule stores.inv_reach)
  then show ?thesis using counted_live_iff setters_reach [OF _ inv] by (fastforce simp: store_inv_def)
qed

lemma store_demo:
  "\<exists>s. run store_step [New_Promise 0, Get_Future 0 0 1, Call_Then 1 2 3, Destroy_Object 0] store_init = Some s \<and>
     st_next s = 2 \<and> st_objs s 0 = None \<and> st_objs s 1 = Some (O_Future (Some 0)) \<and>
     st_objs s 2 = Some (O_Future (Some 1)) \<and> st_objs s 3 = Some (O_Task (Some 0) 1) \<and> (\<forall>x>3. st_objs s x = None) \<and>
     st_live s = {0, 1}"
  by (auto simp: store_init_def make_state_def put_owner_def promise_GetFuture_def acquire_all_def acquire_def
      release_all_def release_def store_then_def Let_def)

lemma shared_states_owned_witness:
  "\<exists>s. reach store_step store_init s \<and> 0 \<in> st_live s \<and> (\<forall>s'. reach store_step s s' \<longrightarrow> 0 \<notin> setters s')"
proof -
  obtain s where s: "run store_step [New_Promise 0, Get_Future 0 0 1, Call_Then 1 2 3, Destroy_Object 0] store_init = Some s"
    "st_next s = 2" "st_objs s 0 = None" "st_objs s 1 = Some (O_Future (Some 0))" "st_objs s 2 = Some (O_Future (Some 1))"
    "st_objs s 3 = Some (O_Task (Some 0) 1)" "\<forall>x>3. st_objs s x = None" "st_live s = {0, 1}"
    using store_demo by blast
  have "owner_sets ob \<noteq> Some 0" if "st_objs s x = Some ob" for x ob
  proof -
    have "\<not> 3 < x" "x \<noteq> 0" using that s(3,7) by (auto intro!: gr0I)
    then have "x = 1 \<or> x = 2 \<or> x = 3" by arith
    then show ?thesis using that s(4-6) by auto
  qed
  then have "osets (st_objs s x) \<noteq> Some 0" for x by (cases "st_objs s x") auto
  then have "0 \<notin> setters s" by (simp add: setters_def claims_def)
  moreover have "0 < st_next s" "0 \<in> st_live s" using s(2,8) by simp_all
  moreover note R = run_reach [OF s(1)]
  ultimately show ?thesis using shared_states_owned [OF R] by blast
qed

end
