(* ===== verification/Monitor_View.thy ===== *)
theory Monitor_View
  imports Monitor
begin

text \<open>
  Refinement between two programs of threads: one program leaves out statements of the other
  that have no effect for it. Every run of the shorter program is then a run of the longer
  one, seen through a view of the program points.
\<close>

section \<open>The contract\<close>

text \<open>An element of a filtered list, with what the original list has before it.\<close>

lemma filter_prefix:
  "i < length (filter P xs) \<Longrightarrow>
   \<exists>j < length xs. filter P xs ! i = xs ! j \<and> take i (filter P xs) = filter P (take j xs)"
proof (induction xs rule: rev_induct)
  case (snoc x xs)
  show ?case
  proof (cases "i < length (filter P xs)")
    case True
    with snoc.IH obtain j where "j < length xs" "filter P xs ! i = xs ! j"
      "take i (filter P xs) = filter P (take j xs)" by blast
    with True show ?thesis by (intro exI [of _ j]) (auto simp: nth_append)
  next
    case False
    with snoc.prems have "P x" "i = length (filter P xs)" by (auto split: if_splits)
    then show ?thesis by (intro exI [of _ "length xs"]) auto
  qed
qed simp


text \<open>
  The points at which a thread may go on, asleep or waiting to enter included; \<open>hidden\<close> are
  the statements that the shorter program leaves out, and no thread rests at them.
\<close>

definition settled :: "('k \<Rightarrow> bool) \<Rightarrow> ('m, 'k) thread_pc \<Rightarrow> bool" where
  "settled hidden pc \<longleftrightarrow> (\<forall>k \<in> set2_thread_pc pc. \<not> hidden k)"

lemma settled_simps [simp]:
  "settled hidden T_Idle" "settled hidden (T_At k) \<longleftrightarrow> \<not> hidden k"
  "settled hidden (T_Entering m k) \<longleftrightarrow> \<not> hidden k" "settled hidden (T_Ended k) \<longleftrightarrow> \<not> hidden k"
  "settled hidden (T_Asleep m ms f) \<longleftrightarrow> (\<forall>r. \<not> hidden (f r))"
  by (auto simp: settled_def)

definition state_view ::
  "('k \<Rightarrow> 'k) \<Rightarrow> ('k \<Rightarrow> bool) \<Rightarrow> ('c, 'v, 'm, 'k, 's) mon \<Rightarrow> ('c, 'v, 'm, 'k, 's) mon" where
  "state_view view hidden s = s\<lparr>mon_pcs := map_thread_pc id view \<circ> mon_pcs s,
     mon_log := map (apsnd view) (filter (\<lambda>(t, k). \<not> hidden k) (mon_log s))\<rparr>"

lemma state_view_simps [simp]:
  "mon_cs (state_view view hidden s) = mon_cs s" "mon_cv (state_view view hidden s) = mon_cv s"
  "mon_data (state_view view hidden s) = mon_data s"
  "mon_pcs (state_view view hidden s) t = map_thread_pc id view (mon_pcs s t)"
  "mon_log (state_view view hidden s) = map (apsnd view) (filter (\<lambda>(t, k). \<not> hidden k) (mon_log s))"
  by (simp_all add: state_view_def)

lemma pc_after_map [simp]: "pc_after (map_instr id view i) = map_thread_pc id view (pc_after i)"
  by (cases i) simp_all

lemma instr_effect_map [simp]: "instr_effect api t (map_instr id view i) s = instr_effect api t i s"
  by (cases i) simp_all

text \<open>A statement in the history of the view, and the history before it.\<close>

lemma state_view_log:
  assumes "i < length (mon_log (state_view view hidden s))"
  obtains j t k where "j < length (mon_log s)" "mon_log s ! j = (t, k)" "\<not> hidden k"
    "mon_log (state_view view hidden s) ! i = (t, view k)"
    "take i (mon_log (state_view view hidden s)) = map (apsnd view) (filter (\<lambda>(t, k). \<not> hidden k) (take j (mon_log s)))"
proof -
  from assms have i: "i < length (filter (\<lambda>(t, k). \<not> hidden k) (mon_log s))" by simp
  then obtain j where j: "j < length (mon_log s)"
    "filter (\<lambda>(t, k). \<not> hidden k) (mon_log s) ! i = mon_log s ! j"
    "take i (filter (\<lambda>(t, k). \<not> hidden k) (mon_log s)) = filter (\<lambda>(t, k). \<not> hidden k) (take j (mon_log s))"
    using filter_prefix [OF i] by blast
  obtain t k where tk: "mon_log s ! j = (t, k)" by fastforce
  then have "\<not> hidden k" using nth_mem [OF i] j(2) by auto
  then show ?thesis using j tk i by (intro that [OF j(1) tk]) (simp_all add: take_map)
qed

text \<open>
  A statement of the longer program has the effect of the one the shorter program has at the
  view of its point, either at once or together with a hidden statement after it.
\<close>

definition same_statement ::
  "('k \<Rightarrow> 'k) \<Rightarrow> ('k \<Rightarrow> bool) \<Rightarrow> ('s \<times> ('m, 'k) instr) \<Rightarrow> ('s \<times> ('m, 'k) instr) \<Rightarrow> bool" where
  "same_statement view hidden x y \<longleftrightarrow>
     y = map_prod id (map_instr id view) x \<and> settled hidden (pc_after (snd x))"

abbreviation one_or_two ::
  "('k \<Rightarrow> 'k) \<Rightarrow> ('k \<Rightarrow> bool) \<Rightarrow> ('k \<Rightarrow> 's \<Rightarrow> 's \<times> ('m, 'k) instr) \<Rightarrow> 'k \<Rightarrow> 's \<Rightarrow> 's \<times> ('m, 'k) instr \<Rightarrow> bool" where
  "one_or_two view hidden prog k s y \<equiv> same_statement view hidden (prog k s) y \<or>
     (\<exists>k'. prog k s = (s, I_Goto k') \<and> hidden k' \<and> same_statement view hidden (prog k' s) y)"

text \<open>Programs that run another program's points under a constructor \<open>C\<close> of their own.\<close>

lemma same_statement_lift:
  assumes "same_statement view1 hidden1 x y" and "\<And>k. view (C k) = C (view1 k)" and "\<And>k. hidden (C k) = hidden1 k"
  shows "same_statement view hidden (apsnd (map_instr id C) x) (apsnd (map_instr id C) y)"
proof (cases x)
  case (Pair d i)
  with assms show ?thesis
    by (cases i) (auto simp: same_statement_def fun_eq_iff)
qed

lemma one_or_two_lift:
  assumes "one_or_two view1 hidden1 prog1 k s y"
    and "\<And>k. view (C k) = C (view1 k)" and "\<And>k. hidden (C k) = hidden1 k"
    and "\<And>j. j = k \<or> hidden1 j \<Longrightarrow> prog (C j) s = apsnd (map_instr id C) (prog1 j s)"
  shows "one_or_two view hidden prog (C k) s (apsnd (map_instr id C) y)"
  using assms(1)
proof (elim disjE exE conjE)
  assume "same_statement view1 hidden1 (prog1 k s) y"
  with assms(2-4) show ?thesis by (simp add: same_statement_lift)
next
  fix k'
  assume "prog1 k s = (s, I_Goto k')" "hidden1 k'" "same_statement view1 hidden1 (prog1 k' s) y"
  with assms(2-4) have "prog (C k) s = (s, I_Goto (C k'))" "hidden (C k')"
    "same_statement view hidden (prog (C k') s) (apsnd (map_instr id C) y)"
    by (simp_all add: same_statement_lift)
  then show ?thesis by blast
qed

locale program_view =
  fixes start :: "'k \<Rightarrow> bool"
    and prog :: "'k \<Rightarrow> 's \<Rightarrow> 's \<times> ('m, 'k) instr"
    and short :: "'k \<Rightarrow> 's \<Rightarrow> 's \<times> ('m, 'k) instr"
    and view :: "'k \<Rightarrow> 'k"
    and hidden :: "'k \<Rightarrow> bool"
  assumes start_view: "start k \<Longrightarrow> view k = k \<and> \<not> hidden k"
    and same: "\<not> hidden k \<Longrightarrow> one_or_two view hidden prog k d (short (view k) d)"
begin

definition all_settled :: "('c, 'v, 'm, 'k, 's) mon \<Rightarrow> bool" where
  "all_settled s \<longleftrightarrow> (\<forall>t. settled hidden (mon_pcs s t))"

text \<open>One statement of the shorter program is one or two of the longer one.\<close>

lemma same_run:
  assumes pc: "mon_pcs s t = T_At k" and all: "all_settled s"
    and same: "same_statement view hidden (prog k (mon_data s)) (short (view k) (mon_data s))"
  shows "\<exists>s'. mon_step api start prog (M_Run t) s = Some s' \<and> all_settled s' \<and>
    mon_step api start short (M_Run t) (state_view view hidden s) = Some (state_view view hidden s')"
proof -
  obtain d i where di: "prog k (mon_data s) = (d, i)" by fastforce
  define s' where "s' = (instr_effect api t i s)\<lparr>mon_data := d,
    mon_pcs := (mon_pcs s)(t := pc_after i), mon_log := mon_log s @ [(t, k)]\<rparr>"
  have "short (view k) (mon_data s) = (d, map_instr id view i)" "settled hidden (pc_after i)"
    using same di by (simp_all add: same_statement_def)
  moreover have "\<not> hidden k" using all pc unfolding all_settled_def by (metis settled_simps(2))
  moreover have "instr_effect api t i (state_view view hidden s) = state_view view hidden (instr_effect api t i s)"
    by (cases i) (simp_all add: state_view_def)
  ultimately have "mon_step api start short (M_Run t) (state_view view hidden s) = Some (state_view view hidden s')"
    using pc by (cases i) (simp_all add: s'_def state_view_def fun_eq_iff)
  moreover have "all_settled s'"
    using all \<open>settled hidden (pc_after i)\<close> by (cases i) (simp_all add: s'_def all_settled_def)
  moreover have "mon_step api start prog (M_Run t) s = Some s'" using pc di by (simp add: s'_def)
  ultimately show ?thesis by blast
qed

text \<open>A hidden statement is not seen.\<close>

lemma hidden_run:
  assumes pc: "mon_pcs s t = T_At k" and all: "all_settled s"
    and k': "prog k (mon_data s) = (mon_data s, I_Goto k')" "hidden k'"
    and same: "same_statement view hidden (prog k' (mon_data s)) (short (view k) (mon_data s))"
  shows "\<exists>s'. run (mon_step api start prog) [M_Run t, M_Run t] s = Some s' \<and> all_settled s' \<and>
    mon_step api start short (M_Run t) (state_view view hidden s) = Some (state_view view hidden s')"
proof -
  obtain d i where di: "prog k' (mon_data s) = (d, i)" by fastforce
  define s' where "s' = (instr_effect api t i s)\<lparr>mon_data := d,
    mon_pcs := (mon_pcs s)(t := pc_after i), mon_log := mon_log s @ [(t, k), (t, k')]\<rparr>"
  have "short (view k) (mon_data s) = (d, map_instr id view i)" "settled hidden (pc_after i)"
    using same di by (simp_all add: same_statement_def)
  moreover have "\<not> hidden k" using all pc unfolding all_settled_def by (metis settled_simps(2))
  ultimately have "mon_step api start short (M_Run t) (state_view view hidden s) = Some (state_view view hidden s')"
    using pc k'(2) by (cases i) (simp_all add: s'_def state_view_def fun_eq_iff)
  moreover have "all_settled s'"
    using all \<open>settled hidden (pc_after i)\<close> by (cases i) (simp_all add: s'_def all_settled_def)
  moreover have "run (mon_step api start prog) [M_Run t, M_Run t] s = Some s'"
    using pc k'(1) di by (cases i) (simp_all add: s'_def)
  ultimately show ?thesis by blast
qed

lemma view_run:
  assumes "all_settled s" and "mon_step api start short (M_Run t) (state_view view hidden s) = Some u"
  shows "\<exists>ls s'. run (mon_step api start prog) ls s = Some s' \<and> all_settled s' \<and> u = state_view view hidden s'"
proof -
  obtain k where pc: "mon_pcs s t = T_At k"
    using assms(2) by (cases "mon_pcs s t") (simp_all split: thread_pc.splits)
  have "\<not> hidden k" using assms(1) pc unfolding all_settled_def by (metis settled_simps(2))
  then consider "same_statement view hidden (prog k (mon_data s)) (short (view k) (mon_data s))"
    | k' where "prog k (mon_data s) = (mon_data s, I_Goto k')" "hidden k'"
      "same_statement view hidden (prog k' (mon_data s)) (short (view k) (mon_data s))"
    using same by blast
  then show ?thesis
  proof cases
    case 1
    from same_run [OF pc assms(1) this, of api] obtain s' where
      s': "mon_step api start prog (M_Run t) s = Some s'" "all_settled s'" "u = state_view view hidden s'"
      using assms(2) by (metis option.inject)
    have "run (mon_step api start prog) [M_Run t] s = Some s'" using s'(1) by (simp only: run.simps option.case)
    with s' show ?thesis by blast
  next
    case 2
    from hidden_run [OF pc assms(1) this, of api] assms(2) show ?thesis by (metis option.inject)
  qed
qed

lemma view_step:
  assumes "all_settled s" and step: "mon_step api start short l (state_view view hidden s) = Some u"
  shows "\<exists>ls s'. run (mon_step api start prog) ls s = Some s' \<and> all_settled s' \<and> u = state_view view hidden s'"
proof -
  have one: ?thesis if "mon_step api start prog l s = Some s'" "all_settled s'" "u = state_view view hidden s'" for s'
  proof -
    have "run (mon_step api start prog) [l] s = Some s'" using that(1) by (simp only: run.simps option.case)
    with that(2,3) show ?thesis by blast
  qed
  show ?thesis
  proof (cases l)
    case (M_Run t)
    with view_run [OF assms(1)] step show ?thesis by blast
  next
    case (M_Call t k)
    then have "start k" "mon_pcs s t = T_Idle \<or> (\<exists>k'. mon_pcs s t = T_Ended k')"
      using step by (cases "mon_pcs s t"; simp split: if_splits)+
    moreover have "u = state_view view hidden (s\<lparr>mon_pcs := (mon_pcs s)(t := T_At k)\<rparr>)"
      using step M_Call start_view [of k]
      by (auto simp: state_view_def fun_eq_iff split: thread_pc.splits if_splits)
    moreover have "all_settled (s\<lparr>mon_pcs := (mon_pcs s)(t := T_At k)\<rparr>)"
      using assms(1) start_view [of k] \<open>start k\<close> by (simp add: all_settled_def)
    ultimately show ?thesis using M_Call by (intro one) (auto)
  next
    case (M_Enter t)
    then obtain m k c where "mon_pcs s t = T_Entering m k" "scoped_lock api t (mon_cs s m) = Some c"
      using step by (cases "mon_pcs s t") (auto split: thread_pc.splits option.splits)
    moreover from this have "u = state_view view hidden
        (s\<lparr>mon_cs := (mon_cs s)(m := c), mon_pcs := (mon_pcs s)(t := T_At k)\<rparr>)"
      using step M_Enter by (auto simp: state_view_def fun_eq_iff)
    moreover have "settled hidden (mon_pcs s t)" using assms(1) by (simp add: all_settled_def)
    ultimately show ?thesis using M_Enter assms(1) by (intro one) (auto simp: all_settled_def)
  next
    case (M_Woken t r)
    then obtain m ms f where "mon_pcs s t = T_Asleep m ms f" "api_returns api ms r"
      using step by (cases "mon_pcs s t") (auto split: thread_pc.splits if_splits)
    moreover from this have "u = state_view view hidden
        (s\<lparr>mon_cv := (mon_cv s)(m := api_awake api t (mon_cv s m)),
           mon_pcs := (mon_pcs s)(t := T_Entering m (f r))\<rparr>)"
      using step M_Woken by (auto simp: state_view_def fun_eq_iff)
    moreover have "settled hidden (mon_pcs s t)" using assms(1) by (simp add: all_settled_def)
    ultimately show ?thesis using M_Woken assms(1) by (intro one) (auto simp: all_settled_def)
  qed
qed

text \<open>Every reachable state of the shorter program is the view of one of the longer program.\<close>

lemma view_reach:
  fixes u :: "('c, 'v, 'm, 'k, 's) mon"
  assumes "reach (mon_step api start short) (mon_init api s0) u"
  shows "\<exists>s. reach (mon_step api start prog) (mon_init api s0) s \<and> u = state_view view hidden s"
proof -
  have "\<exists>s. reach (mon_step api start prog) (mon_init api s0) s \<and> all_settled s \<and> u = state_view view hidden s"
    using assms
  proof (induction rule: reach.induct)
    case reach_init
    have "all_settled (mon_init api s0 :: ('c, 'v, 'm, 'k, 's) mon)"
      "state_view view hidden (mon_init api s0) = (mon_init api s0 :: ('c, 'v, 'm, 'k, 's) mon)"
      by (simp_all add: all_settled_def state_view_def mon_init_def fun_eq_iff)
    then show ?case by (metis reach.reach_init)
  next
    case (reach_step v l u)
    then obtain s where s: "reach (mon_step api start prog) (mon_init api s0) s" "all_settled s"
      "v = state_view view hidden s" by blast
    with view_step [OF s(2)] reach_step.hyps(2) obtain ls s' where
      "run (mon_step api start prog) ls s = Some s'" "all_settled s'" "u = state_view view hidden s'"
      by blast
    with s(1) show ?case by (blast intro: run_reach_from)
  qed
  then show ?thesis by blast
qed

end

end
