(* ===== verification/Future_Void.thy ===== *)
theory Future_Void
  imports Future_Promise Monitor_View
begin

text \<open>
  \<open>Future<void>\<close> and \<open>Promise<void>\<close> of \<open>src/src/ezthread/future.cpp\<close>: the specialisations have their own
  methods, without the statements that read and write a value. They share the program points of
  theory \<open>Future_Promise\<close>, at the type \<open>unit\<close>, and are shown to behave like the template.
\<close>

section \<open>The methods\<close>

fun void_get_prog :: "(dword \<Rightarrow> string) \<Rightarrow> ('x, unit) get_pc \<Rightarrow> ('x, unit) futures \<Rightarrow> (nat, ('x, unit) get_pc) instr" where
  "void_get_prog fmt (F_Get_Call le h) s =
     (case h of
        None \<Rightarrow> I_Goto (F_End None Op_Get (fut_no_state le))
      | Some m \<Rightarrow> I_Enter m (F_Get_Test m))"
| "void_get_prog fmt (F_Get_Test m) s =
     (if \<not> sh_ready (fs_states s m) then I_Sleep m INFINITE (F_Get_Woken m) else I_Goto (F_Get_Exc m))"
| "void_get_prog fmt (F_Get_Woken m r) s =
     (case cv_Wait fmt r of
        Inl e \<Rightarrow> I_Goto (F_Unlock m Op_Get (FR_Throw e))
      | Inr u \<Rightarrow> I_Goto (F_Get_Test m))"
| "void_get_prog fmt (F_Get_Exc m) s =
     (if sh_hasException (fs_states s m) then I_Goto (F_Unlock m Op_Get (rethrown (fs_states s m)))
      else I_Goto (F_Unlock m Op_Get FR_Void))"
| "void_get_prog fmt (F_Try_Call le h ms) s =
     (case h of
        None \<Rightarrow> I_Goto (F_End None Op_TryGet (fut_no_state le))
      | Some m \<Rightarrow> I_Enter m (F_Try_Test m ms))"
| "void_get_prog fmt (F_Try_Test m ms) s =
     (if \<not> sh_ready (fs_states s m) then I_Sleep m ms (F_Try_Woken m) else I_Goto (F_Try_Exc m))"
| "void_get_prog fmt (F_Try_Woken m r) s =
     (case cv_WaitFor r of
        Inl e \<Rightarrow> I_Goto (F_Unlock m Op_TryGet (FR_Throw e))
      | Inr ok \<Rightarrow> if \<not> ok then I_Goto (F_Unlock m Op_TryGet (FR_Bool False)) else I_Goto (F_Try_Exc m))"
| "void_get_prog fmt (F_Try_Exc m) s =
     (if sh_hasException (fs_states s m) then I_Goto (F_Unlock m Op_TryGet (rethrown (fs_states s m)))
      else I_Goto (F_Unlock m Op_TryGet (FR_Bool True)))"
| "void_get_prog fmt (F_Ready_Call h) s =
     (case h of
        None \<Rightarrow> I_Goto (F_End None Op_IsReady (FR_Bool False))
      | Some m \<Rightarrow> I_Enter m (F_Ready_Read m))"
| "void_get_prog fmt (F_Ready_Read m) s =
     I_Goto (F_Unlock m Op_IsReady (FR_Bool (sh_ready (fs_states s m))))"
| "void_get_prog fmt (F_Wait_Call le h) s =
     (case h of
        None \<Rightarrow> I_Goto (F_End None Op_Wait (fut_no_state le))
      | Some m \<Rightarrow> I_Enter m (F_Wait_Test m))"
| "void_get_prog fmt (F_Wait_Test m) s =
     (if \<not> sh_ready (fs_states s m) then I_Sleep m INFINITE (F_Wait_Woken m)
      else I_Goto (F_Unlock m Op_Wait FR_Void))"
| "void_get_prog fmt (F_Wait_Woken m r) s =
     (case cv_Wait fmt r of
        Inl e \<Rightarrow> I_Goto (F_Unlock m Op_Wait (FR_Throw e))
      | Inr u \<Rightarrow> I_Goto (F_Wait_Test m))"
| "void_get_prog fmt (F_WaitFor_Call le h ms) s =
     (case h of
        None \<Rightarrow> I_Goto (F_End None Op_WaitFor (fut_no_state le))
      | Some m \<Rightarrow> I_Enter m (F_WaitFor_Test m ms))"
| "void_get_prog fmt (F_WaitFor_Test m ms) s =
     (if \<not> sh_ready (fs_states s m) then I_Sleep m ms (F_WaitFor_Woken m)
      else I_Goto (F_Unlock m Op_WaitFor (FR_Bool True)))"
| "void_get_prog fmt (F_WaitFor_Woken m r) s =
     (case cv_WaitFor r of
        Inl e \<Rightarrow> I_Goto (F_Unlock m Op_WaitFor (FR_Throw e))
      | Inr ok \<Rightarrow> I_Goto (F_Unlock m Op_WaitFor (FR_Bool ok)))"
| "void_get_prog fmt (F_Unlock m op r) s = I_Leave m (F_End (Some m) op r)"
| "void_get_prog fmt (F_End h op r) s = I_Finish (F_End h op r)"
| "void_get_prog fmt k s = I_Goto k"

text \<open>\<open>SetValue\<close> has no argument and sets \<open>ready\<close> right after the test.\<close>

fun void_set_prog ::
  "('x, unit) set_pc \<Rightarrow> ('x, unit) futures \<Rightarrow> ('x, unit) futures \<times> (nat, ('x, unit) set_pc) instr" where
  "void_set_prog (S_Value_Call le h _) s =
     (s, case h of
           None \<Rightarrow> I_Goto (S_End (Some (Thread_Exn ''Promise has no state'' le)))
         | Some m \<Rightarrow> I_Enter m (S_Value_Test le m ()))"
| "void_set_prog (S_Value_Test le m _) s =
     (s, if sh_ready (fs_states s m) then I_Goto (S_Fail m (already_satisfied le))
         else I_Goto (S_Ready m (Inr ())))"
| "void_set_prog (S_Exc_Call le h e) s =
     (s, case h of
           None \<Rightarrow> I_Goto (S_End (Some (Thread_Exn ''Promise has no state'' le)))
         | Some m \<Rightarrow> I_Enter m (S_Exc_Test le m e))"
| "void_set_prog (S_Exc_Test le m e) s =
     (s, if sh_ready (fs_states s m) then I_Goto (S_Fail m (already_satisfied le))
         else I_Goto (S_Exc_Write m e))"
| "void_set_prog (S_Exc_Write m e) s =
     (fs_update m (sh_exception_update (\<lambda>_. Some e)) s, I_Goto (S_Exc_Flag m e))"
| "void_set_prog (S_Exc_Flag m e) s =
     (fs_update m (sh_hasException_update (\<lambda>_. True)) s, I_Goto (S_Ready m (Inl e)))"
| "void_set_prog (S_Ready m r) s =
     (fs_update m (sh_ready_update (\<lambda>_. True)) s, I_Goto (S_Unlock m))"
| "void_set_prog (S_Unlock m) s = (s, I_Leave m (S_Notify m))"
| "void_set_prog (S_Notify m) s = (s, I_Wake_All m (S_End None))"
| "void_set_prog (S_Fail m e) s = (s, I_Leave m (S_End (Some e)))"
| "void_set_prog (S_End r) s = (s, I_Finish (S_End r))"
| "void_set_prog k s = (s, I_Goto k)"

text \<open>The task of \<open>Then\<close> calls its function without an argument.\<close>

fun void_task_prog ::
  "(dword \<Rightarrow> string) \<Rightarrow> ('x, unit) task_pc \<Rightarrow> ('x, unit) futures \<Rightarrow>
   ('x, unit) futures \<times> (nat, ('x, unit) task_pc) instr" where
  "void_task_prog fmt (K_Start le n) s =
     (if n < length (fs_tasks s)
      then (s\<lparr>fs_tasks := take n (fs_tasks s) @ drop (Suc n) (fs_tasks s)\<rparr>,
            I_Goto (K_Enter le (fs_tasks s ! n)))
      else (s, I_Goto (K_Start le n)))"
| "void_task_prog fmt (K_Enter le (h, f, p)) s =
     (s, case h of None \<Rightarrow> I_Goto K_Undefined | Some m \<Rightarrow> I_Enter m (K_Test le m f p))"
| "void_task_prog fmt (K_Test le m f p) s =
     (s, if \<not> sh_ready (fs_states s m) then I_Sleep m INFINITE (K_Woken le m f p)
         else I_Goto (K_Exc le m f p))"
| "void_task_prog fmt (K_Woken le m f p r) s =
     (s, case cv_Wait fmt r of
           Inl e \<Rightarrow> I_Goto (K_Unlock le m (Inl e) f p)
         | Inr u \<Rightarrow> I_Goto (K_Test le m f p))"
| "void_task_prog fmt (K_Exc le m f p) s =
     (s, if sh_hasException (fs_states s m)
         then (case sh_exception (fs_states s m) of
                 None \<Rightarrow> I_Leave m K_Undefined
               | Some e \<Rightarrow> I_Goto (K_Unlock le m (Inl e) f p))
         else I_Goto (K_Unlock le m (Inr ()) f p))"
| "void_task_prog fmt (K_Unlock le m r f p) s = (s, I_Leave m (K_Func le m r f p))"
| "void_task_prog fmt (K_Func le m r f p) s =
     (s, case r of
           Inl e \<Rightarrow> I_Goto (K_Catch (S_Exc_Call le (Some p) e))
         | Inr _ \<Rightarrow>
             (case f () of
                Inl e \<Rightarrow> I_Goto (K_Catch (S_Exc_Call le (Some p) e))
              | Inr _ \<Rightarrow> I_Goto (K_Set le p (S_Value_Call le (Some p) ()))))"
| "void_task_prog fmt (K_Set le p k) s =
     (case in_setter k of
        Some r \<Rightarrow> (s, case r of
            None \<Rightarrow> I_Goto K_End
          | Some e \<Rightarrow> I_Goto (K_Catch (S_Exc_Call le (Some p) e)))
      | None \<Rightarrow> apsnd (map_instr id (K_Set le p)) (void_set_prog k s))"
| "void_task_prog fmt (K_Catch k) s =
     (case in_setter k of
        Some r \<Rightarrow> (s, case r of None \<Rightarrow> I_Goto K_End | Some e \<Rightarrow> I_Goto K_Terminate)
      | None \<Rightarrow> apsnd (map_instr id K_Catch) (void_set_prog k s))"
| "void_task_prog fmt K_End s = (s, I_Finish K_End)"
| "void_task_prog fmt K_Terminate s = (s, I_Finish K_Terminate)"
| "void_task_prog fmt K_Undefined s = (s, I_Finish K_Undefined)"
| "void_task_prog fmt k s = (s, I_Goto k)"

fun void_prog ::
  "(dword \<Rightarrow> string) \<Rightarrow> ('x, unit) fut_pc \<Rightarrow> ('x, unit) futures \<Rightarrow>
   ('x, unit) futures \<times> (nat, ('x, unit) fut_pc) instr" where
  "void_prog fmt (P_Get k) s = (s, map_instr id P_Get (void_get_prog fmt k s))"
| "void_prog fmt (P_Set k) s = apsnd (map_instr id P_Set) (void_set_prog k s)"
| "void_prog fmt P_New s = (case promise_new s of (p, s') \<Rightarrow> (s', I_Goto (P_Made p)))"
| "void_prog fmt (P_Then h f) s = (case fut_then h f s of (p, s') \<Rightarrow> (s', I_Goto (P_Made p)))"
| "void_prog fmt (P_Made h) s = (s, I_Finish (P_Made h))"
| "void_prog fmt (P_Task k) s = apsnd (map_instr id P_Task) (void_task_prog fmt k s)"

abbreviation void_step ::
  "('c, 'v) win_sync \<Rightarrow> (dword \<Rightarrow> string) \<Rightarrow> ('x, unit) fut_pc mon_label \<Rightarrow>
   ('c, 'v, nat, ('x, unit) fut_pc, ('x, unit) futures) mon \<Rightarrow>
   ('c, 'v, nat, ('x, unit) fut_pc, ('x, unit) futures) mon option" where
  "void_step api fmt \<equiv> mon_step api fut_start (void_prog fmt)"

section \<open>The view of the template\<close>

text \<open>
  \<open>Get\<close> returns nothing and \<open>TryGet\<close> just \<open>true\<close>; the statements that read or write the
  value are hidden.
\<close>

fun void_result :: "('x, unit) fut_result \<Rightarrow> ('x, unit) fut_result" where
  "void_result (FR_Value _) = FR_Void"
| "void_result (FR_Got _) = FR_Bool True"
| "void_result r = r"

fun void_get :: "('x, unit) get_pc \<Rightarrow> ('x, unit) get_pc" where
  "void_get (F_Unlock m op r) = F_Unlock m op (void_result r)"
| "void_get (F_End h op r) = F_End h op (void_result r)"
| "void_get k = k"

fun void_view :: "('x, unit) fut_pc \<Rightarrow> ('x, unit) fut_pc" where
  "void_view (P_Get k) = P_Get (void_get k)"
| "void_view k = k"

fun get_value :: "('x, unit) get_pc \<Rightarrow> bool" where
  "get_value (F_Get_Value m) \<longleftrightarrow> True"
| "get_value (F_Try_Value m) \<longleftrightarrow> True"
| "get_value _ \<longleftrightarrow> False"

fun set_value :: "('x, unit) set_pc \<Rightarrow> bool" where
  "set_value (S_Value_Write m _) \<longleftrightarrow> True"
| "set_value _ \<longleftrightarrow> False"

fun task_value :: "('x, unit) task_pc \<Rightarrow> bool" where
  "task_value (K_Value le m f p) \<longleftrightarrow> True"
| "task_value (K_Set le p k) \<longleftrightarrow> set_value k"
| "task_value (K_Catch k) \<longleftrightarrow> set_value k"
| "task_value _ \<longleftrightarrow> False"

fun value_point :: "('x, unit) fut_pc \<Rightarrow> bool" where
  "value_point (P_Get k) \<longleftrightarrow> get_value k"
| "value_point (P_Set k) \<longleftrightarrow> set_value k"
| "value_point (P_Task k) \<longleftrightarrow> task_value k"
| "value_point _ \<longleftrightarrow> False"

text \<open>Each group of methods has the same statements as the template.\<close>

lemma write_unit [simp]: "fs_update m (sh_value_update (\<lambda>_. ())) s = (s :: ('x, unit) futures)"
proof -
  have [simp]: "sh_value_update (\<lambda>_. ()) sh = sh" for sh :: "('x, unit) shared" by (cases sh) simp
  show ?thesis by (cases s) (simp add: fs_update_def)
qed

lemma void_result_rethrown [simp]: "void_result (rethrown sh) = rethrown sh"
  by (cases "sh_exception sh") (simp_all add: rethrown_def)

lemma void_result_no_state [simp]: "void_result (fut_no_state le) = fut_no_state le"
  by (simp add: fut_no_state_def)

lemma void_gets:
  "\<not> get_value k \<Longrightarrow>
   one_or_two void_get get_value (\<lambda>k s. (s, fut_get_prog fmt k s)) k s (s, void_get_prog fmt (void_get k) s)"
  by (cases k) (auto simp: same_statement_def fun_eq_iff split: option.splits sum.splits)

lemma void_sets:
  "\<not> set_value k \<Longrightarrow> one_or_two id set_value fut_set_prog k s (void_set_prog k s)"
  by (cases k) (auto simp: same_statement_def fun_eq_iff split: option.splits)

lemma void_tasks:
  "\<not> task_value k \<Longrightarrow> one_or_two id task_value (fut_task_prog fmt) k s (void_task_prog fmt k s)"
proof (cases k)
  case (K_Set le p j)
  assume "\<not> task_value k"
  have "one_or_two id task_value (fut_task_prog fmt) (K_Set le p j) s (apsnd (map_instr id (K_Set le p)) (void_set_prog j s))"
    if "in_setter j = None"
    using void_sets [of j s] \<open>\<not> task_value k\<close> K_Set that
    by (intro one_or_two_lift [of id set_value fut_set_prog]) (auto elim: set_value.elims)
  with K_Set show ?thesis
    by (cases "in_setter j") (auto simp: same_statement_def split: option.splits)
next
  case (K_Catch j)
  assume "\<not> task_value k"
  have "one_or_two id task_value (fut_task_prog fmt) (K_Catch j) s (apsnd (map_instr id K_Catch) (void_set_prog j s))"
    if "in_setter j = None"
    using void_sets [of j s] \<open>\<not> task_value k\<close> K_Catch that
    by (intro one_or_two_lift [of id set_value fut_set_prog]) (auto elim: set_value.elims)
  with K_Catch show ?thesis
    by (cases "in_setter j") (auto simp: same_statement_def split: option.splits)
next
  case (K_Enter le tk)
  then show ?thesis by (cases tk) (auto simp: same_statement_def fun_eq_iff split: option.splits sum.splits)
qed (auto simp: same_statement_def fun_eq_iff split: option.splits sum.splits)

lemma void_statements:
  "\<not> value_point k \<Longrightarrow>
   one_or_two void_view value_point (fut_prog fmt) k s (void_prog fmt (void_view k) s)"
proof (cases k)
  case (P_Get j)
  assume "\<not> value_point k"
  then have "one_or_two void_view value_point (fut_prog fmt) (P_Get j) s
      (apsnd (map_instr id P_Get) (s, void_get_prog fmt (void_get j) s))"
    using void_gets [of j s fmt] P_Get
    by (intro one_or_two_lift [of void_get get_value "\<lambda>k s. (s, fut_get_prog fmt k s)"]) auto
  with P_Get show ?thesis by simp
next
  case (P_Set j)
  assume "\<not> value_point k"
  then have "one_or_two void_view value_point (fut_prog fmt) (P_Set j) s
      (apsnd (map_instr id P_Set) (void_set_prog j s))"
    using void_sets [of j s] P_Set by (intro one_or_two_lift [of id set_value fut_set_prog]) auto
  with P_Set show ?thesis by simp
next
  case (P_Task j)
  assume "\<not> value_point k"
  then have "one_or_two void_view value_point (fut_prog fmt) (P_Task j) s
      (apsnd (map_instr id P_Task) (void_task_prog fmt j s))"
    using void_tasks [of j fmt s] P_Task
    by (intro one_or_two_lift [of id task_value "fut_task_prog fmt"]) auto
  with P_Task show ?thesis by simp
qed (auto simp: same_statement_def promise_new_def fut_then_def)

lemma void_starts: "fut_start k \<Longrightarrow> void_view k = k \<and> \<not> value_point k"
  by (cases k rule: fut_start.cases) auto

interpretation void_future: program_view "fut_start :: ('x, unit) fut_pc \<Rightarrow> bool" "fut_prog fmt" "void_prog fmt"
  void_view value_point for fmt
  by unfold_locales (simp_all add: void_starts void_statements)

lemma void_get_F_End: "void_get k = F_End h op r \<Longrightarrow> \<exists>r'. k = F_End h op r' \<and> r = void_result r'"
  by (cases k) auto

text \<open>The setters are seen as they are, so the outcomes of a state are the same.\<close>

lemma value_point_setting: "value_point k \<Longrightarrow> made_ready m (t, k) = None"
  by (cases k rule: setting.cases) (auto split: option.splits set_pc.splits)

lemma made_ready_view [simp]: "made_ready m (t, void_view k) = made_ready m (t, k)"
  by (cases k) simp_all

lemma outcomes_view [simp]:
  "outcomes m (map (apsnd void_view) (filter (\<lambda>(t, k). \<not> value_point k) lg)) = outcomes m lg"
  by (induction lg) (auto simp: value_point_setting simp del: made_ready.simps)

section \<open>Properties\<close>

text \<open>
  C25. Under any schedule, the specialisations for \<open>void\<close> do what the templates do without the
  value: every reachable state of programs that use \<open>Future<void>\<close> and \<open>Promise<void>\<close> is the view
  of a reachable state of programs that use the templates at a type with one value, with the
  same shared states, locks and sleepers, and the same history but for the accesses to the value.
\<close>

theorem void_refines_template:
  assumes "reach (void_step api fmt) (mon_init api (futures_new ())) s"
  shows "\<exists>s'. reach (fut_step api fmt) (mon_init api (futures_new ())) s' \<and>
    mon_data s = mon_data s' \<and> mon_cs s = mon_cs s' \<and> mon_cv s = mon_cv s' \<and>
    (\<forall>t. mon_pcs s t = map_thread_pc id void_view (mon_pcs s' t)) \<and>
    mon_log s = map (apsnd void_view) (filter (\<lambda>(t, k). \<not> value_point k) (mon_log s'))"
proof -
  from void_future.view_reach [OF assms] obtain s' where
    "reach (fut_step api fmt) (mon_init api (futures_new ())) s'" "s = state_view void_view value_point s'" by blast
  then show ?thesis by (intro exI [of _ s']) simp
qed

text \<open>
  A \<open>Promise<void>\<close> is satisfied at most once; \<open>Get\<close> of its future returns only after \<open>SetValue\<close>,
  and throws only the exception of \<open>SetException\<close> or of a sleep that failed; \<open>Wait\<close> returns only after
  either.
\<close>

theorem void_agrees_with_promise:
  fixes s :: "('c, 'v, nat, ('x, unit) fut_pc, ('x, unit) futures) mon"
  assumes "win_sync_ok api" and "reach (void_step api fmt) (mon_init api (futures_new ())) s"
  shows "length (outcomes m (mon_log s)) \<le> 1 \<and>
    (\<forall>i < length (mon_log s). \<forall>r. snd (mon_log s ! i) = P_Get (F_End (Some m) Op_Get r) \<longrightarrow>
      r = FR_Void \<and> outcomes m (take i (mon_log s)) = [Inr ()] \<or>
      (\<exists>e. r = FR_Throw e \<and> (outcomes m (take i (mon_log s)) = [Inl e] \<or> sleep_failed fmt e))) \<and>
    (\<forall>i < length (mon_log s). snd (mon_log s ! i) = P_Get (F_End (Some m) Op_Wait FR_Void) \<longrightarrow>
      outcomes m (take i (mon_log s)) \<noteq> [])"
proof -
  obtain s' where s': "reach (fut_step api fmt) (mon_init api (futures_new ())) s'"
    "s = state_view void_view value_point s'"
    using void_future.view_reach [OF assms(2)] by blast
  note J = fut_reach_J [OF assms(1) s'(1)]
  have before: "\<exists>r'. r = void_result r' \<and> result_ok fmt () op r' (outcomes m (take i (mon_log s)))"
    if i: "i < length (mon_log s)" "snd (mon_log s ! i) = P_Get (F_End (Some m) op r)" for i op r
  proof -
    from i(1) s'(2) obtain j t k where j: "j < length (mon_log s')" "mon_log s' ! j = (t, k)"
      "mon_log s ! i = (t, void_view k)" "outcomes m (take i (mon_log s)) = outcomes m (take j (mon_log s'))"
      by (metis state_view_log outcomes_view)
    from j(3) i(2) obtain r' where "k = P_Get (F_End (Some m) op r')" "r = void_result r'"
      by (cases k; simp) (metis void_get_F_End)
    with j J show ?thesis unfolding fut_J_def log_ok_def by (metis fut_after.simps(1) snd_conv)
  qed
  have "outcomes m (mon_log s) = outcomes m (mon_log s')" by (simp add: s'(2))
  then have "length (outcomes m (mon_log s)) \<le> 1" using fut_J_once [OF J] by simp
  moreover have get: "void_result r' = FR_Void \<and> rs = [Inr ()] \<or>
      (\<exists>e. void_result r' = FR_Throw e \<and> (rs = [Inl e] \<or> sleep_failed fmt e))"
    if "result_ok fmt () Op_Get r' rs" for r' :: "('x, unit) fut_result" and rs
    using that by (cases r') (auto simp: outcome_ok_def)
  have "r = FR_Void \<and> outcomes m (take i (mon_log s)) = [Inr ()] \<or>
      (\<exists>e. r = FR_Throw e \<and> (outcomes m (take i (mon_log s)) = [Inl e] \<or> sleep_failed fmt e))"
    if "i < length (mon_log s)" "snd (mon_log s ! i) = P_Get (F_End (Some m) Op_Get r)" for i r
    using before [OF that] get by metis
  moreover have wait: "rs \<noteq> []" if "void_result r' = FR_Void" "result_ok fmt () Op_Wait r' rs"
    for r' :: "('x, unit) fut_result" and rs
    using that by (cases r') auto
  have "outcomes m (take i (mon_log s)) \<noteq> []"
    if "i < length (mon_log s)" "snd (mon_log s ! i) = P_Get (F_End (Some m) Op_Wait FR_Void)" for i
    using before [OF that] wait by metis
  ultimately show ?thesis by blast
qed

text \<open>A client satisfies a \<open>Promise<void>\<close>, and another one gets it.\<close>

definition void_demo_run :: "(unit, unit) fut_pc mon_label list" where
  "void_demo_run = [M_Call 5 P_New, M_Run 5, M_Call 2 (P_Set (S_Value_Call 0 (Some 0) ())), M_Run 2,
     M_Enter 2, M_Run 2, M_Run 2, M_Run 2, M_Run 2, M_Run 2,
     M_Call 1 (P_Get (F_Get_Call 0 (Some 0))), M_Run 1, M_Enter 1, M_Run 1, M_Run 1, M_Run 1, M_Run 1]"

abbreviation void_demo_init :: "(nat, (unit, unit) fut_pc, (unit, unit) futures) fifo_mon" where
  "void_demo_init \<equiv> mon_init fifo_sync (futures_new ())"

lemma void_demo:
  "\<exists>s. run (void_step fifo_sync (\<lambda>_. [])) void_demo_run void_demo_init = Some s \<and>
     11 < length (mon_log s) \<and> snd (mon_log s ! 11) = P_Get (F_End (Some 0) Op_Get FR_Void)"
  by (simp add: void_demo_run_def sync_run_simps futures_new_def promise_new_def shared_new_def fs_update_def)

lemma void_demo_reach:
  obtains s where "reach (void_step fifo_sync (\<lambda>_. [])) void_demo_init s" "11 < length (mon_log s)"
    "snd (mon_log s ! 11) = P_Get (F_End (Some 0) Op_Get FR_Void)"
proof -
  obtain s where s: "run (void_step fifo_sync (\<lambda>_. [])) void_demo_run void_demo_init = Some s"
    "11 < length (mon_log s)" "snd (mon_log s ! 11) = P_Get (F_End (Some 0) Op_Get FR_Void)"
    using void_demo by (elim exE conjE) (rule that)
  show ?thesis by (rule that [OF run_reach [OF s(1)] s(2,3)])
qed

theorem void_refines_template_witness:
  "\<exists>(s :: (nat, (unit, unit) fut_pc, (unit, unit) futures) fifo_mon) s'.
     snd (mon_log s ! 11) = P_Get (F_End (Some 0) Op_Get FR_Void) \<and>
     reach (fut_step fifo_sync (\<lambda>_. [])) (mon_init fifo_sync (futures_new ())) s' \<and> mon_data s = mon_data s'"
proof -
  obtain s :: "(nat, (unit, unit) fut_pc, (unit, unit) futures) fifo_mon"
    where s: "reach (void_step fifo_sync (\<lambda>_. [])) void_demo_init s"
    "snd (mon_log s ! 11) = P_Get (F_End (Some 0) Op_Get FR_Void)"
    by (rule void_demo_reach)
  from void_refines_template [OF s(1)] s(2) show ?thesis by blast
qed

theorem void_agrees_with_promise_witness:
  "\<exists>s :: (nat, (unit, unit) fut_pc, (unit, unit) futures) fifo_mon.
     snd (mon_log s ! 11) = P_Get (F_End (Some 0) Op_Get FR_Void) \<and>
     outcomes 0 (take 11 (mon_log s)) = [Inr ()]"
proof -
  obtain s :: "(nat, (unit, unit) fut_pc, (unit, unit) futures) fifo_mon"
    where s: "reach (void_step fifo_sync (\<lambda>_. [])) void_demo_init s" "11 < length (mon_log s)"
    "snd (mon_log s ! 11) = P_Get (F_End (Some 0) Op_Get FR_Void)"
    by (rule void_demo_reach)
  from void_agrees_with_promise [OF fifo_sync_ok s(1), of 0] s(2,3) show ?thesis by fastforce
qed

end
