(* ===== verification/Future_Then.thy ===== *)
theory Future_Then
  imports Future_Promise
begin

text \<open>
  What \<open>Future::Then\<close> promises (\<open>src/src/ezthread/future.cpp\<close>): the chain from the call of \<open>Then\<close>
  over the task in its thread to the promise of the new future. The chain is read off the history
  of theory \<open>Future_Promise\<close>, whose threads run the task statement by statement.
\<close>

section \<open>The chain in the history\<close>

text \<open>What the task owes to the new future: the exception it was given, or what the function makes of the value.\<close>

definition then_result :: "('x, 'a) result \<Rightarrow> ('a \<Rightarrow> ('x, 'a) result) \<Rightarrow> ('x, 'a) result" where
  "then_result r f = (case r of Inl e \<Rightarrow> Inl e | Inr v \<Rightarrow> f v)"

text \<open>
  The number of shared states created by a history; that a call of \<open>Then\<close> on the handle \<open>h\<close> with the
  function \<open>f\<close> has created the state \<open>p\<close>; and what the last task of a thread got out of the critical
  section: its state, the outcome, the function, and the promise.
\<close>

fun creates :: "('x, 'a) fut_pc \<Rightarrow> bool" where
  "creates P_New \<longleftrightarrow> True"
| "creates (P_Then h f) \<longleftrightarrow> True"
| "creates _ \<longleftrightarrow> False"

definition created :: "(tid \<times> ('x, 'a) fut_pc) list \<Rightarrow> nat" where
  "created lg = length (filter (\<lambda>x. creates (snd x)) lg)"

definition then_call ::
  "(tid \<times> ('x, 'a) fut_pc) list \<Rightarrow> handle \<Rightarrow> ('a \<Rightarrow> ('x, 'a) result) \<Rightarrow> nat \<Rightarrow> bool" where
  "then_call lg h f p \<longleftrightarrow>
     (\<exists>j < length lg. snd (lg ! j) = P_Then h f \<and> created (take j lg) = p)"

fun got_out ::
  "('x, 'a) fut_pc \<Rightarrow> (nat \<times> ('x, 'a) result \<times> ('a \<Rightarrow> ('x, 'a) result) \<times> nat) option" where
  "got_out (P_Task (K_Func le m r f p)) = Some (m, r, f, p)"
| "got_out _ = None"

fun last_task ::
  "tid \<Rightarrow> (nat \<times> ('x, 'a) result \<times> ('a \<Rightarrow> ('x, 'a) result) \<times> nat) option \<Rightarrow> (tid \<times> ('x, 'a) fut_pc) list \<Rightarrow>
   (nat \<times> ('x, 'a) result \<times> ('a \<Rightarrow> ('x, 'a) result) \<times> nat) option" where
  "last_task t acc [] = acc"
| "last_task t acc ((u, k) # lg) =
     last_task t (if u = t \<and> got_out k \<noteq> None then got_out k else acc) lg"

lemma created_simps [simp]: "created [] = 0"
  "created (lg @ [(t, k)]) = (if creates k then Suc (created lg) else created lg)"
  by (simp_all add: created_def)

lemma last_task_snoc [simp]:
  "last_task t acc (lg @ [(u, k)]) = (if u = t \<and> got_out k \<noteq> None then got_out k else last_task t acc lg)"
  by (induction t acc lg rule: last_task.induct) auto

lemma then_call_snoc: assumes "then_call lg h f p" shows "then_call (lg @ [x]) h f p"
proof -
  obtain j where j: "j < length lg" "snd (lg ! j) = P_Then h f" "created (take j lg) = p"
    using assms by (auto simp: then_call_def)
  then show ?thesis unfolding then_call_def by (intro exI [of _ j]) (simp add: nth_append)
qed

lemma then_call_new: "then_call (lg @ [(t, P_Then h f)]) h f (created lg)"
  unfolding then_call_def by (rule exI [of _ "length lg"]) simp

section \<open>The invariant\<close>

text \<open>
  A setter on its way to satisfy \<open>p\<close> with the result \<open>x\<close>; one that has failed, or will fail because
  the promise is satisfied already.
\<close>

fun carries :: "nat \<Rightarrow> ('x, 'a) result \<Rightarrow> ('x, 'a) result list \<Rightarrow> ('x, 'a) set_pc \<Rightarrow> bool" where
  "carries p x rs (S_Value_Call le h v) \<longleftrightarrow> h = Some p \<and> x = Inr v"
| "carries p x rs (S_Value_Test le m v) \<longleftrightarrow> m = p \<and> x = Inr v"
| "carries p x rs (S_Value_Write m v) \<longleftrightarrow> m = p \<and> x = Inr v"
| "carries p x rs (S_Exc_Call le h e) \<longleftrightarrow> h = Some p \<and> x = Inl e"
| "carries p x rs (S_Exc_Test le m e) \<longleftrightarrow> m = p \<and> x = Inl e"
| "carries p x rs (S_Exc_Write m e) \<longleftrightarrow> m = p \<and> x = Inl e"
| "carries p x rs (S_Exc_Flag m e) \<longleftrightarrow> m = p \<and> x = Inl e"
| "carries p x rs (S_Ready m r) \<longleftrightarrow> m = p \<and> r = x"
| "carries p x rs (S_Unlock m) \<longleftrightarrow> rs = [x]"
| "carries p x rs (S_Notify m) \<longleftrightarrow> rs = [x]"
| "carries p x rs (S_Fail m e) \<longleftrightarrow> rs \<noteq> []"
| "carries p x rs (S_End r) \<longleftrightarrow> (case r of None \<Rightarrow> rs = [x] | Some e \<Rightarrow> rs \<noteq> [])"

fun fails :: "nat \<Rightarrow> ('x, 'a) set_pc \<Rightarrow> bool" where
  "fails p (S_Exc_Call le h e) \<longleftrightarrow> h = Some p"
| "fails p (S_Exc_Test le m e) \<longleftrightarrow> m = p"
| "fails p (S_Fail m e) \<longleftrightarrow> True"
| "fails p (S_End r) \<longleftrightarrow> r \<noteq> None"
| "fails p _ \<longleftrightarrow> False"

text \<open>Where a thread stands in the chain.\<close>

definition task_owes ::
  "(tid \<times> ('x, 'a) fut_pc) list \<Rightarrow> tid \<Rightarrow> (nat \<Rightarrow> ('x, 'a) result \<Rightarrow> ('x, 'a) result list \<Rightarrow> bool) \<Rightarrow> bool" where
  "task_owes lg t P \<longleftrightarrow>
     (\<exists>m r f p. last_task t None lg = Some (m, r, f, p) \<and> P p (then_result r f) (outcomes p lg))"

fun task_point :: "(tid \<times> ('x, 'a) fut_pc) list \<Rightarrow> tid \<Rightarrow> ('x, 'a) task_pc \<Rightarrow> bool" where
  "task_point lg t (K_Enter le (h, f, p)) \<longleftrightarrow> then_call lg h f p"
| "task_point lg t (K_Test le m f p) \<longleftrightarrow> then_call lg (Some m) f p"
| "task_point lg t (K_Woken le m f p r) \<longleftrightarrow> then_call lg (Some m) f p"
| "task_point lg t (K_Exc le m f p) \<longleftrightarrow> then_call lg (Some m) f p"
| "task_point lg t (K_Value le m f p) \<longleftrightarrow> then_call lg (Some m) f p"
| "task_point lg t (K_Unlock le m r f p) \<longleftrightarrow> then_call lg (Some m) f p"
| "task_point lg t (K_Func le m r f p) \<longleftrightarrow> then_call lg (Some m) f p"
| "task_point lg t (K_Set le p k) \<longleftrightarrow> task_owes lg t (\<lambda>q x rs. q = p \<and> carries p x rs k)"
| "task_point lg t (K_Catch k) \<longleftrightarrow> task_owes lg t (\<lambda>p x rs. carries p x rs k \<or> rs \<noteq> [] \<and> fails p k)"
| "task_point lg t K_End \<longleftrightarrow> task_owes lg t (\<lambda>p x rs. rs = [x])"
| "task_point lg t K_Terminate \<longleftrightarrow> task_owes lg t (\<lambda>p x rs. rs \<noteq> [])"
| "task_point lg t _ \<longleftrightarrow> True"

fun then_point :: "(tid \<times> ('x, 'a) fut_pc) list \<Rightarrow> tid \<Rightarrow> ('x, 'a) fut_pc \<Rightarrow> bool" where
  "then_point lg t (P_Task k) \<longleftrightarrow> task_point lg t k"
| "then_point lg t _ \<longleftrightarrow> True"

text \<open>The invariant, with the tasks that wait for their threads, and of every statement of the history.\<close>

definition then_J ::
  "('x, 'a) futures \<Rightarrow> (tid \<Rightarrow> (nat, ('x, 'a) fut_pc) thread_pc) \<Rightarrow> (tid \<times> ('x, 'a) fut_pc) list \<Rightarrow> bool" where
  "then_J s pcs lg \<longleftrightarrow>
     (\<forall>t. at_points (then_point lg t) (pcs t)) \<and>
     fs_next s = created lg \<and> (\<forall>(h, f, p) \<in> set (fs_tasks s). then_call lg h f p) \<and>
     (\<forall>i < length lg. then_point (take i lg) (fst (lg ! i)) (snd (lg ! i)))"


text \<open>What the others do leaves it alone: an outcome is there for good.\<close>

lemma carries_mono:
  "carries p x rs k \<Longrightarrow> length (rs @ rs') \<le> 1 \<Longrightarrow> carries p x (rs @ rs') k"
  by (cases k) (auto split: option.splits)

lemma task_owes_mono:
  assumes "task_owes lg u P" and "u \<noteq> t" and "\<And>p x rs rs'. P p x rs \<Longrightarrow> length (rs @ rs') \<le> 1 \<Longrightarrow> Q p x (rs @ rs')"
    and "\<And>p. length (outcomes p (lg @ [(t, k)])) \<le> 1"
  shows "task_owes (lg @ [(t, k)]) u Q"
proof -
  obtain m r f p where p: "last_task u None lg = Some (m, r, f, p)" "P p (then_result r f) (outcomes p lg)"
    using assms(1) by (auto simp: task_owes_def)
  have "Q p (then_result r f) (outcomes p (lg @ [(t, k)]))"
    using assms(3) [OF p(2)] assms(4) [of p] unfolding outcomes_simps(2) by blast
  moreover have "last_task u None (lg @ [(t, k)]) = Some (m, r, f, p)" using p(1) assms(2) by simp
  ultimately show ?thesis unfolding task_owes_def by blast
qed

lemma then_point_other:
  assumes "then_point lg u k" and "u \<noteq> t" and "\<And>p. length (outcomes p (lg @ [(t, k')])) \<le> 1"
  shows "then_point (lg @ [(t, k')]) u k"
proof -
  note owes = task_owes_mono [OF _ assms(2) _ assms(3)]
  have "task_point (lg @ [(t, k')]) u g" if "task_point lg u g" for g
  proof (cases g)
    case (K_Enter le task)
    then show ?thesis using that then_call_snoc by (cases task) auto
  next
    case (K_Set le p c)
    with that have "task_owes lg u (\<lambda>q x rs. q = p \<and> carries p x rs c)" by simp
    then have "task_owes (lg @ [(t, k')]) u (\<lambda>q x rs. q = p \<and> carries p x rs c)"
      by (rule owes) (use carries_mono in blast)
    with K_Set show ?thesis by simp
  next
    case (K_Catch c)
    with that have "task_owes lg u (\<lambda>p x rs. carries p x rs c \<or> rs \<noteq> [] \<and> fails p c)" by simp
    then have "task_owes (lg @ [(t, k')]) u (\<lambda>p x rs. carries p x rs c \<or> rs \<noteq> [] \<and> fails p c)"
      by (rule owes) (use carries_mono in blast)
    with K_Catch show ?thesis by simp
  next
    case K_End
    with that have "task_owes lg u (\<lambda>p x rs. rs = [x])" by simp
    then have "task_owes (lg @ [(t, k')]) u (\<lambda>p x rs. rs = [x])" by (rule owes) simp
    with K_End show ?thesis by simp
  next
    case K_Terminate
    with that have "task_owes lg u (\<lambda>p x rs. rs \<noteq> [])" by simp
    then have "task_owes (lg @ [(t, k')]) u (\<lambda>p x rs. rs \<noteq> [])" by (rule owes) simp
    with K_Terminate show ?thesis by simp
  qed (use that then_call_snoc in auto)
  with assms(1) show ?thesis by (cases k) auto
qed

text \<open>
  A statement of the setter: \<open>ready\<close> agrees with the outcomes where it is tested, and there is no
  outcome where \<open>ready\<close> is set.
\<close>

definition set_sees :: "('x, 'a) futures \<Rightarrow> (nat \<Rightarrow> ('x, 'a) result list) \<Rightarrow> ('x, 'a) set_pc \<Rightarrow> bool" where
  "set_sees s R k \<longleftrightarrow>
     (\<forall>m r. k = S_Ready m r \<longrightarrow> R m = []) \<and>
     (\<forall>le m v. k = S_Value_Test le m v \<longrightarrow> (sh_ready (fs_states s m) \<longleftrightarrow> R m \<noteq> [])) \<and>
     (\<forall>le m e. k = S_Exc_Test le m e \<longrightarrow> (sh_ready (fs_states s m) \<longleftrightarrow> R m \<noteq> []))"

lemma setting_setter: assumes "setting k = Some c" shows "\<exists>W. setter W \<and> k = W c"
proof -
  consider "k = P_Set c" | le p where "k = P_Task (K_Set le p c)" | "k = P_Task (K_Catch c)"
    using assms by (cases k rule: setting.cases) auto
  then show ?thesis
  proof cases
    case 1
    then show ?thesis by (intro exI [of _ P_Set]) (simp add: setter_def)
  next
    case (2 le p)
    then show ?thesis by (intro exI [of _ "\<lambda>k. P_Task (K_Set le p k)"]) (auto simp: setter_def)
  next
    case 3
    then show ?thesis by (intro exI [of _ "\<lambda>k. P_Task (K_Catch k)"]) (simp add: setter_def)
  qed
qed

lemma fut_J_sees:
  assumes J: "fut_J fmt d s pcs lg A" and pc: "pcs t = T_At (W k)" and W: "setter W"
  shows "set_sees s (\<lambda>m. outcomes m lg) k"
proof -
  have thread: "fut_thread fmt d (fs_states s) (\<lambda>m. outcomes m lg) (T_At (W k))"
    using J pc unfolding fut_J_def by metis
  have inside: "set_inside d (fs_states s m) (outcomes m lg) k" if "set_holds k = Some m" for m
    using thread that W by (simp add: setterD)
  have "sh_ready (fs_states s m) \<longleftrightarrow> outcomes m lg \<noteq> []"
    if "fut_state d (fs_states s m) (outcomes m lg)" for m
    using that by (rule fut_state_ready)
  moreover have "outcomes m lg = []" if "k = S_Ready m r" for m r
    using inside [of m] that by (cases r) auto
  ultimately show ?thesis unfolding set_sees_def using inside by auto
qed

lemma set_step_carries:
  assumes "carries p x (outcomes p lg) k" and "set_sees s (\<lambda>m. outcomes m lg) k" and "setter W"
    and "in_setter k = None"
  shows "at_points (carries p x (outcomes p (lg @ [(t, W k)]))) (pc_after (snd (fut_set_prog k s)))"
  using assms by (cases k) (auto simp: setterD set_sees_def split: option.splits)

lemma set_step_fails:
  assumes "fails p k" and "outcomes p lg \<noteq> []" and "set_sees s (\<lambda>m. outcomes m lg) k" and "in_setter k = None"
  shows "at_points (fails p) (pc_after (snd (fut_set_prog k s)))"
  using assms by (cases k) (auto simp: set_sees_def split: option.splits)

lemma at_points_True [simp]: "at_points (\<lambda>_. True) pc"
  by (cases pc) auto

lemma at_points_map: "at_points P (pc_after (map_instr id W i)) \<longleftrightarrow> at_points (\<lambda>k. P (W k)) (pc_after i)"
  by (cases i) auto

text \<open>A statement of the thread itself, inside a setter and outside.\<close>

lemma task_owes_step:
  assumes "task_owes lg t P" and "got_out k = None"
    and "\<And>p x. P p x (outcomes p lg) \<Longrightarrow> at_points (\<lambda>c. Q c p x (outcomes p (lg @ [(t, k)]))) pc"
  shows "at_points (\<lambda>c. task_owes (lg @ [(t, k)]) t (Q c)) pc"
proof -
  obtain m r f p where p: "last_task t None lg = Some (m, r, f, p)" "P p (then_result r f) (outcomes p lg)"
    using assms(1) by (auto simp: task_owes_def)
  have l: "last_task t None (lg @ [(t, k)]) = Some (m, r, f, p)" using p(1) assms(2) by simp
  show ?thesis
    by (rule at_points_mono [OF assms(3) [OF p(2)]]) (use l in \<open>auto simp: task_owes_def simp del: outcomes_simps\<close>)
qed

lemma task_set_point:
  assumes "then_point lg t (P_Task g)" and sees: "\<And>k. setting (P_Task g) = Some k \<Longrightarrow> set_sees s (\<lambda>m. outcomes m lg) k"
    and once: "\<And>p. length (outcomes p (lg @ [(t, P_Task g)])) \<le> 1"
    and g: "g = K_Set le q k \<or> g = K_Catch k" and k: "in_setter k = None"
  shows "at_points (then_point (lg @ [(t, P_Task g)]) t) (pc_after (snd (fut_prog fmt (P_Task g) s)))"
  using g
proof
  assume g: "g = K_Set le q k"
  have W: "setter (\<lambda>k. P_Task (K_Set le q k))" by (auto simp: setter_def)
  have sees': "set_sees s (\<lambda>m. outcomes m lg) k" using sees g by simp
  have "task_owes lg t (\<lambda>p x rs. p = q \<and> carries q x rs k)" using assms(1) g by simp
  then have "at_points (\<lambda>c. task_owes (lg @ [(t, P_Task g)]) t (\<lambda>p x rs. p = q \<and> carries q x rs c))
      (pc_after (snd (fut_set_prog k s)))"
  proof (rule task_owes_step)
    show "at_points (\<lambda>c. p = q \<and> carries q x (outcomes p (lg @ [(t, P_Task g)])) c)
        (pc_after (snd (fut_set_prog k s)))" if "p = q \<and> carries q x (outcomes p lg) k" for p x
      using set_step_carries [OF _ sees' W k, of q x t] that
      by (auto simp: g simp del: outcomes_simps elim: at_points_mono)
  qed (simp add: g)
  with g k show ?thesis by (simp add: at_points_map comp_def)
next
  assume g: "g = K_Catch k"
  have W: "setter (\<lambda>k. P_Task (K_Catch k))" by (auto simp: setter_def)
  have sees': "set_sees s (\<lambda>m. outcomes m lg) k" using sees g by simp
  have "task_owes lg t (\<lambda>p x rs. carries p x rs k \<or> rs \<noteq> [] \<and> fails p k)" using assms(1) g by simp
  then have "at_points (\<lambda>c. task_owes (lg @ [(t, P_Task g)]) t (\<lambda>p x rs. carries p x rs c \<or> rs \<noteq> [] \<and> fails p c))
      (pc_after (snd (fut_set_prog k s)))"
  proof (rule task_owes_step)
    show "at_points (\<lambda>c. carries p x (outcomes p (lg @ [(t, P_Task g)])) c \<or>
          outcomes p (lg @ [(t, P_Task g)]) \<noteq> [] \<and> fails p c) (pc_after (snd (fut_set_prog k s)))"
      if "carries p x (outcomes p lg) k \<or> outcomes p lg \<noteq> [] \<and> fails p k" for p x
      using that
    proof
      assume "carries p x (outcomes p lg) k"
      from set_step_carries [OF this sees' W k, of t] show ?thesis
        by (rule at_points_mono) (simp add: g del: outcomes_simps)
    next
      assume "outcomes p lg \<noteq> [] \<and> fails p k"
      with set_step_fails [OF _ _ sees' k, of p] have "at_points (fails p) (pc_after (snd (fut_set_prog k s)))"
        by blast
      then show ?thesis
        by (rule at_points_mono) (use \<open>outcomes p lg \<noteq> [] \<and> fails p k\<close> in simp)
    qed
  qed (simp add: g)
  with g k show ?thesis by (simp add: at_points_map comp_def)
qed

lemma task_func_point:
  "at_points (then_point (lg @ [(t, P_Task (K_Func le m r f p))]) t)
     (pc_after (snd (fut_prog fmt (P_Task (K_Func le m r f p)) s)))"
  by (auto simp: task_owes_def then_result_def split: sum.splits)

lemma task_end_point:
  assumes "then_point lg t (P_Task g)" and g: "g = K_Set le q (S_End r) \<or> g = K_Catch (S_End r)"
  shows "at_points (then_point (lg @ [(t, P_Task g)]) t) (pc_after (snd (fut_prog fmt (P_Task g) s)))"
  using assms by (cases r) (auto simp: task_owes_def)

lemma task_plain_point:
  assumes "then_point lg t (P_Task g)" and g: "task_plain g"
    and tasks: "\<And>h f p. (h, f, p) \<in> set (fs_tasks s) \<Longrightarrow> then_call lg h f p"
  shows "at_points (then_point (lg @ [(t, P_Task g)]) t) (pc_after (snd (fut_prog fmt (P_Task g) s)))"
proof (cases g)
  case (K_Start le n)
  have "then_call lg h f p" if "n < length (fs_tasks s)" "fs_tasks s ! n = (h, f, p)" for h f p
    using tasks that by (metis nth_mem)
  then show ?thesis using K_Start then_call_snoc by (cases "fs_tasks s ! n") auto
next
  case (K_Enter le task)
  then show ?thesis using assms(1) then_call_snoc by (cases task) (auto split: option.splits)
next
  case (K_Func le m r f p)
  then show ?thesis using task_func_point by blast
next
  case (K_Set le q k)
  then obtain r where "k = S_End r" using g by auto
  with K_Set show ?thesis by (intro task_end_point [OF assms(1)]) blast
next
  case (K_Catch k)
  then obtain r where "k = S_End r" using g by auto
  with K_Catch show ?thesis by (intro task_end_point [OF assms(1)]) blast
qed (use assms(1) then_call_snoc in \<open>auto split: option.splits sum.splits\<close>)

lemma then_step_point:
  assumes J: "fut_J fmt d s pcs lg A" and pc: "pcs t = T_At k" and point: "then_point lg t k"
    and tasks: "\<And>h f p. (h, f, p) \<in> set (fs_tasks s) \<Longrightarrow> then_call lg h f p"
    and once: "\<And>p. length (outcomes p (lg @ [(t, k)])) \<le> 1"
  shows "at_points (then_point (lg @ [(t, k)]) t) (pc_after (snd (fut_prog fmt k s)))"
proof (cases k)
  case (P_Task g)
  show ?thesis
  proof (cases "task_plain g")
    case True
    show ?thesis unfolding P_Task by (rule task_plain_point [OF _ True tasks]) (use point P_Task in auto)
  next
    case False
    then obtain le q c where g: "g = K_Set le q c \<or> g = K_Catch c" and c: "in_setter c = None"
      by (cases g) (auto simp del: not_None_eq)
    have sees: "set_sees s (\<lambda>m. outcomes m lg) c'" if c': "setting (P_Task g) = Some c'" for c'
    proof -
      obtain W where W: "setter W" "P_Task g = W c'"
        using setting_setter [OF c'] by blast
      from W(2) P_Task pc have "pcs t = T_At (W c')" by simp
      from fut_J_sees [OF J this W(1)] show ?thesis .
    qed
    show ?thesis
      unfolding P_Task by (rule task_set_point [OF _ sees _ g c]) (use point once P_Task in auto)
  qed
next
  case (P_Get g)
  then have "at_points (then_point (lg @ [(t, k)]) t) (pc_after (map_instr id P_Get (fut_get_prog fmt g s)))"
    by (simp add: at_points_map)
  with P_Get show ?thesis by simp
next
  case (P_Set g)
  then have "at_points (then_point (lg @ [(t, k)]) t) (pc_after (map_instr id P_Set (snd (fut_set_prog g s))))"
    by (simp add: at_points_map)
  with P_Set show ?thesis by simp
qed (simp_all add: promise_new_def fut_then_def)

text \<open>The states created, and the tasks that wait for a thread.\<close>

lemma fut_set_next: "fs_next (fst (fut_set_prog k s)) = fs_next s \<and> fs_tasks (fst (fut_set_prog k s)) = fs_tasks s"
  by (cases k) (auto simp: fs_update_def)

lemma fut_task_next:
  "fs_next (fst (fut_task_prog fmt g s)) = fs_next s \<and> set (fs_tasks (fst (fut_task_prog fmt g s))) \<subseteq> set (fs_tasks s)"
  using fut_set_next
  by (cases "(fmt, g, s)" rule: fut_task_prog.cases)
    (auto split: option.splits dest: in_set_takeD in_set_dropD)

lemma then_step_tasks:
  assumes "fs_next s = created lg" and tasks: "\<forall>(h, f, p) \<in> set (fs_tasks s). then_call lg h f p"
  shows "fs_next (fst (fut_prog fmt k s)) = created (lg @ [(t, k)]) \<and>
    (\<forall>(h, f, p) \<in> set (fs_tasks (fst (fut_prog fmt k s))). then_call (lg @ [(t, k)]) h f p)"
proof -
  have old: "then_call (lg @ [(t, k)]) h f p" if "(h, f, p) \<in> set (fs_tasks s)" for h f p
    using tasks that then_call_snoc by fastforce
  show ?thesis
  proof (cases k)
    case (P_Then h f)
    then show ?thesis
      using assms(1) old then_call_new [of lg t h f] by (auto simp: fut_then_def promise_new_def)
  next
    case (P_Set g)
    then show ?thesis using assms(1) old fut_set_next [of g s] by auto
  next
    case (P_Task g)
    then show ?thesis using assms(1) old fut_task_next [of fmt g s] by auto
  qed (use assms(1) old in \<open>auto simp: promise_new_def\<close>)
qed

lemma then_reach_J:
  fixes s :: "('c, 'v, nat, ('x, 'a) fut_pc, ('x, 'a) futures) mon"
  assumes api: "win_sync_ok api" and "reach (fut_step api fmt) (mon_init api (futures_new d)) s"
  shows "then_J (mon_data s) (mon_pcs s) (mon_log s)"
  using assms(2)
proof (induction rule: reach.induct)
  case reach_init
  show ?case by (simp add: then_J_def mon_init_def futures_new_def)
next
  case (reach_step s l s')
  note J = fut_reach_J [OF api reach_step.hyps(1)]
  have once: "length (outcomes p (mon_log s')) \<le> 1" for p
    by (rule fut_J_once [OF fut_reach_J [OF api reach.reach_step [OF reach_step.hyps]]])
  have IH: "at_points (then_point (mon_log s) t) (mon_pcs s t)" "fs_next (mon_data s) = created (mon_log s)"
    "\<forall>(h, f, p) \<in> set (fs_tasks (mon_data s)). then_call (mon_log s) h f p"
    "\<forall>i < length (mon_log s). then_point (take i (mon_log s)) (fst (mon_log s ! i)) (snd (mon_log s ! i))" for t
    using reach_step.IH by (simp_all add: then_J_def)
  have "at_points (then_point (mon_log s') t) (mon_pcs s' t)" for t
  proof (rule mon_step_points [where P = then_point, OF reach_step.hyps(2) IH(1)])
    show "then_point (mon_log s) t k" if "fut_start k" for t k
      using that by (cases k rule: fut_start.cases) auto
    show "then_point (mon_log s') u k'"
      if "u \<noteq> t" "mon_log s' = mon_log s @ [(t, k)]" "then_point (mon_log s) u k'" for t u k k'
      using then_point_other [OF that(3,1)] once that(2) by metis
    show "at_points (then_point (mon_log s') t) (pc_after (snd (fut_prog fmt k (mon_data s))))"
      if "mon_pcs s t = T_At k" "mon_log s' = mon_log s @ [(t, k)]" "then_point (mon_log s) t k" for t k
      using then_step_point [OF J that(1,3)] IH(3) once that(2) by fastforce
  qed
  moreover have "fs_next (mon_data s') = created (mon_log s') \<and>
      (\<forall>(h, f, p) \<in> set (fs_tasks (mon_data s')). then_call (mon_log s') h f p) \<and>
      (\<forall>i < length (mon_log s'). then_point (take i (mon_log s')) (fst (mon_log s' ! i)) (snd (mon_log s' ! i)))"
  proof (cases "\<exists>t. l = M_Run t")
    case False
    then have "mon_data s' = mon_data s" "mon_log s' = mon_log s"
      using reach_step.hyps(2) by (cases l; auto split: thread_pc.splits option.splits if_splits)+
    with IH show ?thesis by simp
  next
    case True
    then obtain t k where k: "mon_pcs s t = T_At k" "mon_data s' = fst (fut_prog fmt k (mon_data s))"
      "mon_log s' = mon_log s @ [(t, k)]"
      using reach_step.hyps(2) by (auto split: thread_pc.splits prod.splits)
    have "then_point (mon_log s) t k" using IH(1) [of t] k(1) by simp
    with then_step_tasks [OF IH(2,3)] IH(4) k(2,3) show ?thesis
      by (auto simp: nth_append less_Suc_eq)
  qed
  ultimately show ?case by (simp add: then_J_def)
qed

section \<open>The property\<close>

text \<open>
  C26. The chain of \<open>Then\<close>, under any schedule of any number of threads and futures, and whatever the
  sleeps return. A task gets an outcome out of the critical section, and may call its function on
  the value, only after the promise of the future was satisfied with this outcome (or with the
  exception of a sleep that failed); future, function and promise are those of a call of \<open>Then\<close>
  before it, whose new state the promise is. When the task returns, this promise has been
  satisfied, with what the function makes of the value, or with the exception, which the function
  does not see: a value, an exception of the function, and an exception of the first promise are
  all passed on. The task ends the program only if this promise was satisfied by somebody already.
\<close>

theorem then_follows_promise:
  fixes s :: "('c, 'v, nat, ('x, 'a) fut_pc, ('x, 'a) futures) mon"
  assumes "win_sync_ok api" and "reach (fut_step api fmt) (mon_init api (futures_new d)) s"
  shows "(\<forall>i < length (mon_log s). \<forall>t le m r f p. mon_log s ! i = (t, P_Task (K_Func le m r f p)) \<longrightarrow>
      (outcomes m (take i (mon_log s)) = [r] \<or> (\<exists>e. r = Inl e \<and> sleep_failed fmt e)) \<and>
      then_call (take i (mon_log s)) (Some m) f p) \<and>
    (\<forall>i < length (mon_log s). \<forall>t. mon_log s ! i = (t, P_Task K_End) \<longrightarrow>
      (\<exists>m r f p. last_task t None (take i (mon_log s)) = Some (m, r, f, p) \<and>
        outcomes p (take i (mon_log s)) = [then_result r f])) \<and>
    (\<forall>i < length (mon_log s). \<forall>t. mon_log s ! i = (t, P_Task K_Terminate) \<longrightarrow>
      (\<exists>m r f p. last_task t None (take i (mon_log s)) = Some (m, r, f, p) \<and>
        outcomes p (take i (mon_log s)) \<noteq> []))"
proof -
  have J: "then_point (take i (mon_log s)) (fst (mon_log s ! i)) (snd (mon_log s ! i))"
    if "i < length (mon_log s)" for i
    using then_reach_J [OF assms] that by (simp add: then_J_def)
  have out: "outcome_ok fmt r (outcomes m (take i (mon_log s)))"
    if "i < length (mon_log s)" "mon_log s ! i = (t, P_Task (K_Func le m r f p))" for i t le m r f p
    using fut_reach_J [OF assms] that unfolding fut_J_def log_ok_def by (metis fut_after.simps(2) snd_conv)
  show ?thesis
  proof (intro conjI allI impI)
    fix i t le m r f p assume i: "i < length (mon_log s)" "mon_log s ! i = (t, P_Task (K_Func le m r f p))"
    show "outcomes m (take i (mon_log s)) = [r] \<or> (\<exists>e. r = Inl e \<and> sleep_failed fmt e)"
      using out [OF i] by (simp add: outcome_ok_def)
    show "then_call (take i (mon_log s)) (Some m) f p" using J [OF i(1)] i(2) by simp
  next
    fix i t assume i: "i < length (mon_log s)" "mon_log s ! i = (t, P_Task K_End)"
    show "\<exists>m r f p. last_task t None (take i (mon_log s)) = Some (m, r, f, p) \<and>
        outcomes p (take i (mon_log s)) = [then_result r f]"
      using J [OF i(1)] i(2) by (simp add: task_owes_def)
  next
    fix i t assume i: "i < length (mon_log s)" "mon_log s ! i = (t, P_Task K_Terminate)"
    show "\<exists>m r f p. last_task t None (take i (mon_log s)) = Some (m, r, f, p) \<and>
        outcomes p (take i (mon_log s)) \<noteq> []"
      using J [OF i(1)] i(2) by (simp add: task_owes_def)
  qed
qed

text \<open>
  Two continuations of one future: one doubles the value 7, the other throws. Then the two new
  promises hold the value 14 and the exception.
\<close>

definition then_demo_run :: "(unit, nat) fut_pc mon_label list" where
  "then_demo_run = [M_Call 5 P_New, M_Run 5, M_Call 2 (P_Set (S_Value_Call 0 (Some 0) 7)), M_Run 2, M_Enter 2,
     M_Run 2, M_Run 2, M_Run 2, M_Run 2, M_Run 2,
     M_Call 3 (P_Then (Some 0) (\<lambda>v. Inr (2 * v))), M_Run 3, M_Call 4 (P_Task (K_Start 0 0)),
     M_Run 4, M_Run 4, M_Enter 4, M_Run 4, M_Run 4, M_Run 4, M_Run 4, M_Run 4,
     M_Run 4, M_Enter 4, M_Run 4, M_Run 4, M_Run 4, M_Run 4, M_Run 4, M_Run 4, M_Run 4,
     M_Run 3, M_Call 3 (P_Then (Some 0) (\<lambda>v. Inl (User_Exn ()))), M_Run 3,
     M_Call 4 (P_Task (K_Start 0 0)),
     M_Run 4, M_Run 4, M_Enter 4, M_Run 4, M_Run 4, M_Run 4, M_Run 4, M_Run 4,
     M_Run 4, M_Enter 4, M_Run 4, M_Run 4, M_Run 4, M_Run 4, M_Run 4, M_Run 4, M_Run 4, M_Run 4]"

lemma then_demo:
  "\<exists>s. run (fut_step fifo_sync (\<lambda>_. [])) then_demo_run fut_demo_init = Some s \<and>
     length (mon_log s) = 41 \<and>
     mon_log s ! 14 = (4, P_Task (K_Func 0 0 (Inr 7) (\<lambda>v. Inr (2 * v)) 1)) \<and>
     mon_log s ! 22 = (4, P_Task K_End) \<and> mon_log s ! 40 = (4, P_Task K_End) \<and>
     last_task 4 None (take 22 (mon_log s)) = Some (0, Inr 7, \<lambda>v. Inr (2 * v), 1) \<and>
     last_task 4 None (take 40 (mon_log s)) = Some (0, Inr 7, \<lambda>v. Inl (User_Exn ()), 2)"
  by (simp add: then_demo_run_def sync_run_simps futures_new_def shared_new_def fs_update_def promise_new_def
      fut_then_def)

theorem then_follows_promise_witness:
  "\<exists>s :: (nat, (unit, nat) fut_pc, (unit, nat) futures) fifo_mon.
     mon_log s ! 14 = (4, P_Task (K_Func 0 0 (Inr 7) (\<lambda>v. Inr (2 * v)) 1)) \<and>
     outcomes 0 (take 14 (mon_log s)) = [Inr 7] \<and> outcomes 1 (take 22 (mon_log s)) = [Inr 14] \<and>
     outcomes 2 (take 40 (mon_log s)) = [Inl (User_Exn ())]"
proof -
  obtain s :: "(nat, (unit, nat) fut_pc, (unit, nat) futures) fifo_mon"
    where s: "run (fut_step fifo_sync (\<lambda>_. [])) then_demo_run fut_demo_init = Some s"
    "length (mon_log s) = 41" "mon_log s ! 14 = (4, P_Task (K_Func 0 0 (Inr 7) (\<lambda>v. Inr (2 * v)) 1))"
    "mon_log s ! 22 = (4, P_Task K_End)" "mon_log s ! 40 = (4, P_Task K_End)"
    "last_task 4 None (take 22 (mon_log s)) = Some (0, Inr 7, \<lambda>v. Inr (2 * v), 1)"
    "last_task 4 None (take 40 (mon_log s)) = Some (0, Inr 7, \<lambda>v. Inl (User_Exn ()), 2)"
    using then_demo by (elim exE conjE) (rule that)
  note follows = then_follows_promise [OF fifo_sync_ok run_reach [OF s(1)]]
  have "outcomes 0 (take 14 (mon_log s)) = [Inr 7]"
    using follows [THEN conjunct1, rule_format, OF _ s(3)] s(2) by simp
  moreover have "outcomes 1 (take 22 (mon_log s)) = [Inr 14]"
    using follows [THEN conjunct2, THEN conjunct1, rule_format, OF _ s(4)] s(2,6) by (simp add: then_result_def)
  moreover have "outcomes 2 (take 40 (mon_log s)) = [Inl (User_Exn ())]"
    using follows [THEN conjunct2, THEN conjunct1, rule_format, OF _ s(5)] s(2,7) by (simp add: then_result_def)
  ultimately show ?thesis using s(3) by blast
qed

end
