(* ===== verification/Async_Wait.thy ===== *)
theory Async_Wait
  imports Kernel
begin

text \<open>
  \<open>WaitAll\<close> and \<open>WaitAny\<close> of \<open>src/src/ezthread/async.hpp\<close>, for vectors and for iterators. What they call
  is an argument: the methods of the futures, the clock and \<open>Sleep\<close>, over a state \<open>'w\<close>.
\<close>

section \<open>What the functions call\<close>

text \<open>\<open>wa_now\<close> observes the time in milliseconds; the clock counts it in coarser ticks.\<close>

record ('x, 'f, 'w) wait_api =
  wa_WaitFor :: "'f \<Rightarrow> dword \<Rightarrow> 'w \<Rightarrow> ('x, bool) result \<times> 'w"
  wa_IsReady :: "'f \<Rightarrow> 'w \<Rightarrow> bool \<times> 'w"
  wa_clock :: "'w \<Rightarrow> 64 word"
  wa_sleep :: "dword \<Rightarrow> 'w \<Rightarrow> 'w"
  wa_now :: "'w \<Rightarrow> nat"

text \<open>
  The clock has the resolution \<open>R\<close>; a call of \<open>IsReady\<close> or a \<open>Sleep\<close> of one millisecond takes at most
  \<open>G\<close>, and \<open>WaitFor\<close> with a time-out at most the time-out and \<open>G\<close>; without one (\<open>INFINITE\<close>) it may take
  any time.
\<close>

definition clock_ok :: "nat \<Rightarrow> ('x, 'f, 'w) wait_api \<Rightarrow> bool" where
  "clock_ok R A \<longleftrightarrow> 0 < R \<and> (\<forall>w. wa_clock A w = word_of_nat (R * (wa_now A w div R)))"

definition delays_ok :: "nat \<Rightarrow> ('x, 'f, 'w) wait_api \<Rightarrow> bool" where
  "delays_ok G A \<longleftrightarrow>
     (\<forall>f w b w'. wa_IsReady A f w = (b, w') \<longrightarrow> wa_now A w \<le> wa_now A w' \<and> wa_now A w' \<le> wa_now A w + G) \<and>
     (\<forall>w. wa_now A w < wa_now A (wa_sleep A 1 w) \<and> wa_now A (wa_sleep A 1 w) \<le> wa_now A w + G) \<and>
     (\<forall>f ms w r w'. wa_WaitFor A f ms w = (r, w') \<longrightarrow>
        wa_now A w \<le> wa_now A w' \<and> (ms \<noteq> NO_TIMEOUT \<longrightarrow> wa_now A w' \<le> wa_now A w + unat ms + G))"

section \<open>\<open>WaitAll\<close>\<close>

definition wait_timed_out :: "string \<Rightarrow> 'x exn" where
  "wait_timed_out msg = Thread_Exn msg WAIT_TIMEOUT"

fun WaitAll :: "('x, 'f, 'w) wait_api \<Rightarrow> 'f list \<Rightarrow> dword \<Rightarrow> 'w \<Rightarrow> ('x, unit) result \<times> 'w" where
  "WaitAll A [] timeoutMs w = (Inr (), w)"
| "WaitAll A (future # futures) timeoutMs w =
     (case wa_WaitFor A future timeoutMs w of
        (Inl e, w') \<Rightarrow> (Inl e, w')
      | (Inr ok, w') \<Rightarrow>
          if \<not> ok then (Inl (wait_timed_out ''WaitAll timeout''), w') else WaitAll A futures timeoutMs w')"

text \<open>
  The loop over the indices of the overload with \<open>completed\<close>, which is a vector of its own and
  keeps what was written to it when \<open>WaitFor\<close> throws.
\<close>

function WaitAll_loop ::
  "('x, 'f, 'w) wait_api \<Rightarrow> 'f list \<Rightarrow> dword \<Rightarrow> nat \<Rightarrow> bool \<Rightarrow> bool list \<Rightarrow> 'w \<Rightarrow>
   ('x, bool) result \<times> bool list \<times> 'w" where
  "WaitAll_loop A futures timeoutMs i allCompleted completed w =
     (if i < length futures
      then (case wa_WaitFor A (futures ! i) timeoutMs w of
        (Inl e, w') \<Rightarrow> (Inl e, completed, w')
      | (Inr b, w') \<Rightarrow>
          (let completed' = completed[i := b]
           in WaitAll_loop A futures timeoutMs (Suc i) (if \<not> completed' ! i then False else allCompleted) completed' w'))
      else (Inr allCompleted, completed, w))"
  by pat_completeness auto
termination by (relation "measure (\<lambda>(A, futures, ms, i, rest). length futures - i)") auto

declare WaitAll_loop.simps [simp del]

definition WaitAll_completed ::
  "('x, 'f, 'w) wait_api \<Rightarrow> 'f list \<Rightarrow> dword \<Rightarrow> bool list \<Rightarrow> 'w \<Rightarrow> ('x, bool) result \<times> bool list \<times> 'w" where
  "WaitAll_completed A futures timeoutMs completed w =
     WaitAll_loop A futures timeoutMs 0 True (replicate (length futures) False) w"

section \<open>\<open>WaitAny\<close>\<close>

text \<open>The loops over the futures, without and with the index.\<close>

fun scan_ready :: "('x, 'f, 'w) wait_api \<Rightarrow> 'f list \<Rightarrow> 'w \<Rightarrow> unit option \<times> 'w" where
  "scan_ready A [] w = (None, w)"
| "scan_ready A (future # futures) w =
     (case wa_IsReady A future w of (b, w') \<Rightarrow> if b then (Some (), w') else scan_ready A futures w')"

fun scan_index :: "('x, 'f, 'w) wait_api \<Rightarrow> nat \<Rightarrow> 'f list \<Rightarrow> 'w \<Rightarrow> nat option \<times> 'w" where
  "scan_index A i [] w = (None, w)"
| "scan_index A i (future # futures) w =
     (case wa_IsReady A future w of (b, w') \<Rightarrow> if b then (Some i, w') else scan_index A (Suc i) futures w')"

text \<open>
  The \<open>while (true)\<close> that all overloads share: a scan, the test of the elapsed time as a \<open>DWORD\<close>, and
  a sleep. It gives the result of the scan, or \<open>None\<close> for a time-out.
\<close>

partial_function (option) poll_loop ::
  "('x, 'f, 'w) wait_api \<Rightarrow> ('w \<Rightarrow> ('r option \<times> 'w) option) \<Rightarrow> dword \<Rightarrow> 64 word \<Rightarrow> 'w \<Rightarrow> ('r option \<times> 'w) option" where
  "poll_loop A scan timeoutMs startTime w =
     Option.bind (scan w) (\<lambda>(r, w1).
       if r \<noteq> None then Some (r, w1)
       else if timeoutMs \<le> (ucast (wa_clock A w1 - startTime) :: dword) then Some (None, w1)
       else poll_loop A scan timeoutMs startTime (wa_sleep A 1 w1))"

definition WaitAny :: "('x, 'f, 'w) wait_api \<Rightarrow> 'f list \<Rightarrow> dword \<Rightarrow> 'w \<Rightarrow> (('x, unit) result \<times> 'w) option" where
  "WaitAny A futures timeoutMs w =
     (if futures = [] then Some (Inr (), w)
      else map_option (\<lambda>(r, w'). (case r of None \<Rightarrow> Inl (wait_timed_out ''WaitAny timeout'') | Some u \<Rightarrow> Inr (), w'))
        (poll_loop A (\<lambda>w. Some (scan_ready A futures w)) timeoutMs (wa_clock A w) w))"

text \<open>\<open>static_cast<int>\<close> of an index.\<close>

definition int_of_index :: "nat \<Rightarrow> int" where
  "int_of_index i = sint (word_of_nat i :: 32 word)"

definition any_result :: "nat \<Rightarrow> nat option \<times> 'w \<Rightarrow> int \<times> bool list \<times> 'w" where
  "any_result n = (\<lambda>(r, w).
     case r of None \<Rightarrow> (- 1, replicate n False, w) | Some i \<Rightarrow> (int_of_index i, (replicate n False)[i := True], w))"

definition WaitAny_completed ::
  "('x, 'f, 'w) wait_api \<Rightarrow> 'f list \<Rightarrow> dword \<Rightarrow> bool list \<Rightarrow> 'w \<Rightarrow> (int \<times> bool list \<times> 'w) option" where
  "WaitAny_completed A futures timeoutMs completed w =
     (if futures = [] then Some (- 1, [], w)
      else map_option (any_result (length futures))
        (poll_loop A (\<lambda>w. Some (scan_index A 0 futures w)) timeoutMs (wa_clock A w) w))"

section \<open>The overloads for iterators\<close>

text \<open>An iterator type has an increment and a dereference; a loop over it may never meet its end.\<close>

partial_function (option) it_distance :: "('it \<Rightarrow> 'it) \<Rightarrow> 'it \<Rightarrow> 'it \<Rightarrow> nat option" where
  "it_distance nxt it stop = (if it = stop then Some 0 else Option.bind (it_distance nxt (nxt it) stop) (\<lambda>n. Some (Suc n)))"

partial_function (option) WaitAll_it ::
  "('x, 'f, 'w) wait_api \<Rightarrow> ('it \<Rightarrow> 'it) \<Rightarrow> ('it \<Rightarrow> 'f) \<Rightarrow> 'it \<Rightarrow> 'it \<Rightarrow> dword \<Rightarrow> 'w \<Rightarrow>
   (('x, unit) result \<times> 'w) option" where
  "WaitAll_it A nxt at it stop timeoutMs w =
     (if it = stop then Some (Inr (), w)
      else let (r, w') = wa_WaitFor A (at it) timeoutMs w in
        if \<not> isl r \<and> projr r then WaitAll_it A nxt at (nxt it) stop timeoutMs w'
        else if isl r then Some (Inl (projl r), w')
        else Some (Inl (wait_timed_out ''WaitAll timeout''), w'))"

partial_function (option) WaitAll_it_loop ::
  "('x, 'f, 'w) wait_api \<Rightarrow> ('it \<Rightarrow> 'it) \<Rightarrow> ('it \<Rightarrow> 'f) \<Rightarrow> 'it \<Rightarrow> 'it \<Rightarrow> dword \<Rightarrow> nat \<Rightarrow> bool \<Rightarrow> bool list \<Rightarrow> 'w \<Rightarrow>
   (('x, bool) result \<times> bool list \<times> 'w) option" where
  "WaitAll_it_loop A nxt at it stop timeoutMs idx allCompleted completed w =
     (if it = stop then Some (Inr allCompleted, completed, w)
      else let (r, w') = wa_WaitFor A (at it) timeoutMs w in
        if isl r then Some (Inl (projl r), completed, w')
        else WaitAll_it_loop A nxt at (nxt it) stop timeoutMs (Suc idx)
          (if \<not> completed[idx := projr r] ! idx then False else allCompleted) (completed[idx := projr r]) w')"

definition WaitAll_it_completed ::
  "('x, 'f, 'w) wait_api \<Rightarrow> ('it \<Rightarrow> 'it) \<Rightarrow> ('it \<Rightarrow> 'f) \<Rightarrow> 'it \<Rightarrow> 'it \<Rightarrow> dword \<Rightarrow> bool list \<Rightarrow> 'w \<Rightarrow>
   (('x, bool) result \<times> bool list \<times> 'w) option" where
  "WaitAll_it_completed A nxt at it stop timeoutMs completed w =
     Option.bind (it_distance nxt it stop) (\<lambda>c.
       WaitAll_it_loop A nxt at it stop timeoutMs 0 True (replicate c False) w)"

partial_function (option) scan_it ::
  "('x, 'f, 'w) wait_api \<Rightarrow> ('it \<Rightarrow> 'it) \<Rightarrow> ('it \<Rightarrow> 'f) \<Rightarrow> nat \<Rightarrow> 'it \<Rightarrow> 'it \<Rightarrow> 'w \<Rightarrow> (nat option \<times> 'w) option" where
  "scan_it A nxt at i it stop w =
     (if it = stop then Some (None, w)
      else let (b, w') = wa_IsReady A (at it) w in
        if b then Some (Some i, w') else scan_it A nxt at (Suc i) (nxt it) stop w')"

partial_function (option) scan_it_ready ::
  "('x, 'f, 'w) wait_api \<Rightarrow> ('it \<Rightarrow> 'it) \<Rightarrow> ('it \<Rightarrow> 'f) \<Rightarrow> 'it \<Rightarrow> 'it \<Rightarrow> 'w \<Rightarrow> (unit option \<times> 'w) option" where
  "scan_it_ready A nxt at it stop w =
     (if it = stop then Some (None, w)
      else let (b, w') = wa_IsReady A (at it) w in
        if b then Some (Some (), w') else scan_it_ready A nxt at (nxt it) stop w')"

definition WaitAny_it ::
  "('x, 'f, 'w) wait_api \<Rightarrow> ('it \<Rightarrow> 'it) \<Rightarrow> ('it \<Rightarrow> 'f) \<Rightarrow> 'it \<Rightarrow> 'it \<Rightarrow> dword \<Rightarrow> 'w \<Rightarrow> (('x, unit) result \<times> 'w) option" where
  "WaitAny_it A nxt at it stop timeoutMs w =
     (if it = stop then Some (Inr (), w)
      else map_option (\<lambda>(r, w'). (case r of None \<Rightarrow> Inl (wait_timed_out ''WaitAny timeout'') | Some u \<Rightarrow> Inr (), w'))
        (poll_loop A (scan_it_ready A nxt at it stop) timeoutMs (wa_clock A w) w))"

definition WaitAny_it_completed ::
  "('x, 'f, 'w) wait_api \<Rightarrow> ('it \<Rightarrow> 'it) \<Rightarrow> ('it \<Rightarrow> 'f) \<Rightarrow> 'it \<Rightarrow> 'it \<Rightarrow> dword \<Rightarrow> bool list \<Rightarrow> 'w \<Rightarrow>
   (int \<times> bool list \<times> 'w) option" where
  "WaitAny_it_completed A nxt at it stop timeoutMs completed w =
     (if it = stop then Some (- 1, [], w)
      else Option.bind (it_distance nxt it stop) (\<lambda>c.
        map_option (any_result c) (poll_loop A (scan_it A nxt at 0 it stop) timeoutMs (wa_clock A w) w)))"

section \<open>\<open>WaitAll\<close> with the vector of results\<close>

text \<open>The calls of \<open>WaitFor\<close> one after the other: the exception that ends them, and the results before it.\<close>

fun wait_each :: "('x, 'f, 'w) wait_api \<Rightarrow> dword \<Rightarrow> 'f list \<Rightarrow> 'w \<Rightarrow> 'x exn option \<times> bool list \<times> 'w" where
  "wait_each A ms [] w = (None, [], w)"
| "wait_each A ms (f # fs) w =
     (case wa_WaitFor A f ms w of
        (Inl e, w') \<Rightarrow> (Some e, [], w')
      | (Inr b, w') \<Rightarrow> (case wait_each A ms fs w' of (ex, bs, w'') \<Rightarrow> (ex, b # bs, w'')))"

lemma wait_each_length: "wait_each A ms fs w = (ex, bs, w') \<Longrightarrow> length bs \<le> length fs \<and> (ex = None \<longrightarrow> length bs = length fs)"
  by (induction fs arbitrary: w ex bs) (auto split: prod.splits sum.splits)

lemma WaitAll_loop_each:
  assumes "drop i fs = rest" and "i \<le> length fs" and "completed = pre @ replicate (length rest) False" and "length pre = i"
  shows "WaitAll_loop A fs ms i al completed w =
    (case wait_each A ms rest w of
       (None, bs, w') \<Rightarrow> (Inr (al \<and> list_all id bs), pre @ bs, w')
     | (Some e, bs, w') \<Rightarrow> (Inl e, pre @ bs @ replicate (length rest - length bs) False, w'))"
  using assms
proof (induction rest arbitrary: i al completed pre w)
  case Nil
  then show ?case by (subst WaitAll_loop.simps) simp
next
  case (Cons f rest)
  then have i: "i < length fs" by (metis drop_eq_Nil linorder_not_less list.distinct(1))
  with Cons.prems(1) have f: "fs ! i = f" "drop (Suc i) fs = rest"
    by (metis Cons_nth_drop_Suc list.inject)+
  show ?case
  proof (cases "wa_WaitFor A f ms w")
    case (Pair r w1)
    show ?thesis
    proof (cases r)
      case (Inl e)
      then show ?thesis using i f Pair Cons.prems by (subst WaitAll_loop.simps) simp
    next
      case (Inr b)
      have c: "completed[i := b] = (pre @ [b]) @ replicate (length rest) False" "completed[i := b] ! i = b"
        using Cons.prems(3,4) by (simp_all add: list_update_append nth_append)
      have "WaitAll_loop A fs ms i al completed w =
          WaitAll_loop A fs ms (Suc i) (if \<not> b then False else al) ((pre @ [b]) @ replicate (length rest) False) w1"
        using i f Pair Inr c by (subst WaitAll_loop.simps) (simp add: Let_def)
      also have "\<dots> = (case wait_each A ms rest w1 of
          (None, bs, w') \<Rightarrow> (Inr ((if \<not> b then False else al) \<and> list_all id bs), (pre @ [b]) @ bs, w')
        | (Some e, bs, w') \<Rightarrow> (Inl e, (pre @ [b]) @ bs @ replicate (length rest - length bs) False, w'))"
        by (rule Cons.IH) (use f i Cons.prems in simp_all)
      finally show ?thesis
        using Pair Inr wait_each_length [of A ms rest w1] by (auto split: prod.splits option.splits)
    qed
  qed
qed

lemma wait_each_time:
  assumes "delays_ok G A" and "wait_each A ms fs w = (ex, bs, w')" and "ms \<noteq> NO_TIMEOUT"
  shows "wa_now A w' \<le> wa_now A w + length fs * (unat ms + G)"
  using assms(2)
proof (induction fs arbitrary: w ex bs)
  case (Cons f fs)
  obtain r w1 where r: "wa_WaitFor A f ms w = (r, w1)" by (cases "wa_WaitFor A f ms w")
  have "wa_now A w1 \<le> wa_now A w + unat ms + G" using assms(1,3) r unfolding delays_ok_def by blast
  then show ?case using Cons r by (cases r) (force split: prod.splits)+
qed simp

text \<open>
  C35. The overload of \<open>WaitAll\<close> with results waits for every future once, in order, whatever
  \<open>completed\<close> held before. It returns whether all completed, with the result of each future at
  its index; when a \<open>WaitFor\<close> throws, the results before it stand and the rest are false. Each
  future may use up the whole time-out, so the call takes up to their number times the time-out,
  when there is one.
\<close>

theorem wait_all_completed_each:
  assumes "delays_ok G A"
    and "WaitAll_completed A fs ms old w = (r, completed, w')"
  shows "\<exists>ex bs. wait_each A ms fs w = (ex, bs, w') \<and> length completed = length fs \<and>
    r = (case ex of None \<Rightarrow> Inr (list_all id completed) | Some e \<Rightarrow> Inl e) \<and>
    completed = bs @ replicate (length fs - length bs) False \<and>
    (ms \<noteq> NO_TIMEOUT \<longrightarrow> wa_now A w' \<le> wa_now A w + length fs * (unat ms + G))"
proof -
  obtain ex bs w1 where e: "wait_each A ms fs w = (ex, bs, w1)" by (metis prod_cases3)
  have "WaitAll_completed A fs ms old w =
      (case wait_each A ms fs w of
         (None, bs, w') \<Rightarrow> (Inr (True \<and> list_all id bs), [] @ bs, w')
       | (Some e, bs, w') \<Rightarrow> (Inl e, [] @ bs @ replicate (length fs - length bs) False, w'))"
    unfolding WaitAll_completed_def by (rule WaitAll_loop_each) simp_all
  then show ?thesis using assms(2) e wait_each_length [OF e] wait_each_time [OF assms(1) e] by (cases ex) auto
qed

section \<open>The overloads agree\<close>

fun it_range :: "('it \<Rightarrow> 'it) \<Rightarrow> nat \<Rightarrow> 'it \<Rightarrow> 'it \<Rightarrow> bool" where
  "it_range nxt 0 it stop \<longleftrightarrow> it = stop"
| "it_range nxt (Suc n) it stop \<longleftrightarrow> it \<noteq> stop \<and> it_range nxt n (nxt it) stop"

fun it_list :: "('it \<Rightarrow> 'it) \<Rightarrow> ('it \<Rightarrow> 'f) \<Rightarrow> nat \<Rightarrow> 'it \<Rightarrow> 'f list" where
  "it_list nxt at 0 it = []"
| "it_list nxt at (Suc n) it = at it # it_list nxt at n (nxt it)"

lemma length_it_list [simp]: "length (it_list nxt at n it) = n"
  by (induction n arbitrary: it) auto

lemma it_range_empty: "it_range nxt n it stop \<Longrightarrow> it = stop \<longleftrightarrow> n = 0"
  by (cases n) auto

lemma it_distance: "it_range nxt n it stop \<Longrightarrow> it_distance nxt it stop = Some n"
  by (induction n arbitrary: it) (subst it_distance.simps, simp)+

lemma WaitAll_it: "it_range nxt n it stop \<Longrightarrow> WaitAll_it A nxt at it stop ms w = Some (WaitAll A (it_list nxt at n it) ms w)"
proof (induction n arbitrary: it w)
  case (Suc n)
  then show ?case by (subst WaitAll_it.simps) (auto simp: Let_def split: prod.splits sum.splits)
qed (subst WaitAll_it.simps, simp)

lemma WaitAll_it_loop:
  assumes "it_range nxt n it stop" and "drop i fs = it_list nxt at n it" and "i + n = length fs"
  shows "WaitAll_it_loop A nxt at it stop ms i al completed w = Some (WaitAll_loop A fs ms i al completed w)"
  using assms
proof (induction n arbitrary: it i al completed w)
  case 0
  then show ?case by (subst WaitAll_it_loop.simps, subst WaitAll_loop.simps) simp
next
  case (Suc n)
  then have i: "i < length fs" by simp
  with Suc.prems(2) have f: "fs ! i = at it" "drop (Suc i) fs = it_list nxt at n (nxt it)"
    by (simp_all add: Cons_nth_drop_Suc [symmetric])
  then show ?case
    using Suc.prems(1,3) i Suc.IH [OF _ f(2)]
    by (subst WaitAll_it_loop.simps, subst WaitAll_loop.simps) (auto simp: Let_def split: prod.splits sum.splits)
qed

lemma scan_it: "it_range nxt n it stop \<Longrightarrow> scan_it A nxt at i it stop w = Some (scan_index A i (it_list nxt at n it) w)"
proof (induction n arbitrary: it i w)
  case (Suc n)
  then show ?case by (subst scan_it.simps) (auto simp: Let_def split: prod.splits)
qed (subst scan_it.simps, simp)

lemma scan_it_ready: "it_range nxt n it stop \<Longrightarrow> scan_it_ready A nxt at it stop w = Some (scan_ready A (it_list nxt at n it) w)"
proof (induction n arbitrary: it w)
  case (Suc n)
  then show ?case by (subst scan_it_ready.simps) (auto simp: Let_def split: prod.splits)
qed (subst scan_it_ready.simps, simp)

text \<open>
  On a range of iterators that reaches its end, the four overloads for iterators return and do
  exactly what the overloads for vectors do on the futures of the range.
\<close>

theorem iterator_overloads_agree:
  assumes "it_range nxt n it stop"
  shows "WaitAll_it A nxt at it stop ms w = Some (WaitAll A (it_list nxt at n it) ms w) \<and>
    WaitAll_it_completed A nxt at it stop ms c w = Some (WaitAll_completed A (it_list nxt at n it) ms c w) \<and>
    WaitAny_it A nxt at it stop ms w = WaitAny A (it_list nxt at n it) ms w \<and>
    WaitAny_it_completed A nxt at it stop ms c w = WaitAny_completed A (it_list nxt at n it) ms c w"
proof -
  have "it_list nxt at n it = [] \<longleftrightarrow> it = stop" using it_range_empty [OF assms] by (cases n) auto
  moreover have "scan_it A nxt at 0 it stop = (\<lambda>w. Some (scan_index A 0 (it_list nxt at n it) w))"
    "scan_it_ready A nxt at it stop = (\<lambda>w. Some (scan_ready A (it_list nxt at n it) w))"
    using assms by (simp_all add: fun_eq_iff scan_it scan_it_ready)
  moreover have "WaitAll_it_loop A nxt at it stop ms 0 True (replicate n False) w =
      Some (WaitAll_loop A (it_list nxt at n it) ms 0 True (replicate n False) w)"
    by (rule WaitAll_it_loop [OF assms]) simp_all
  ultimately show ?thesis
    using it_distance [OF assms]
    by (intro conjI WaitAll_it [OF assms]) (simp_all add: WaitAll_it_completed_def WaitAll_completed_def WaitAny_it_def WaitAny_def
        WaitAny_it_completed_def WaitAny_completed_def)
qed

section \<open>\<open>WaitAny\<close> returns\<close>

definition ticks :: "nat \<Rightarrow> ('x, 'f, 'w) wait_api \<Rightarrow> 'w \<Rightarrow> 'w \<Rightarrow> nat" where
  "ticks R A w w' = R * (wa_now A w' div R) - R * (wa_now A w div R)"

lemma elapsed_ticks:
  assumes clk: "clock_ok R A" and le: "wa_now A w \<le> wa_now A w'" and small: "ticks R A w w' < 2 ^ 32"
  shows "unat (ucast (wa_clock A w' - wa_clock A w) :: dword) = ticks R A w w'"
proof -
  have "R * (wa_now A w div R) \<le> R * (wa_now A w' div R)" using le by (simp add: div_le_mono)
  then have "wa_clock A w' - wa_clock A w = word_of_nat (ticks R A w w')"
    using clk by (simp add: clock_ok_def ticks_def of_nat_diff)
  moreover have "(ucast (word_of_nat n :: 64 word) :: dword) = word_of_nat n" for n
    by (simp add: unsigned_of_nat word_of_nat_eq_iff take_bit_take_bit)
  ultimately show ?thesis using small by (simp add: unat_of_nat take_bit_nat_eq_self)
qed

lemma ticks_bounds:
  assumes "0 < R" and "wa_now A w \<le> wa_now A w'"
  shows "ticks R A w w' < wa_now A w' - wa_now A w + R" and "wa_now A w' < wa_now A w + ticks R A w w' + R"
proof -
  have d: "R * (n div R) = n - n mod R" "n mod R < R" "n mod R \<le> n" for n
    using assms(1) by (simp_all add: minus_mod_eq_mult_div)
  have "R * (wa_now A w div R) \<le> R * (wa_now A w' div R)" using assms by (simp add: div_le_mono)
  then show "ticks R A w w' < wa_now A w' - wa_now A w + R" "wa_now A w' < wa_now A w + ticks R A w w' + R"
    using d [of "wa_now A w"] d [of "wa_now A w'"] assms(2) unfolding ticks_def d(1) by linarith+
qed

lemma poll_loop_returns:
  assumes clk: "clock_ok R A" and del: "delays_ok G A"
    and scan: "\<And>w. \<exists>r w'. scan w = Some (r, w') \<and> wa_now A w \<le> wa_now A w' \<and> wa_now A w' \<le> wa_now A w + D"
    and fits: "unat ms + 2 * R + G + D \<le> 2 ^ 32"
    and w: "wa_now A w0 \<le> wa_now A w" "wa_now A w < wa_now A w0 + unat ms + R + G"
  shows "\<exists>r w1 w'. poll_loop A scan ms (wa_clock A w0) w = Some (r, w') \<and> scan w1 = Some (r, w') \<and>
    (r = None \<longrightarrow> unat ms \<le> ticks R A w0 w') \<and> wa_now A w' < wa_now A w0 + unat ms + R + G + D"
  using w
proof (induction "wa_now A w0 + unat ms + R + G - wa_now A w" arbitrary: w rule: less_induct)
  case less
  have R: "0 < R" using clk by (simp add: clock_ok_def)
  obtain r w' where s: "scan w = Some (r, w')" "wa_now A w \<le> wa_now A w'" "wa_now A w' \<le> wa_now A w + D"
    using scan by blast
  have le: "wa_now A w0 \<le> wa_now A w'" using less.prems s by simp
  have small: "ticks R A w0 w' < 2 ^ 32"
    using ticks_bounds(1) [OF R le] less.prems s fits by linarith
  have el: "ms \<le> ucast (wa_clock A w' - wa_clock A w0) \<longleftrightarrow> unat ms \<le> ticks R A w0 w'"
    using elapsed_ticks [OF clk le small] by (simp add: word_le_nat_alt)
  show ?case
  proof (cases "r \<noteq> None \<or> unat ms \<le> ticks R A w0 w'")
    case True
    then have "poll_loop A scan ms (wa_clock A w0) w = Some (r, w')"
      using s el by (subst poll_loop.simps) auto
    then show ?thesis using s True less.prems by force
  next
    case False
    let ?w = "wa_sleep A 1 w'"
    have sl: "wa_now A w' < wa_now A ?w" "wa_now A ?w \<le> wa_now A w' + G"
      using del unfolding delays_ok_def by blast+
    have "wa_now A w' < wa_now A w0 + unat ms + R" using ticks_bounds(2) [OF R le] False by linarith
    then have "\<exists>r w1 w''. poll_loop A scan ms (wa_clock A w0) ?w = Some (r, w'') \<and> scan w1 = Some (r, w'') \<and>
        (r = None \<longrightarrow> unat ms \<le> ticks R A w0 w'') \<and> wa_now A w'' < wa_now A w0 + unat ms + R + G + D"
      by (intro less.hyps) (use sl le less.prems s in linarith)+
    moreover have "poll_loop A scan ms (wa_clock A w0) w = poll_loop A scan ms (wa_clock A w0) ?w"
      using s el False by (subst poll_loop.simps) simp
    ultimately show ?thesis by simp
  qed
qed

lemma scan_index_time:
  assumes "delays_ok G A"
  shows "\<exists>r w'. scan_index A i fs w = (r, w') \<and> wa_now A w \<le> wa_now A w' \<and> wa_now A w' \<le> wa_now A w + length fs * G"
proof (induction fs arbitrary: i w)
  case (Cons f fs)
  obtain b w1 where f: "wa_IsReady A f w = (b, w1)" by (cases "wa_IsReady A f w")
  with assms have "wa_now A w \<le> wa_now A w1 \<and> wa_now A w1 \<le> wa_now A w + G" unfolding delays_ok_def by blast
  with Cons [of "Suc i" w1] f show ?case by (cases b) auto
qed simp

lemma scan_index_range: "scan_index A i fs w = (Some k, w') \<Longrightarrow> i \<le> k \<and> k < i + length fs"
  by (induction fs arbitrary: i w) (force split: prod.splits if_splits)+


section \<open>An instance\<close>

text \<open>A future is the time when it becomes ready, and the state is the time.\<close>

definition sim_wait :: "(unit, nat, nat) wait_api" where
  "sim_wait = \<lparr>
     wa_WaitFor = (\<lambda>f ms w. (Inr (f \<le> w + unat ms), if f \<le> w then w else min f (w + unat ms))),
     wa_IsReady = (\<lambda>f w. (f \<le> w, w)),
     wa_clock = word_of_nat,
     wa_sleep = (\<lambda>ms w. w + unat ms),
     wa_now = (\<lambda>w. w)\<rparr>"

lemma sim_wait_ok [simp]: "clock_ok (Suc 0) sim_wait" "delays_ok (Suc 0) sim_wait"
  by (auto simp: clock_ok_def delays_ok_def sim_wait_def)


lemma wait_all_completed_each_witness:
  "fst (WaitAll_completed sim_wait [150, 300] 100 [] 0) = Inr False \<and>
   fst (snd (WaitAll_completed sim_wait [150, 300] 100 [] 0)) = [False, False] \<and>
   snd (snd (WaitAll_completed sim_wait [150, 300] 100 [] 0)) \<le> 202"
proof -
  obtain r c w where e: "WaitAll_completed sim_wait [150, 300] 100 [] 0 = (r, c, w)" by (metis prod_cases3)
  have "wait_each sim_wait 100 [150, 300] 0 = (None, [False, False], 200)" "wa_now sim_wait w = w"
    by (simp_all add: sim_wait_def)
  then have "r = Inr False \<and> c = [False, False] \<and> w \<le> 202"
    using wait_all_completed_each [OF sim_wait_ok(2) e] by (auto simp: sim_wait_def)
  then show ?thesis by (simp add: e)
qed

lemma iterator_overloads_agree_witness:
  "WaitAll_it sim_wait Suc ((!) [10, 20, 30]) 0 3 25 0 = Some (WaitAll sim_wait [10, 20, 30] 25 0)"
  using iterator_overloads_agree [of Suc 3 0 3 sim_wait "(!) [10, 20, 30]" 25 0 "[]"]
  by (simp add: numeral_3_eq_3)

end
