(* ===== verification/Async_Timer.thy ===== *)
theory Async_Timer
  imports Prelude
begin

text \<open>
  Class \<open>Timer\<close> of \<open>src/src/ezthread/async.hpp\<close> and \<open>async.cpp\<close>. One thread calls the methods, statement
  by statement; the callbacks of the timers of the system run beside it, any number of them.
  What the system does is left to the schedule: which timer that is set expires when, and
  whether a new one can be created.
\<close>

section \<open>Objects, contexts and timers\<close>

record timer_obj =
  tm_timer :: "nat option"
  tm_context :: "nat option"
  tm_running :: bool

text \<open>\<open>TimerContext\<close>: whether \<open>cb\<close> is callable, the object by its address, and \<open>isOneShot\<close>.\<close>

record timer_context =
  tc_cb :: bool
  tc_timer :: nat
  tc_isOneShot :: bool

text \<open>A timer of the system: its context, the due time when it is set, and its period.\<close>

record ptp_timer =
  pt_ctx :: nat
  pt_due :: "64 word option"
  pt_period :: dword

text \<open>
  What follows a call of \<open>Stop\<close>: the return, or the rest of \<open>Start\<close>, of the destructor or of the move
  assignment. The program points of the methods, and those of a callback with its timer and
  its context.
\<close>

datatype after_stop = Then_Return | Then_Start bool dword dword | Then_Destroy | Then_Move nat

datatype ctl_pc =
    TC_Idle
  | TC_Stop nat after_stop
  | TC_Wait nat after_stop
  | TC_Close nat after_stop
  | TC_Reset nat after_stop
  | TC_Create nat bool dword dword
  | TC_Arm nat dword dword
  | TC_Running nat
  | TC_Threw

datatype timer_cb =
    BC_Enter nat nat
  | BC_Call nat nat
  | BC_Test nat nat
  | BC_Lock nat nat
  | BC_End nat
  | BC_Undefined

fun cb_timer :: "timer_cb \<Rightarrow> nat option" where
  "cb_timer (BC_Enter h c) = Some h"
| "cb_timer (BC_Call h c) = Some h"
| "cb_timer (BC_Test h c) = Some h"
| "cb_timer (BC_Lock h c) = Some h"
| "cb_timer (BC_End h) = Some h"
| "cb_timer BC_Undefined = None"

record timers =
  ts_objs :: "nat \<Rightarrow> timer_obj option"
  ts_ctx :: "nat \<Rightarrow> timer_context option"
  ts_ptp :: "nat \<Rightarrow> ptp_timer option"
  ts_next :: nat
  ts_pc :: ctl_pc
  ts_cbs :: "timer_cb list"

definition timers_init :: timers where
  "timers_init = \<lparr>ts_objs = Map.empty, ts_ctx = Map.empty, ts_ptp = Map.empty, ts_next = 0, ts_pc = TC_Idle, ts_cbs = []\<rparr>"

section \<open>The methods\<close>

definition timer_new :: timer_obj where
  "timer_new = \<lparr>tm_timer = None, tm_context = None, tm_running = False\<rparr>"

text \<open>The move constructor, on the other object: the new object and what is left of the other.\<close>

definition timer_move :: "timer_obj \<Rightarrow> timer_obj \<times> timer_obj" where
  "timer_move other = (other, \<lparr>tm_timer = None, tm_context = None, tm_running = False\<rparr>)"

definition timer_IsRunning :: "timer_obj \<Rightarrow> bool" where
  "timer_IsRunning ob = tm_running ob"

text \<open>The relative due time in units of 100 nanoseconds.\<close>

definition timer_due :: "dword \<Rightarrow> 64 word" where
  "timer_due dueTimeMs = - (ucast dueTimeMs) * 10000"

text \<open>The signed value is exact for every argument: no product overflows.\<close>

lemma timer_due_exact: "sint (timer_due ms) = - 10000 * int (unat ms)"
proof -
  have "uint ms < 2 ^ 32" using unsigned_less [of ms, where ?'a = int] by simp
  then have low: "- (2 ^ 63) \<le> - 10000 * int (unat ms)" by simp
  have "- 10000 * int (unat ms) \<le> 0" by simp
  also have "(0 :: int) < 2 ^ 63" by simp
  finally have high: "- 10000 * int (unat ms) < 2 ^ 63" .
  have due: "timer_due ms = word_of_int (- 10000 * int (unat ms))" by (simp add: timer_due_def)
  have "signed_take_bit 63 (- 10000 * int (unat ms)) = - 10000 * int (unat ms)"
    by (rule signed_take_bit_int_eq_self [OF low high])
  then show ?thesis unfolding due sint_sbintrunc' by simp
qed

definition put_obj :: "nat \<Rightarrow> timer_obj \<Rightarrow> timers \<Rightarrow> timers" where
  "put_obj x ob s = s\<lparr>ts_objs := (ts_objs s)(x \<mapsto> ob)\<rparr>"

definition free_ctx :: "nat option \<Rightarrow> timers \<Rightarrow> timers" where
  "free_ctx c s = (case c of None \<Rightarrow> s | Some n \<Rightarrow> s\<lparr>ts_ctx := (ts_ctx s)(n := None)\<rparr>)"

text \<open>
  \<open>Stop\<close>: the timer is cleared with \<open>SetThreadpoolTimer\<close>; \<open>WaitForThreadpoolTimerCallbacks\<close> blocks while a
  callback of the timer runs; the timer is closed; under the mutex \<open>m_running\<close> and \<open>m_context\<close> are
  reset. After \<open>Stop\<close> the destructor frees the object, \<open>Start\<close> goes on, and the move assignment
  takes over the members of the other object.
\<close>

definition stop_step :: "nat \<Rightarrow> after_stop \<Rightarrow> timer_obj \<Rightarrow> timers \<Rightarrow> timers" where
  "stop_step x k ob s =
     (case tm_timer ob of
        None \<Rightarrow> s\<lparr>ts_pc := TC_Reset x k\<rparr>
      | Some h \<Rightarrow> s\<lparr>ts_ptp := (ts_ptp s)(h := map_option (pt_due_update (\<lambda>_. None)) (ts_ptp s h)), ts_pc := TC_Wait x k\<rparr>)"

definition wait_step :: "nat \<Rightarrow> after_stop \<Rightarrow> timer_obj \<Rightarrow> timers \<Rightarrow> timers option" where
  "wait_step x k ob s =
     (if list_all (\<lambda>b. cb_timer b = None \<or> cb_timer b \<noteq> tm_timer ob) (ts_cbs s)
      then Some (s\<lparr>ts_pc := TC_Close x k\<rparr>) else None)"

definition close_step :: "nat \<Rightarrow> after_stop \<Rightarrow> timer_obj \<Rightarrow> timers \<Rightarrow> timers" where
  "close_step x k ob s =
     (put_obj x (ob\<lparr>tm_timer := None\<rparr>)
        (case tm_timer ob of None \<Rightarrow> s | Some h \<Rightarrow> s\<lparr>ts_ptp := (ts_ptp s)(h := None)\<rparr>))\<lparr>ts_pc := TC_Reset x k\<rparr>"

definition stopped :: "nat \<Rightarrow> after_stop \<Rightarrow> timers \<Rightarrow> timers" where
  "stopped x k s =
     (case k of
        Then_Return \<Rightarrow> s\<lparr>ts_pc := TC_Idle\<rparr>
      | Then_Start cb due period \<Rightarrow> s\<lparr>ts_pc := TC_Create x cb due period\<rparr>
      | Then_Destroy \<Rightarrow> s\<lparr>ts_objs := (ts_objs s)(x := None), ts_pc := TC_Idle\<rparr>
      | Then_Move y \<Rightarrow>
          (case ts_objs s y of
             None \<Rightarrow> s\<lparr>ts_pc := TC_Idle\<rparr>
           | Some other \<Rightarrow> (case timer_move other of
               (ob, other') \<Rightarrow> (put_obj y other' (put_obj x ob s))\<lparr>ts_pc := TC_Idle\<rparr>)))"

definition reset_step :: "nat \<Rightarrow> after_stop \<Rightarrow> timer_obj \<Rightarrow> timers \<Rightarrow> timers" where
  "reset_step x k ob s =
     stopped x k (put_obj x (ob\<lparr>tm_running := False, tm_context := None\<rparr>) (free_ctx (tm_context ob) s))"

text \<open>
  The rest of \<open>Start\<close>: the context and the timer, which may fail; \<open>SetThreadpoolTimer\<close>; and \<open>m_running\<close>
  under the mutex, after the timer has been set.
\<close>

definition create_step :: "bool \<Rightarrow> nat \<Rightarrow> bool \<Rightarrow> dword \<Rightarrow> dword \<Rightarrow> timer_obj \<Rightarrow> timers \<Rightarrow> timers" where
  "create_step created x cb due period ob s =
     (let n = ts_next s;
          s1 = s\<lparr>ts_ctx := (ts_ctx s)(n \<mapsto> \<lparr>tc_cb = cb, tc_timer = x, tc_isOneShot = (period = 0)\<rparr>), ts_next := Suc n\<rparr>
      in if \<not> created
         then (put_obj x (ob\<lparr>tm_timer := None, tm_context := None\<rparr>) (free_ctx (Some n) s1))\<lparr>ts_pc := TC_Threw\<rparr>
         else (put_obj x (ob\<lparr>tm_timer := Some n, tm_context := Some n\<rparr>)
           (s1\<lparr>ts_ptp := (ts_ptp s1)(n \<mapsto> \<lparr>pt_ctx = n, pt_due = None, pt_period = 0\<rparr>)\<rparr>))\<lparr>ts_pc := TC_Arm x due period\<rparr>)"

definition arm_step :: "nat \<Rightarrow> dword \<Rightarrow> dword \<Rightarrow> timer_obj \<Rightarrow> timers \<Rightarrow> timers" where
  "arm_step x due period ob s =
     (case tm_timer ob of
        None \<Rightarrow> s\<lparr>ts_pc := TC_Running x\<rparr>
      | Some h \<Rightarrow> s\<lparr>ts_ptp := (ts_ptp s)(h :=
          map_option (\<lambda>p. p\<lparr>pt_due := Some (timer_due due), pt_period := period\<rparr>) (ts_ptp s h)), ts_pc := TC_Running x\<rparr>)"

definition running_step :: "nat \<Rightarrow> timer_obj \<Rightarrow> timers \<Rightarrow> timers" where
  "running_step x ob s = (put_obj x (ob\<lparr>tm_running := True\<rparr>) s)\<lparr>ts_pc := TC_Idle\<rparr>"

fun ctl_step :: "bool \<Rightarrow> ctl_pc \<Rightarrow> timers \<Rightarrow> timers option" where
  "ctl_step created (TC_Stop x k) s = map_option (\<lambda>ob. stop_step x k ob s) (ts_objs s x)"
| "ctl_step created (TC_Wait x k) s = Option.bind (ts_objs s x) (\<lambda>ob. wait_step x k ob s)"
| "ctl_step created (TC_Close x k) s = map_option (\<lambda>ob. close_step x k ob s) (ts_objs s x)"
| "ctl_step created (TC_Reset x k) s = map_option (\<lambda>ob. reset_step x k ob s) (ts_objs s x)"
| "ctl_step created (TC_Create x cb due period) s = map_option (\<lambda>ob. create_step created x cb due period ob s) (ts_objs s x)"
| "ctl_step created (TC_Arm x due period) s = map_option (\<lambda>ob. arm_step x due period ob s) (ts_objs s x)"
| "ctl_step created (TC_Running x) s = map_option (\<lambda>ob. running_step x ob s) (ts_objs s x)"
| "ctl_step created _ s = None"

text \<open>
  \<open>TimerCallback\<close>: the test of the context and its function, the call (whose exceptions are
  suppressed), the test of \<open>isOneShot\<close>, and \<open>m_running\<close> of the object of the context under its
  mutex. A context or an object that is gone is undefined behaviour.
\<close>

fun cb_next :: "timer_cb \<Rightarrow> timers \<Rightarrow> timer_cb option" where
  "cb_next (BC_Enter h c) s = Some (case ts_ctx s c of None \<Rightarrow> BC_Undefined
     | Some x \<Rightarrow> if tc_cb x then BC_Call h c else BC_End h)"
| "cb_next (BC_Call h c) s = Some (case ts_ctx s c of None \<Rightarrow> BC_Undefined | Some x \<Rightarrow> BC_Test h c)"
| "cb_next (BC_Test h c) s = Some (case ts_ctx s c of None \<Rightarrow> BC_Undefined
     | Some x \<Rightarrow> if tc_isOneShot x then BC_Lock h c else BC_End h)"
| "cb_next (BC_Lock h c) s = Some (case ts_ctx s c of None \<Rightarrow> BC_Undefined
     | Some x \<Rightarrow> if ts_objs s (tc_timer x) = None then BC_Undefined else BC_End h)"
| "cb_next (BC_End h) s = None"
| "cb_next BC_Undefined s = Some BC_Undefined"

fun cb_writes :: "timer_cb \<Rightarrow> timers \<Rightarrow> timers" where
  "cb_writes (BC_Lock h c) s =
     (case ts_ctx s c of
        None \<Rightarrow> s
      | Some x \<Rightarrow> (case ts_objs s (tc_timer x) of
          None \<Rightarrow> s
        | Some ob \<Rightarrow> put_obj (tc_timer x) (ob\<lparr>tm_running := False\<rparr>) s))"
| "cb_writes _ s = s"

definition cb_step :: "nat \<Rightarrow> timers \<Rightarrow> timers option" where
  "cb_step i s =
     (if i < length (ts_cbs s)
      then Some ((cb_writes (ts_cbs s ! i) s)\<lparr>ts_cbs := (case cb_next (ts_cbs s ! i) s of
        None \<Rightarrow> take i (ts_cbs s) @ drop (Suc i) (ts_cbs s)
      | Some b \<Rightarrow> (ts_cbs s)[i := b])\<rparr>)
      else None)"

section \<open>The system\<close>

datatype timer_call =
    Call_Construct nat
  | Call_Start nat bool dword dword
  | Call_SetOneShot nat bool dword
  | Call_Stop nat
  | Call_Destroy nat
  | Call_Move nat nat
  | Call_Move_Assign nat nat

text \<open>The first program point of a call on objects that exist; a constructor takes one step.\<close>

fun call_step :: "timer_call \<Rightarrow> timers \<Rightarrow> timers option" where
  "call_step (Call_Construct x) s = (if ts_objs s x = None then Some (put_obj x timer_new s) else None)"
| "call_step (Call_Start x cb due period) s =
     (if ts_objs s x = None then None else Some (s\<lparr>ts_pc := TC_Stop x (Then_Start cb due period)\<rparr>))"
| "call_step (Call_SetOneShot x cb due) s =
     (if ts_objs s x = None then None else Some (s\<lparr>ts_pc := TC_Stop x (Then_Start cb due 0)\<rparr>))"
| "call_step (Call_Stop x) s = (if ts_objs s x = None then None else Some (s\<lparr>ts_pc := TC_Stop x Then_Return\<rparr>))"
| "call_step (Call_Destroy x) s = (if ts_objs s x = None then None else Some (s\<lparr>ts_pc := TC_Stop x Then_Destroy\<rparr>))"
| "call_step (Call_Move x y) s =
     (case ts_objs s y of
        None \<Rightarrow> None
      | Some other \<Rightarrow> if ts_objs s x = None
          then (case timer_move other of (ob, other') \<Rightarrow> Some (put_obj y other' (put_obj x ob s))) else None)"
| "call_step (Call_Move_Assign x y) s =
     (if ts_objs s x = None \<or> ts_objs s y = None then None
      else if x = y then Some s else Some (s\<lparr>ts_pc := TC_Stop x (Then_Move y)\<rparr>))"

datatype timer_label = L_Call timer_call | L_Ctl bool | L_Fire nat | L_Cb nat

text \<open>A timer that is set expires: a callback begins, and a timer without period is not set any more.\<close>

fun timer_step :: "timer_label \<Rightarrow> timers \<Rightarrow> timers option" where
  "timer_step (L_Call c) s =
     (if ts_pc s = TC_Idle \<or> ts_pc s = TC_Threw then call_step c (s\<lparr>ts_pc := TC_Idle\<rparr>) else None)"
| "timer_step (L_Ctl created) s = ctl_step created (ts_pc s) s"
| "timer_step (L_Fire h) s =
     (case ts_ptp s h of
        None \<Rightarrow> None
      | Some p \<Rightarrow>
          if pt_due p = None then None
          else Some (s\<lparr>ts_cbs := ts_cbs s @ [BC_Enter h (pt_ctx p)],
            ts_ptp := (ts_ptp s)(h \<mapsto> (if pt_period p = 0 then p\<lparr>pt_due := None\<rparr> else p))\<rparr>))"
| "timer_step (L_Cb i) s = cb_step i s"

text \<open>Schedules that move no object.\<close>

fun moves :: "timer_label \<Rightarrow> bool" where
  "moves (L_Call (Call_Move x y)) \<longleftrightarrow> True"
| "moves (L_Call (Call_Move_Assign x y)) \<longleftrightarrow> True"
| "moves _ \<longleftrightarrow> False"

definition unmoved_step :: "timer_label \<Rightarrow> timers \<Rightarrow> timers option" where
  "unmoved_step l s = (if moves l then None else timer_step l s)"

lemmas timer_run_simps = timers_init_def timer_new_def put_obj_def free_ctx_def stop_step_def wait_step_def
  close_step_def reset_step_def stopped_def create_step_def arm_step_def running_step_def cb_step_def Let_def
  unmoved_step_def timer_move_def

section \<open>Schedules that go wrong\<close>

text \<open>
  A one-shot timer can be reported as running for ever: its callback may run to its end
  between \<open>SetThreadpoolTimer\<close> and the statement of \<open>Start\<close> that sets \<open>m_running\<close>. Then the timer is not
  set any more and no callback is left that would reset the flag.
\<close>

theorem one_shot_stays_running:
  "\<exists>s ob. run timer_step [L_Call (Call_Construct 0), L_Call (Call_SetOneShot 0 True 0), L_Ctl True, L_Ctl True, L_Ctl True, L_Ctl True,
      L_Fire 0, L_Cb 0, L_Cb 0, L_Cb 0, L_Cb 0, L_Cb 0, L_Ctl True] timers_init = Some s \<and>
    ts_pc s = TC_Idle \<and> ts_cbs s = [] \<and> ts_objs s 0 = Some ob \<and> timer_IsRunning ob \<and>
    (\<forall>h. case ts_ptp s h of None \<Rightarrow> True | Some p \<Rightarrow> pt_due p = None)"
  by (simp add: timer_run_simps timer_IsRunning_def)

text \<open>
  A timer that is moved leaves a context that points to the old object: when the one-shot timer
  expires, the new object stays running; and when the old object is gone, its callback uses it.
\<close>

lemma moved_timer_stays_running:
  "\<exists>s ob. run timer_step [L_Call (Call_Construct 0), L_Call (Call_SetOneShot 0 True 5), L_Ctl True, L_Ctl True, L_Ctl True, L_Ctl True,
      L_Ctl True, L_Call (Call_Move 1 0), L_Fire 0, L_Cb 0, L_Cb 0, L_Cb 0, L_Cb 0, L_Cb 0] timers_init = Some s \<and>
    ts_pc s = TC_Idle \<and> ts_cbs s = [] \<and> ts_objs s 1 = Some ob \<and> timer_IsRunning ob \<and>
    (\<forall>h p. ts_ptp s h = Some p \<longrightarrow> pt_due p = None)"
  by (simp add: timer_run_simps timer_IsRunning_def)

lemma moved_timer_dangles:
  "\<exists>s. run timer_step [L_Call (Call_Construct 0), L_Call (Call_SetOneShot 0 True 5), L_Ctl True, L_Ctl True, L_Ctl True, L_Ctl True,
      L_Ctl True, L_Call (Call_Move 1 0), L_Call (Call_Destroy 0), L_Ctl True, L_Ctl True, L_Fire 0, L_Cb 0, L_Cb 0, L_Cb 0, L_Cb 0]
      timers_init = Some s \<and> ts_cbs s = [BC_Undefined]"
  by (simp add: timer_run_simps)

section \<open>The invariant\<close>

definition obj_ok :: "timers \<Rightarrow> nat \<Rightarrow> timer_obj \<Rightarrow> bool" where
  "obj_ok s x ob \<longleftrightarrow>
     (\<forall>c. tm_context ob = Some c \<longrightarrow> (\<exists>cc. ts_ctx s c = Some cc \<and> tc_timer cc = x)) \<and>
     (\<forall>h. tm_timer ob = Some h \<longrightarrow> tm_context ob = Some h \<and> (\<exists>p. ts_ptp s h = Some p \<and> pt_ctx p = h))"

fun cb_own :: "timers \<Rightarrow> timer_cb \<Rightarrow> bool" where
  "cb_own s (BC_Enter h c) \<longleftrightarrow> c = h"
| "cb_own s (BC_Call h c) \<longleftrightarrow> c = h"
| "cb_own s (BC_Test h c) \<longleftrightarrow> c = h"
| "cb_own s (BC_Lock h c) \<longleftrightarrow> c = h \<and> (\<exists>cc. ts_ctx s h = Some cc \<and> tc_isOneShot cc)"
| "cb_own s (BC_End h) \<longleftrightarrow> True"
| "cb_own s BC_Undefined \<longleftrightarrow> False"

definition owned :: "timers \<Rightarrow> nat \<Rightarrow> bool" where
  "owned s h \<longleftrightarrow> (\<exists>x ob. ts_objs s x = Some ob \<and> tm_timer ob = Some h)"

definition cb_ok :: "timers \<Rightarrow> timer_cb \<Rightarrow> bool" where
  "cb_ok s b \<longleftrightarrow> cb_own s b \<and> (\<forall>h. cb_timer b = Some h \<longrightarrow> owned s h)"

text \<open>An object between two calls: not running without a timer, running with a periodic one.\<close>

definition settled :: "timers \<Rightarrow> timer_obj \<Rightarrow> bool" where
  "settled s ob \<longleftrightarrow> (tm_timer ob = None \<longrightarrow> \<not> tm_running ob \<and> tm_context ob = None) \<and>
     (\<forall>h cc. tm_timer ob = Some h \<longrightarrow> ts_ctx s h = Some cc \<longrightarrow> \<not> tc_isOneShot cc \<longrightarrow> tm_running ob)"

definition settled_but :: "timers \<Rightarrow> nat option \<Rightarrow> bool" where
  "settled_but s z \<longleftrightarrow> (\<forall>x ob. ts_objs s x = Some ob \<longrightarrow> Some x \<noteq> z \<longrightarrow> settled s ob)"

definition not_set :: "timers \<Rightarrow> nat \<Rightarrow> bool" where
  "not_set s h \<longleftrightarrow> (\<exists>p. ts_ptp s h = Some p \<and> pt_due p = None)"

definition no_cb :: "timers \<Rightarrow> nat \<Rightarrow> bool" where
  "no_cb s h \<longleftrightarrow> (\<forall>b\<in>set (ts_cbs s). cb_timer b \<noteq> Some h)"

fun stays :: "after_stop \<Rightarrow> bool" where
  "stays (Then_Move y) \<longleftrightarrow> False"
| "stays _ \<longleftrightarrow> True"

fun ctl_ok :: "timers \<Rightarrow> ctl_pc \<Rightarrow> bool" where
  "ctl_ok s (TC_Stop x k) \<longleftrightarrow> stays k \<and> ts_objs s x \<noteq> None \<and> settled_but s None"
| "ctl_ok s (TC_Wait x k) \<longleftrightarrow> stays k \<and> settled_but s None \<and>
     (\<exists>ob h. ts_objs s x = Some ob \<and> tm_timer ob = Some h \<and> not_set s h)"
| "ctl_ok s (TC_Close x k) \<longleftrightarrow> stays k \<and> settled_but s None \<and>
     (\<exists>ob h. ts_objs s x = Some ob \<and> tm_timer ob = Some h \<and> not_set s h \<and> no_cb s h)"
| "ctl_ok s (TC_Reset x k) \<longleftrightarrow> stays k \<and> settled_but s (Some x) \<and>
     (\<exists>ob. ts_objs s x = Some ob \<and> tm_timer ob = None)"
| "ctl_ok s (TC_Create x cb due period) \<longleftrightarrow> settled_but s None \<and>
     (\<exists>ob. ts_objs s x = Some ob \<and> tm_timer ob = None)"
| "ctl_ok s (TC_Arm x due period) \<longleftrightarrow> settled_but s (Some x) \<and>
     (\<exists>ob h. ts_objs s x = Some ob \<and> tm_timer ob = Some h)"
| "ctl_ok s (TC_Running x) \<longleftrightarrow> settled_but s (Some x) \<and>
     (\<exists>ob h. ts_objs s x = Some ob \<and> tm_timer ob = Some h)"
| "ctl_ok s TC_Idle \<longleftrightarrow> settled_but s None"
| "ctl_ok s TC_Threw \<longleftrightarrow> settled_but s None"

definition timer_inv :: "timers \<Rightarrow> bool" where
  "timer_inv s \<longleftrightarrow>
     (\<forall>x ob. ts_objs s x = Some ob \<longrightarrow> obj_ok s x ob) \<and>
     (\<forall>h. ts_ptp s h \<noteq> None \<longrightarrow> owned s h) \<and>
     (\<forall>n. ts_next s \<le> n \<longrightarrow> ts_ctx s n = None \<and> ts_ptp s n = None) \<and>
     (\<forall>b\<in>set (ts_cbs s). cb_ok s b) \<and> ctl_ok s (ts_pc s)"

lemma timer_invI:
  assumes "\<And>x ob. ts_objs s x = Some ob \<Longrightarrow> obj_ok s x ob"
    and "\<And>h. ts_ptp s h \<noteq> None \<Longrightarrow> owned s h"
    and "\<And>n. ts_next s \<le> n \<Longrightarrow> ts_ctx s n = None \<and> ts_ptp s n = None"
    and "\<And>b. b \<in> set (ts_cbs s) \<Longrightarrow> cb_ok s b" and "ctl_ok s (ts_pc s)"
  shows "timer_inv s"
  using assms unfolding timer_inv_def by blast

lemma timer_invD:
  assumes "timer_inv s"
  shows "ts_objs s x = Some ob \<Longrightarrow> obj_ok s x ob"
    and "ts_ptp s h \<noteq> None \<Longrightarrow> owned s h"
    and "ts_next s \<le> n \<Longrightarrow> ts_ctx s n = None \<and> ts_ptp s n = None"
    and "b \<in> set (ts_cbs s) \<Longrightarrow> cb_ok s b" and "ctl_ok s (ts_pc s)"
  using assms unfolding timer_inv_def by blast+

lemma owner_unique:
  assumes "timer_inv s" and "ts_objs s x = Some ob" "ts_objs s y = Some ob'"
    and "tm_context ob = Some c" "tm_context ob' = Some c"
  shows "x = y"
  using timer_invD(1) [OF assms(1,2)] timer_invD(1) [OF assms(1,3)] assms(4,5) by (auto simp: obj_ok_def)

lemma timer_context:
  assumes "timer_inv s" and "ts_objs s x = Some ob" and "tm_timer ob = Some h"
  shows "tm_context ob = Some h"
  using timer_invD(1) [OF assms(1,2)] assms(3) by (simp add: obj_ok_def)

lemma inv_call:
  assumes inv: "timer_inv s" and st: "unmoved_step (L_Call c) s = Some s'"
  shows "timer_inv s'"
proof -
  have pc: "ts_pc s = TC_Idle \<or> ts_pc s = TC_Threw" using st by (auto simp: unmoved_step_def split: if_splits)
  then have all: "settled_but s None" using timer_invD(5) [OF inv] by auto
  show ?thesis
  proof (cases "\<exists>x. c = Call_Construct x")
    case True
    then obtain x where x: "c = Call_Construct x" by blast
    have new: "ts_objs s x = None" and s': "s' = s\<lparr>ts_pc := TC_Idle, ts_objs := (ts_objs s)(x \<mapsto> timer_new)\<rparr>"
      using st x pc by (auto simp: unmoved_step_def put_obj_def split: if_splits)
    have own: "owned s' h" if owned: "owned s h" for h
    proof -
      obtain y ob where y: "ts_objs s y = Some ob" "tm_timer ob = Some h" using owned by (auto simp: owned_def)
      with new have "y \<noteq> x" by auto
      with y show ?thesis by (auto simp: owned_def s')
    qed
    have cb: "cb_ok s' b" if "cb_ok s b" for b using that own by (cases b) (auto simp: cb_ok_def s')
    show ?thesis
      by (rule timer_invI) (use timer_invD [OF inv] own cb all in
        \<open>auto simp: s' obj_ok_def timer_new_def settled_but_def settled_def split: if_splits\<close>)
  next
    case False
    then obtain pc' where s': "s' = s\<lparr>ts_pc := pc'\<rparr>" "ctl_ok s pc'"
      using st pc all by (cases c) (auto simp: unmoved_step_def split: if_splits)
    have "cb_ok s' b = cb_ok s b" for b by (cases b) (simp_all add: cb_ok_def owned_def s')
    moreover have "ctl_ok s' pc' = ctl_ok s pc'"
      by (cases pc') (simp_all add: s' settled_but_def settled_def not_set_def no_cb_def)
    ultimately show ?thesis
      using s'(2) by (intro timer_invI) (use timer_invD [OF inv] in \<open>auto simp: s' obj_ok_def owned_def\<close>)
  qed
qed

lemma inv_fire:
  assumes inv: "timer_inv s" and st: "timer_step (L_Fire h) s = Some s'"
  shows "timer_inv s'"
proof -
  from st obtain p where p: "ts_ptp s h = Some p" "pt_due p \<noteq> None" by (auto split: option.splits if_splits)
  have own: "owned s h" using timer_invD(2) [OF inv, of h] p by simp
  then have ctx: "pt_ctx p = h" using timer_invD(1) [OF inv] p by (fastforce simp: owned_def obj_ok_def)
  define p' where "p' = (if pt_period p = 0 then p\<lparr>pt_due := None\<rparr> else p)"
  have s': "s' = s\<lparr>ts_cbs := ts_cbs s @ [BC_Enter h h], ts_ptp := (ts_ptp s)(h \<mapsto> p')\<rparr>"
    using st p ctx by (auto simp: p'_def)
  have p'c: "pt_ctx p' = h" using ctx by (simp add: p'_def)
  have own': "owned s' g = owned s g" for g by (simp add: owned_def s')
  have cb: "cb_ok s' b = cb_ok s b" for b by (cases b) (simp_all add: cb_ok_def own', simp_all add: s')
  have sb: "settled_but s' z = settled_but s z" for z by (simp add: settled_but_def settled_def s')
  have objs: "ts_objs s' = ts_objs s" by (simp add: s')
  have ns: "not_set s' g" "g \<noteq> h" if "not_set s g" for g using that p by (auto simp: not_set_def s')
  have nc: "no_cb s' g" if "no_cb s g" "g \<noteq> h" for g using that by (auto simp: no_cb_def s')
  show ?thesis
  proof (rule timer_invI)
    show "cb_ok s' b" if "b \<in> set (ts_cbs s')" for b
      using that timer_invD(4) [OF inv, of b] own by (auto simp: s' cb [unfolded s']) (auto simp: cb_ok_def owned_def)
    have "ctl_ok s' (ts_pc s)"
      using timer_invD(5) [OF inv] ns nc objs by (cases "ts_pc s") (fastforce simp: sb)+
    then show "ctl_ok s' (ts_pc s')" by (simp add: s')
    show "owned s' g" if "ts_ptp s' g \<noteq> None" for g
      unfolding own' using that own timer_invD(2) [OF inv, of g] by (auto simp: s' split: if_splits)
    show "ts_ctx s' n = None \<and> ts_ptp s' n = None" if "ts_next s' \<le> n" for n
      using that timer_invD(3) [OF inv, of n] p by (auto simp: s')
    show "obj_ok s' x ob" if "ts_objs s' x = Some ob" for x ob
      using that timer_invD(1) [OF inv, of x ob] p'c by (auto simp: s' obj_ok_def)
  qed
qed

lemma put_obj_simps [simp]:
  "ts_objs (put_obj x ob s) = (ts_objs s)(x \<mapsto> ob)" "ts_ctx (put_obj x ob s) = ts_ctx s"
  "ts_ptp (put_obj x ob s) = ts_ptp s" "ts_next (put_obj x ob s) = ts_next s"
  "ts_pc (put_obj x ob s) = ts_pc s" "ts_cbs (put_obj x ob s) = ts_cbs s"
  by (simp_all add: put_obj_def)

lemma owned_put:
  "owned (put_obj x ob s) h \<longleftrightarrow>
     tm_timer ob = Some h \<or> (\<exists>y ob'. y \<noteq> x \<and> ts_objs s y = Some ob' \<and> tm_timer ob' = Some h)"
proof -
  have "ts_objs (put_obj x ob s) y = (if y = x then Some ob else ts_objs s y)" for y by (simp add: put_obj_def)
  then show ?thesis unfolding owned_def by (metis option.inject)
qed

lemma owned_put_same: "ts_objs s x = Some ob \<Longrightarrow> tm_timer ob' = tm_timer ob \<Longrightarrow> owned (put_obj x ob' s) h = owned s h"
  unfolding owned_put by (unfold owned_def, metis option.inject)

lemma cb_ok_timer: "cb_ok s b \<Longrightarrow> \<exists>h. cb_timer b = Some h"
  by (cases b) (auto simp: cb_ok_def)

lemma cb_ok_frame:
  assumes "cb_ok s b" and "\<And>h. owned s h \<Longrightarrow> owned s' h" and "\<And>h. owned s h \<Longrightarrow> ts_ctx s' h = ts_ctx s h"
  shows "cb_ok s' b"
  using assms by (cases b) (auto simp: cb_ok_def)

lemma inv_cbs:
  assumes inv: "timer_inv s"
    and new: "\<And>b. b \<in> set bs \<Longrightarrow> cb_ok s b \<and> (\<forall>h. cb_timer b = Some h \<longrightarrow> (\<exists>b0\<in>set (ts_cbs s). cb_timer b0 = Some h))"
  shows "timer_inv (s\<lparr>ts_cbs := bs\<rparr>)" (is "timer_inv ?s")
proof -
  have cb: "cb_ok ?s b = cb_ok s b" for b by (cases b) (simp_all add: cb_ok_def owned_def)
  have sb: "settled_but ?s z = settled_but s z" for z by (simp add: settled_but_def settled_def)
  have ns: "not_set ?s h = not_set s h" for h by (simp add: not_set_def)
  have nc: "no_cb ?s h" if "no_cb s h" for h using that new by (fastforce simp: no_cb_def)
  have "ctl_ok ?s (ts_pc s)"
    using timer_invD(5) [OF inv] nc by (cases "ts_pc s") (fastforce simp: sb ns)+
  then show ?thesis
    by (intro timer_invI) (use timer_invD [OF inv] new in \<open>auto simp: cb obj_ok_def owned_def\<close>)
qed

lemma inv_flag:
  assumes inv: "timer_inv s" and x: "ts_objs s x = Some ob" "tm_timer ob = Some h"
    and one: "ts_ctx s h = Some cc" "tc_isOneShot cc"
  shows "timer_inv (put_obj x (ob\<lparr>tm_running := False\<rparr>) s)" (is "timer_inv ?s")
proof -
  have own: "owned ?s g = owned s g" for g by (rule owned_put_same [OF x(1)]) simp
  have cb: "cb_ok ?s b = cb_ok s b" for b by (cases b) (simp_all add: cb_ok_def own)
  have sb: "settled_but ?s z" if "settled_but s z" for z
    using that x one by (auto simp: settled_but_def settled_def)
  have ob: "\<exists>ob'. ts_objs ?s y = Some ob' \<and> tm_timer ob' = tm_timer ob1" if "ts_objs s y = Some ob1" for y ob1
    using that x by auto
  have ns: "not_set ?s g = not_set s g" "no_cb ?s g = no_cb s g" for g by (simp_all add: not_set_def no_cb_def)
  have "ctl_ok ?s (ts_pc s)"
    using timer_invD(5) [OF inv] sb ob by (cases "ts_pc s") (fastforce simp: ns simp del: put_obj_simps)+
  moreover have "obj_ok ?s y ob'" if "ts_objs ?s y = Some ob'" for y ob'
    using that timer_invD(1) [OF inv] x(1) by (auto simp: obj_ok_def split: if_splits)
  ultimately show ?thesis
    using timer_invD(2,3,4) [OF inv] by (intro timer_invI) (simp_all add: cb own)
qed

lemma inv_cb:
  assumes inv: "timer_inv s" and st: "cb_step i s = Some s'"
  shows "timer_inv s'"
proof -
  let ?b = "ts_cbs s ! i"
  have i: "i < length (ts_cbs s)" using st by (auto simp: cb_step_def split: if_splits)
  then have b: "?b \<in> set (ts_cbs s)" "cb_ok s ?b" using timer_invD(4) [OF inv] by auto
  obtain h where h: "cb_timer ?b = Some h" using cb_ok_timer [OF b(2)] by blast
  with b obtain x ob where x: "ts_objs s x = Some ob" "tm_timer ob = Some h" by (auto simp: cb_ok_def owned_def)
  then obtain cc where c: "ts_ctx s h = Some cc" "tc_timer cc = x"
    using timer_invD(1) [OF inv x(1)] by (auto simp: obj_ok_def)
  define bs where "bs = (case cb_next ?b s of None \<Rightarrow> take i (ts_cbs s) @ drop (Suc i) (ts_cbs s) | Some b' \<Rightarrow> (ts_cbs s)[i := b'])"
  have nx: "cb_timer b' = Some h \<and> cb_ok s b'" if "cb_next ?b s = Some b'" for b'
    using that h b(2) c x by (cases ?b) (auto simp: cb_ok_def split: if_splits)
  have bs: "cb_ok s b' \<and> (\<forall>g. cb_timer b' = Some g \<longrightarrow> (\<exists>b0\<in>set (ts_cbs s). cb_timer b0 = Some g))" if b': "b' \<in> set bs" for b'
  proof (cases "b' \<in> set (ts_cbs s)")
    case False
    with b' have "cb_next ?b s = Some b'"
      by (auto simp: bs_def split: option.splits dest: in_set_takeD in_set_dropD)
        (metis insertE set_update_subset_insert subsetD)
    from nx [OF this] b h show ?thesis by (metis option.inject)
  qed (use timer_invD(4) [OF inv] in auto)
  have inv1: "timer_inv (s\<lparr>ts_cbs := bs\<rparr>)" by (rule inv_cbs [OF inv bs])
  have s': "s' = (cb_writes ?b s)\<lparr>ts_cbs := bs\<rparr>" using st i by (simp add: cb_step_def bs_def)
  show ?thesis
  proof (cases "\<exists>g c. ?b = BC_Lock g c")
    case True
    with h b(2) have l: "?b = BC_Lock h h" "tc_isOneShot cc" using c by (auto simp: cb_ok_def)
    then have "s' = put_obj x (ob\<lparr>tm_running := False\<rparr>) (s\<lparr>ts_cbs := bs\<rparr>)"
      using s' c x by (simp add: put_obj_def)
    then show ?thesis using inv_flag [OF inv1, of x ob h cc] x c l by simp
  next
    case False
    then have "cb_writes ?b s = s" by (cases ?b) auto
    with s' inv1 show ?thesis by simp
  qed
qed

text \<open>A statement that changes the timers of the system in nothing but what they are set to.\<close>

lemma inv_ptp:
  assumes inv: "timer_inv s"
    and same: "ts_objs s' = ts_objs s" "ts_ctx s' = ts_ctx s" "ts_next s' = ts_next s" "ts_cbs s' = ts_cbs s"
    and ptp: "\<And>h. map_option pt_ctx (ts_ptp s' h) = map_option pt_ctx (ts_ptp s h)"
    and pc: "ctl_ok s' (ts_pc s')"
  shows "timer_inv s'"
proof (rule timer_invI)
  have own: "owned s' h = owned s h" for h using same by (simp add: owned_def)
  have none: "ts_ptp s' h = None \<longleftrightarrow> ts_ptp s h = None" for h using ptp [of h] by (metis option.map_disc_iff)
  show "obj_ok s' x ob" if "ts_objs s' x = Some ob" for x ob
  proof -
    have "\<exists>p. ts_ptp s' h = Some p \<and> pt_ctx p = h" if "ts_ptp s h = Some p" "pt_ctx p = h" for h p
      using that ptp [of h] by (cases "ts_ptp s' h") auto
    with that timer_invD(1) [OF inv, of x ob] same show ?thesis unfolding obj_ok_def by metis
  qed
  show "owned s' h" if "ts_ptp s' h \<noteq> None" for h using that timer_invD(2) [OF inv, of h] own none by simp
  show "ts_ctx s' n = None \<and> ts_ptp s' n = None" if "ts_next s' \<le> n" for n
    using that timer_invD(3) [OF inv, of n] same none by simp
  have "cb_ok s' b = cb_ok s b" for b by (cases b) (simp_all add: cb_ok_def own same)
  then show "cb_ok s' b" if "b \<in> set (ts_cbs s')" for b using that timer_invD(4) [OF inv, of b] same by simp
qed (rule pc)

lemma settled_but_cong: "ts_objs s' = ts_objs s \<Longrightarrow> ts_ctx s' = ts_ctx s \<Longrightarrow> settled_but s' z = settled_but s z"
  by (simp add: settled_but_def settled_def)

lemma settled_but_weaken: "settled_but s None \<Longrightarrow> settled_but s z"
  by (simp add: settled_but_def)

lemma inv_stop:
  assumes inv: "timer_inv s" and pc: "ts_pc s = TC_Stop x k" and x: "ts_objs s x = Some ob"
  shows "timer_inv (stop_step x k ob s)"
proof -
  have k: "stays k" "settled_but s None" using timer_invD(5) [OF inv] pc by auto
  show ?thesis
  proof (cases "tm_timer ob")
    case None
    show ?thesis
      by (rule inv_ptp [OF inv]) (use None k x settled_but_weaken [of s "Some x"] in
        \<open>simp_all add: stop_step_def settled_but_cong [of "s\<lparr>ts_pc := TC_Reset x k\<rparr>" s]\<close>)
  next
    case (Some h)
    then obtain p where p: "ts_ptp s h = Some p" using timer_invD(1) [OF inv x] by (auto simp: obj_ok_def)
    show ?thesis
    proof (rule inv_ptp [OF inv])
      show "map_option pt_ctx (ts_ptp (stop_step x k ob s) g) = map_option pt_ctx (ts_ptp s g)" for g
        using Some p by (simp add: stop_step_def)
      have "settled_but (stop_step x k ob s) None" using k(2) Some by (simp add: stop_step_def settled_but_def settled_def)
      then show "ctl_ok (stop_step x k ob s) (ts_pc (stop_step x k ob s))"
        using Some p x k(1) by (simp add: stop_step_def not_set_def)
    qed (use Some in \<open>simp_all add: stop_step_def\<close>)
  qed
qed

lemma inv_wait:
  assumes inv: "timer_inv s" and pc: "ts_pc s = TC_Wait x k" and x: "ts_objs s x = Some ob"
    and st: "wait_step x k ob s = Some s'"
  shows "timer_inv s'"
proof -
  have s': "s' = s\<lparr>ts_pc := TC_Close x k\<rparr>" and no: "\<forall>b\<in>set (ts_cbs s). cb_timer b = None \<or> cb_timer b \<noteq> tm_timer ob"
    using st by (auto simp: wait_step_def list_all_iff split: if_splits)
  have k: "stays k" "settled_but s None" and "\<exists>h. tm_timer ob = Some h \<and> not_set s h"
    using timer_invD(5) [OF inv] pc x by auto
  then obtain h where h: "tm_timer ob = Some h" "not_set s h" by blast
  have "no_cb s' h" using no h(1) by (auto simp: no_cb_def s')
  moreover have "not_set s' h" "settled_but s' None" using h(2) k(2) by (simp_all add: not_set_def settled_but_def settled_def s')
  ultimately have "ctl_ok s' (ts_pc s')" using k(1) x h(1) by (simp add: s')
  then show ?thesis by (intro inv_ptp [OF inv]) (simp_all add: s')
qed

lemma inv_close:
  assumes inv: "timer_inv s" and pc: "ts_pc s = TC_Close x k" and x: "ts_objs s x = Some ob"
  shows "timer_inv (close_step x k ob s)" (is "timer_inv ?s")
proof -
  have k: "stays k" "settled_but s None" and "\<exists>h. tm_timer ob = Some h \<and> no_cb s h"
    using timer_invD(5) [OF inv] pc x by auto
  then obtain h where h: "tm_timer ob = Some h" "no_cb s h" by blast
  have s: "ts_objs ?s = (ts_objs s)(x \<mapsto> ob\<lparr>tm_timer := None\<rparr>)" "ts_ctx ?s = ts_ctx s" "ts_ptp ?s = (ts_ptp s)(h := None)"
    "ts_next ?s = ts_next s" "ts_pc ?s = TC_Reset x k" "ts_cbs ?s = ts_cbs s"
    using h by (simp_all add: close_step_def)
  have other: "tm_timer ob' \<noteq> Some h" if "ts_objs s y = Some ob'" "y \<noteq> x" for y ob'
    using owner_unique [OF inv that(1) x, of h] timer_context [OF inv] that h x by metis
  have own: "owned ?s g" if "owned s g" "g \<noteq> h" for g
  proof -
    obtain y ob' where y: "ts_objs s y = Some ob'" "tm_timer ob' = Some g" using \<open>owned s g\<close> by (auto simp: owned_def)
    with x h that(2) have "y \<noteq> x" by auto
    with y show ?thesis by (auto simp: owned_def s)
  qed
  show ?thesis
  proof (rule timer_invI)
    show "obj_ok ?s y ob'" if "ts_objs ?s y = Some ob'" for y ob'
      using that timer_invD(1) [OF inv] x other [of y ob'] by (auto simp: s obj_ok_def split: if_splits)
    show "owned ?s g" if "ts_ptp ?s g \<noteq> None" for g
      using that own [of g] timer_invD(2) [OF inv, of g] by (auto simp: s split: if_splits)
    show "ts_ctx ?s n = None \<and> ts_ptp ?s n = None" if "ts_next ?s \<le> n" for n
      using that timer_invD(3) [OF inv, of n] by (simp add: s)
    show "cb_ok ?s b" if "b \<in> set (ts_cbs ?s)" for b
    proof -
      have "cb_ok s b" "cb_timer b \<noteq> Some h" using that timer_invD(4) [OF inv, of b] h(2) by (auto simp: s no_cb_def)
      then show ?thesis using own by (cases b) (auto simp: cb_ok_def s)
    qed
    have "settled_but ?s (Some x)" using k(2) by (simp add: settled_but_def settled_def s)
    then show "ctl_ok ?s (ts_pc ?s)" using k(1) by (simp add: s)
  qed
qed

text \<open>The mutex part of \<open>Stop\<close>, and what may follow it.\<close>

lemma inv_reset_base:
  assumes inv: "timer_inv s" and pc: "ts_pc s = TC_Reset x k" and x: "ts_objs s x = Some ob"
    and s': "s' = (put_obj x (ob\<lparr>tm_running := False, tm_context := None\<rparr>) (free_ctx (tm_context ob) s))\<lparr>ts_pc := TC_Idle\<rparr>"
  shows "timer_inv s'"
proof -
  have k: "settled_but s (Some x)" "tm_timer ob = None" using timer_invD(5) [OF inv] pc x by auto
  have s: "ts_objs s' = (ts_objs s)(x \<mapsto> ob\<lparr>tm_running := False, tm_context := None\<rparr>)"
    "ts_ctx s' c = (if tm_context ob = Some c then None else ts_ctx s c)" "ts_ptp s' = ts_ptp s"
    "ts_next s' = ts_next s" "ts_pc s' = TC_Idle" "ts_cbs s' = ts_cbs s" for c
    by (auto simp: s' free_ctx_def split: option.splits)
  have own: "owned s' g = owned s g" for g
    using owned_put_same [of s x ob "ob\<lparr>tm_running := False, tm_context := None\<rparr>" g] x by (simp add: owned_def s)
  have other: "tm_context ob' \<noteq> tm_context ob \<or> tm_context ob = None" if "ts_objs s y = Some ob'" "y \<noteq> x" for y ob'
    using owner_unique [OF inv that(1) x] that(2) by (cases "tm_context ob") auto
  have kept: "ts_ctx s' h = ts_ctx s h" if "owned s h" for h
  proof -
    obtain y ob' where y: "ts_objs s y = Some ob'" "tm_timer ob' = Some h" using \<open>owned s h\<close> by (auto simp: owned_def)
    with k(2) x have "y \<noteq> x" by auto
    with other [OF y(1)] timer_context [OF inv y] show ?thesis by (auto simp: s)
  qed
  show ?thesis
  proof (rule timer_invI)
    show "obj_ok s' y ob'" if "ts_objs s' y = Some ob'" for y ob'
    proof (cases "y = x")
      case False
      with that have y: "ts_objs s y = Some ob'" by (simp add: s)
      show ?thesis using timer_invD(1) [OF inv y] other [OF y False] by (auto simp: obj_ok_def s)
    qed (use that k(2) in \<open>auto simp: s obj_ok_def\<close>)
    show "owned s' g" if "ts_ptp s' g \<noteq> None" for g using that timer_invD(2) [OF inv, of g] by (simp add: own s)
    show "ts_ctx s' n = None \<and> ts_ptp s' n = None" if "ts_next s' \<le> n" for n
      using that timer_invD(3) [OF inv, of n] by (simp add: s)
    show "cb_ok s' b" if "b \<in> set (ts_cbs s')" for b
      using that timer_invD(4) [OF inv, of b] by (intro cb_ok_frame [of s b s']) (simp_all add: own s(6) kept)
    have "settled s' ob'" if "ts_objs s' y = Some ob'" for y ob'
    proof (cases "y = x")
      case False
      with that have y: "ts_objs s y = Some ob'" by (simp add: s)
      then have "settled s ob'" using k(1) False by (auto simp: settled_but_def)
      moreover have "ts_ctx s' h = ts_ctx s h" if "tm_timer ob' = Some h" for h
        using kept [of h] y that by (auto simp: owned_def)
      ultimately show ?thesis by (auto simp: settled_def)
    qed (use that k(2) in \<open>auto simp: s settled_def\<close>)
    then show "ctl_ok s' (ts_pc s')" by (simp add: s(5) settled_but_def)
  qed
qed

lemma inv_remove:
  assumes inv: "timer_inv s" and pc: "ts_pc s = TC_Idle" and x: "ts_objs s x = Some ob" "tm_timer ob = None"
  shows "timer_inv (s\<lparr>ts_objs := (ts_objs s)(x := None)\<rparr>)" (is "timer_inv ?s")
proof -
  have own: "owned ?s g" if "owned s g" for g
  proof -
    obtain y ob' where y: "ts_objs s y = Some ob'" "tm_timer ob' = Some g" using \<open>owned s g\<close> by (auto simp: owned_def)
    with x have "y \<noteq> x" by auto
    with y show ?thesis by (auto simp: owned_def)
  qed
  show ?thesis
  proof (rule timer_invI)
    show "cb_ok ?s b" if "b \<in> set (ts_cbs ?s)" for b
      using that timer_invD(4) [OF inv, of b] own by (intro cb_ok_frame [of s b ?s]) simp_all
    show "ctl_ok ?s (ts_pc ?s)" using timer_invD(5) [OF inv] pc by (auto simp: settled_but_def settled_def)
  qed (use timer_invD [OF inv] own in \<open>auto simp: obj_ok_def split: if_splits\<close>)
qed

lemma inv_reset:
  assumes inv: "timer_inv s" and pc: "ts_pc s = TC_Reset x k" and x: "ts_objs s x = Some ob"
  shows "timer_inv (reset_step x k ob s)"
proof -
  define s1 where "s1 = put_obj x (ob\<lparr>tm_running := False, tm_context := None\<rparr>) (free_ctx (tm_context ob) s)"
  have base: "timer_inv (s1\<lparr>ts_pc := TC_Idle\<rparr>)" by (rule inv_reset_base [OF inv pc x]) (simp add: s1_def)
  have k: "stays k" "tm_timer ob = None" using timer_invD(5) [OF inv] pc x by auto
  have x1: "ts_objs s1 x = Some (ob\<lparr>tm_running := False, tm_context := None\<rparr>)" by (simp add: s1_def)
  show ?thesis
  proof (cases k)
    case Then_Return
    then show ?thesis using base by (simp add: reset_step_def stopped_def s1_def)
  next
    case (Then_Start cb due period)
    have "settled_but (s1\<lparr>ts_pc := TC_Idle\<rparr>) None" using timer_invD(5) [OF base] by simp
    then have "settled_but (s1\<lparr>ts_pc := TC_Create x cb due period\<rparr>) None" by (simp add: settled_but_def settled_def)
    then have "timer_inv (s1\<lparr>ts_pc := TC_Create x cb due period\<rparr>)"
      by (intro inv_ptp [OF base]) (use x1 k in simp_all)
    then show ?thesis using Then_Start by (simp add: reset_step_def stopped_def s1_def)
  next
    case Then_Destroy
    have "timer_inv (s1\<lparr>ts_pc := TC_Idle, ts_objs := (ts_objs s1)(x := None)\<rparr>)"
      using inv_remove [OF base, of x] x1 k(2) by simp
    also have "s1\<lparr>ts_pc := TC_Idle, ts_objs := (ts_objs s1)(x := None)\<rparr> = s1\<lparr>ts_objs := (ts_objs s1)(x := None), ts_pc := TC_Idle\<rparr>"
      by simp
    finally show ?thesis using Then_Destroy by (simp add: reset_step_def stopped_def s1_def)
  next
    case (Then_Move y)
    with k show ?thesis by simp
  qed
qed

lemma timer_inv_create:
  assumes inv: "timer_inv s" and pc: "ts_pc s = TC_Create x cb due period" and x: "ts_objs s x = Some ob"
  shows "timer_inv (create_step created x cb due period ob s)" (is "timer_inv ?s")
proof -
  have k: "settled_but s None" "tm_timer ob = None" using timer_invD(5) [OF inv] pc x by auto
  with x have c: "tm_context ob = None" by (simp add: settled_but_def settled_def)
  let ?n = "ts_next s"
  have fresh: "ts_ctx s ?n = None" "ts_ptp s ?n = None" using timer_invD(3) [OF inv, of ?n] by simp_all
  have ctx: "ts_ctx s h \<noteq> None" if "owned s h" for h
    using that timer_invD(1) [OF inv] timer_context [OF inv] by (fastforce simp: owned_def obj_ok_def)
  show ?thesis
  proof (cases created)
    case True
    have s: "ts_objs ?s = (ts_objs s)(x \<mapsto> ob\<lparr>tm_timer := Some ?n, tm_context := Some ?n\<rparr>)"
      "ts_ctx ?s = (ts_ctx s)(?n \<mapsto> \<lparr>tc_cb = cb, tc_timer = x, tc_isOneShot = (period = 0)\<rparr>)"
      "ts_ptp ?s = (ts_ptp s)(?n \<mapsto> \<lparr>pt_ctx = ?n, pt_due = None, pt_period = 0\<rparr>)"
      "ts_next ?s = Suc ?n" "ts_pc ?s = TC_Arm x due period" "ts_cbs ?s = ts_cbs s"
      using True by (simp_all add: create_step_def Let_def)
    have own: "owned ?s g" if "owned s g" for g
    proof -
      obtain y ob' where y: "ts_objs s y = Some ob'" "tm_timer ob' = Some g" using \<open>owned s g\<close> by (auto simp: owned_def)
      with x k have "y \<noteq> x" by auto
      with y show ?thesis by (auto simp: owned_def s)
    qed
    have kept: "ts_ctx ?s h = ts_ctx s h" if "owned s h" for h using ctx [OF that] fresh by (auto simp: s)
    show ?thesis
    proof (rule timer_invI)
      show "obj_ok ?s y ob'" if "ts_objs ?s y = Some ob'" for y ob'
      proof (cases "y = x")
        case False
        with that have y: "obj_ok s y ob'" using timer_invD(1) [OF inv] by (simp add: s)
        then show ?thesis using fresh by (auto simp: obj_ok_def s)
      qed (use that in \<open>auto simp: s obj_ok_def\<close>)
      show "owned ?s g" if "ts_ptp ?s g \<noteq> None" for g
        using that own [of g] timer_invD(2) [OF inv, of g] by (auto simp: owned_def s split: if_splits)
      show "ts_ctx ?s n = None \<and> ts_ptp ?s n = None" if "ts_next ?s \<le> n" for n
        using that timer_invD(3) [OF inv, of n] by (simp add: s)
      show "cb_ok ?s b" if "b \<in> set (ts_cbs ?s)" for b
        using that timer_invD(4) [OF inv, of b] by (intro cb_ok_frame [of s b ?s]) (simp_all add: own s(6) kept)
      have "settled ?s ob'" if "ts_objs ?s y = Some ob'" "y \<noteq> x" for y ob'
      proof -
        have y: "ts_objs s y = Some ob'" using that by (simp add: s)
        then have "settled s ob'" using k(1) by (auto simp: settled_but_def)
        moreover have "ts_ctx ?s h = ts_ctx s h" if "tm_timer ob' = Some h" for h
          using kept [of h] y that by (auto simp: owned_def)
        ultimately show ?thesis by (auto simp: settled_def)
      qed
      then show "ctl_ok ?s (ts_pc ?s)" by (simp add: s(1,5) settled_but_def)
    qed
  next
    case False
    have "ob\<lparr>tm_timer := None, tm_context := None\<rparr> = ob" using k(2) c by simp
    then have s: "ts_objs ?s = ts_objs s" "ts_ctx ?s = ts_ctx s" "ts_ptp ?s = ts_ptp s"
      "ts_next ?s = Suc ?n" "ts_pc ?s = TC_Threw" "ts_cbs ?s = ts_cbs s"
      using False fresh x by (auto simp: create_step_def Let_def free_ctx_def fun_eq_iff)
    have "cb_ok ?s b" if "cb_ok s b" for b using that by (rule cb_ok_frame) (simp_all add: owned_def s)
    then show ?thesis
      by (intro timer_invI) (use timer_invD [OF inv] k(1) in
        \<open>simp_all add: s obj_ok_def owned_def settled_but_def settled_def\<close>)
  qed
qed

lemma inv_arm:
  assumes inv: "timer_inv s" and pc: "ts_pc s = TC_Arm x due period" and x: "ts_objs s x = Some ob"
  shows "timer_inv (arm_step x due period ob s)"
proof -
  obtain h where k: "settled_but s (Some x)" "tm_timer ob = Some h" using timer_invD(5) [OF inv] pc x by auto
  show ?thesis
  proof (rule inv_ptp [OF inv])
    show "map_option pt_ctx (ts_ptp (arm_step x due period ob s) g) = map_option pt_ctx (ts_ptp s g)" for g
      using k by (cases "ts_ptp s h") (simp_all add: arm_step_def)
    show "ctl_ok (arm_step x due period ob s) (ts_pc (arm_step x due period ob s))"
      using k x by (simp add: arm_step_def settled_but_def settled_def)
  qed (use k in \<open>simp_all add: arm_step_def\<close>)
qed

lemma inv_running:
  assumes inv: "timer_inv s" and pc: "ts_pc s = TC_Running x" and x: "ts_objs s x = Some ob"
  shows "timer_inv (running_step x ob s)" (is "timer_inv ?s")
proof -
  obtain h where k: "settled_but s (Some x)" "tm_timer ob = Some h" using timer_invD(5) [OF inv] pc x by auto
  have own: "owned ?s g = owned s g" for g
    using owned_put_same [OF x, of "ob\<lparr>tm_running := True\<rparr>" g] by (simp add: running_step_def owned_def)
  have cb: "cb_ok ?s b" if "cb_ok s b" for b
    using that by (rule cb_ok_frame) (simp_all add: own, simp_all add: running_step_def)
  have s: "ts_objs ?s = (ts_objs s)(x \<mapsto> ob\<lparr>tm_running := True\<rparr>)" "ts_ctx ?s = ts_ctx s" "ts_ptp ?s = ts_ptp s"
    "ts_next ?s = ts_next s" "ts_pc ?s = TC_Idle" "ts_cbs ?s = ts_cbs s"
    by (simp_all add: running_step_def)
  show ?thesis
  proof (rule timer_invI)
    show "obj_ok ?s y ob'" if "ts_objs ?s y = Some ob'" for y ob'
      using that timer_invD(1) [OF inv] x by (auto simp: s obj_ok_def split: if_splits)
    show "ctl_ok ?s (ts_pc ?s)" using k by (auto simp: s settled_but_def settled_def)
  qed (use timer_invD [OF inv] cb in \<open>simp_all add: s own\<close>)
qed

lemma inv_ctl:
  assumes "timer_inv s" and "ctl_step created (ts_pc s) s = Some s'"
  shows "timer_inv s'"
  using assms(2) inv_stop [OF assms(1)] inv_wait [OF assms(1)] inv_close [OF assms(1)] inv_reset [OF assms(1)]
    timer_inv_create [OF assms(1)] inv_arm [OF assms(1)] inv_running [OF assms(1)]
  by (cases "ts_pc s") (force simp: bind_eq_Some_conv)+

lemma timer_inv_step:
  assumes inv: "timer_inv s" and st: "unmoved_step l s = Some s'"
  shows "timer_inv s'"
proof (cases l)
  case (L_Call c)
  then show ?thesis using inv_call [OF inv, of c s'] st by simp
next
  case (L_Ctl created)
  then show ?thesis using inv_ctl [OF inv, of created s'] st by (simp add: unmoved_step_def)
next
  case (L_Fire h)
  then show ?thesis using inv_fire [OF inv, of h s'] st by (simp add: unmoved_step_def)
next
  case (L_Cb i)
  then show ?thesis using inv_cb [OF inv, of i s'] st by (simp add: unmoved_step_def)
qed

lemma timer_inv_init: "timer_inv timers_init"
  by (auto simp: timer_inv_def timers_init_def settled_but_def)

interpretation timer_system: inductive_invariant unmoved_step timers_init timer_inv
  by unfold_locales (rule timer_inv_init, rule timer_inv_step)

section \<open>What Stop and the destructor leave\<close>

text \<open>
  Nothing of the object \<open>x\<close> goes on: no callback runs with a context of \<open>x\<close>, no timer of the system
  would start one, and \<open>x\<close>, if it exists, has no timer and no context and is not running.
\<close>

definition has_ctx :: "timers \<Rightarrow> nat \<Rightarrow> nat \<Rightarrow> bool" where
  "has_ctx s x c \<longleftrightarrow> (case ts_ctx s c of None \<Rightarrow> False | Some cc \<Rightarrow> tc_timer cc = x)"

definition timer_silent :: "nat \<Rightarrow> timers \<Rightarrow> bool" where
  "timer_silent x s \<longleftrightarrow>
     (\<forall>b\<in>set (ts_cbs s). \<forall>h. cb_timer b = Some h \<longrightarrow> \<not> has_ctx s x h) \<and>
     (\<forall>h p. ts_ptp s h = Some p \<longrightarrow> \<not> has_ctx s x (pt_ctx p)) \<and>
     (\<forall>ob. ts_objs s x = Some ob \<longrightarrow> tm_timer ob = None \<and> tm_context ob = None \<and> \<not> timer_IsRunning ob)"

text \<open>Statements of the system and of a call in progress; a call that starts the timer of \<open>x\<close>.\<close>

fun is_call :: "timer_label \<Rightarrow> bool" where
  "is_call (L_Call c) \<longleftrightarrow> True"
| "is_call _ \<longleftrightarrow> False"

fun starts :: "nat \<Rightarrow> timer_label \<Rightarrow> bool" where
  "starts x (L_Call (Call_Start y cb due period)) \<longleftrightarrow> y = x"
| "starts x (L_Call (Call_SetOneShot y cb due)) \<longleftrightarrow> y = x"
| "starts x _ \<longleftrightarrow> False"

text \<open>Where a call that does not start \<open>x\<close> may be.\<close>

fun no_start :: "after_stop \<Rightarrow> bool" where
  "no_start (Then_Start cb due period) \<longleftrightarrow> False"
| "no_start (Then_Move y) \<longleftrightarrow> False"
| "no_start _ \<longleftrightarrow> True"

fun idle_for :: "nat \<Rightarrow> ctl_pc \<Rightarrow> bool" where
  "idle_for x (TC_Stop y k) \<longleftrightarrow> y \<noteq> x \<or> no_start k"
| "idle_for x (TC_Wait y k) \<longleftrightarrow> y \<noteq> x \<or> no_start k"
| "idle_for x (TC_Close y k) \<longleftrightarrow> y \<noteq> x \<or> no_start k"
| "idle_for x (TC_Reset y k) \<longleftrightarrow> y \<noteq> x \<or> no_start k"
| "idle_for x (TC_Create y cb due period) \<longleftrightarrow> y \<noteq> x"
| "idle_for x (TC_Arm y due period) \<longleftrightarrow> y \<noteq> x"
| "idle_for x (TC_Running y) \<longleftrightarrow> y \<noteq> x"
| "idle_for x _ \<longleftrightarrow> True"

definition blank :: "timer_obj option \<Rightarrow> bool" where
  "blank o' \<longleftrightarrow> (\<forall>ob. o' = Some ob \<longrightarrow> tm_timer ob = None \<and> tm_context ob = None \<and> \<not> tm_running ob)"

lemma blank_simps [simp]: "blank None"
  "blank (Some ob) \<longleftrightarrow> tm_timer ob = None \<and> tm_context ob = None \<and> \<not> tm_running ob"
  by (auto simp: blank_def)

definition quiet :: "nat \<Rightarrow> timers \<Rightarrow> bool" where
  "quiet x s \<longleftrightarrow> timer_inv s \<and> idle_for x (ts_pc s) \<and> blank (ts_objs s x)"

lemma quiet_silent:
  assumes "quiet x s"
  shows "timer_silent x s"
proof -
  have inv: "timer_inv s" and x: "blank (ts_objs s x)" using assms by (simp_all add: quiet_def)
  have no: "\<not> has_ctx s x h" if own: "owned s h" for h
  proof -
    obtain y ob where y: "ts_objs s y = Some ob" "tm_timer ob = Some h" using own by (auto simp: owned_def)
    with x have "y \<noteq> x" by (auto simp: blank_def)
    with timer_invD(1) [OF inv y(1)] y(2) show ?thesis by (auto simp: obj_ok_def has_ctx_def)
  qed
  have "owned s h" if "b \<in> set (ts_cbs s)" "cb_timer b = Some h" for b h
    using timer_invD(4) [OF inv that(1)] that(2) by (simp add: cb_ok_def)
  moreover have "owned s (pt_ctx p)" if p: "ts_ptp s h = Some p" for h p
  proof -
    have own: "owned s h" using timer_invD(2) [OF inv, of h] p by simp
    then obtain y ob where y: "ts_objs s y = Some ob" "tm_timer ob = Some h" unfolding owned_def by blast
    with timer_invD(1) [OF inv y(1)] p have "pt_ctx p = h" by (simp add: obj_ok_def)
    with own show ?thesis by simp
  qed
  ultimately show ?thesis using no x unfolding timer_silent_def blank_def timer_IsRunning_def by blast
qed

text \<open>A callback writes \<open>m_running\<close> only, and only \<open>false\<close>.\<close>

lemma cb_writes_blank: "blank (ts_objs s x) \<Longrightarrow> blank (ts_objs (cb_writes b s) x)"
  by (cases b) (auto split: option.splits)

lemma cb_writes_objs: "ts_objs (cb_writes b s) x = None \<longleftrightarrow> ts_objs s x = None"
  by (cases b) (auto split: option.splits)

lemma cb_step_objs:
  assumes "cb_step i s = Some s'"
  shows "ts_pc s' = ts_pc s" and "blank (ts_objs s x) \<Longrightarrow> blank (ts_objs s' x)"
    and "ts_objs s' x = None \<longleftrightarrow> ts_objs s x = None"
proof -
  have s': "ts_objs s' = ts_objs (cb_writes (ts_cbs s ! i) s)" "ts_pc s' = ts_pc (cb_writes (ts_cbs s ! i) s)"
    using assms by (auto simp: cb_step_def split: if_splits)
  show "blank (ts_objs s x) \<Longrightarrow> blank (ts_objs s' x)" unfolding s' by (rule cb_writes_blank)
  show "ts_objs s' x = None \<longleftrightarrow> ts_objs s x = None" unfolding s' by (rule cb_writes_objs)
  show "ts_pc s' = ts_pc s" unfolding s' by (cases "ts_cbs s ! i") (auto split: option.splits)
qed

lemma fire_objs: "timer_step (L_Fire h) s = Some s' \<Longrightarrow> ts_objs s' = ts_objs s \<and> ts_pc s' = ts_pc s"
  by (auto split: option.splits if_splits)

lemma free_ctx_objs [simp]: "ts_objs (free_ctx c s) = ts_objs s" "ts_pc (free_ctx c s) = ts_pc s"
  by (cases c; simp add: free_ctx_def)+

lemma quiet_ctl:
  assumes q: "quiet x s" and st: "ctl_step created (ts_pc s) s = Some s'"
  shows "idle_for x (ts_pc s') \<and> blank (ts_objs s' x)"
proof -
  have pc: "idle_for x (ts_pc s)" and x: "blank (ts_objs s x)" and ok: "ctl_ok s (ts_pc s)"
    using q timer_invD(5) by (auto simp: quiet_def)
  show ?thesis
  proof (cases "ts_pc s")
    case (TC_Stop y k)
    then show ?thesis using pc x st by (auto simp: stop_step_def split: option.splits)
  next
    case (TC_Wait y k)
    then show ?thesis using pc x st by (auto simp: wait_step_def bind_eq_Some_conv split: if_splits)
  next
    case (TC_Close y k)
    then obtain ob where ob: "ts_objs s y = Some ob" "s' = close_step y k ob s" using st by auto
    have "ts_objs s' = (ts_objs s)(y \<mapsto> ob\<lparr>tm_timer := None\<rparr>)" "ts_pc s' = TC_Reset y k"
      unfolding ob(2) close_step_def by (cases "tm_timer ob"; simp)+
    with TC_Close ob(1) show ?thesis using pc x by (cases "y = x") auto
  next
    case (TC_Reset y k)
    then obtain ob where "ts_objs s y = Some ob" "s' = reset_step y k ob s" using st by auto
    with TC_Reset show ?thesis using pc x ok
      by (cases "y = x"; cases k) (auto simp: reset_step_def stopped_def)
  next
    case (TC_Create y cb due period)
    then obtain ob where "ts_objs s y = Some ob" "s' = create_step created y cb due period ob s" using st by auto
    with TC_Create show ?thesis using pc x by (cases created) (auto simp: create_step_def Let_def)
  next
    case (TC_Arm y due period)
    then show ?thesis using pc x st by (auto simp: arm_step_def split: option.splits)
  next
    case (TC_Running y)
    then show ?thesis using pc x st by (auto simp: running_step_def)
  qed (use st in auto)
qed

lemma quiet_step:
  assumes q: "quiet x s" and st: "unmoved_step l s = Some s'" and l: "\<not> starts x l"
  shows "quiet x s'"
proof -
  have inv: "timer_inv s'" using q timer_inv_step [OF _ st] by (simp add: quiet_def)
  have pc: "idle_for x (ts_pc s)" and x: "blank (ts_objs s x)" using q by (simp_all add: quiet_def)
  have "idle_for x (ts_pc s') \<and> blank (ts_objs s' x)"
  proof (cases l)
    case (L_Call c)
    then show ?thesis using st l x by (cases c) (auto simp: unmoved_step_def timer_new_def split: if_splits)
  next
    case (L_Ctl created)
    then show ?thesis using quiet_ctl [OF q] st by (simp add: unmoved_step_def)
  next
    case (L_Fire h)
    then have "timer_step (L_Fire h) s = Some s'" using st by (simp add: unmoved_step_def)
    with fire_objs [OF this] pc x show ?thesis by simp
  next
    case (L_Cb i)
    then have "cb_step i s = Some s'" using st by (simp add: unmoved_step_def)
    with cb_step_objs [OF this] pc x show ?thesis by simp
  qed
  with inv show ?thesis by (simp add: quiet_def)
qed

text \<open>A call of \<open>Stop\<close> or of the destructor in progress, and when it has returned.\<close>

definition stopping :: "nat \<Rightarrow> after_stop \<Rightarrow> timers \<Rightarrow> bool" where
  "stopping x k s \<longleftrightarrow> timer_inv s \<and>
     (ts_pc s = TC_Stop x k \<or> ts_pc s = TC_Wait x k \<or> ts_pc s = TC_Close x k \<or> ts_pc s = TC_Reset x k \<or>
      ts_pc s = TC_Idle \<and> blank (ts_objs s x) \<and> (ts_objs s x = None \<longleftrightarrow> k = Then_Destroy))"

lemma stopping_step:
  assumes s: "stopping x k s" and k: "no_start k" and st: "unmoved_step l s = Some s'" and l: "\<not> is_call l"
  shows "stopping x k s'"
proof -
  have inv: "timer_inv s" "timer_inv s'" using s timer_inv_step [OF _ st] by (simp_all add: stopping_def)
  show ?thesis
  proof (cases l)
    case (L_Ctl created)
    then have ctl: "ctl_step created (ts_pc s) s = Some s'" using st by (simp add: unmoved_step_def)
    consider "ts_pc s = TC_Stop x k" | "ts_pc s = TC_Wait x k" | "ts_pc s = TC_Close x k" | "ts_pc s = TC_Reset x k"
      using s ctl by (auto simp: stopping_def)
    then show ?thesis
    proof cases
      case 1
      then show ?thesis using inv ctl by (auto simp: stopping_def stop_step_def split: option.splits)
    next
      case 2
      then show ?thesis using inv ctl by (auto simp: stopping_def wait_step_def bind_eq_Some_conv split: if_splits)
    next
      case 3
      then show ?thesis using inv ctl by (auto simp: stopping_def close_step_def)
    next
      case 4
      then obtain ob where ob: "ts_objs s x = Some ob" "s' = reset_step x k ob s" "tm_timer ob = None"
        using ctl timer_invD(5) [OF inv(1)] by auto
      then show ?thesis using inv k by (cases k) (auto simp: stopping_def reset_step_def stopped_def)
    qed
  next
    case (L_Fire h)
    then have "timer_step (L_Fire h) s = Some s'" using st by (simp add: unmoved_step_def)
    with fire_objs [OF this] s inv show ?thesis by (simp add: stopping_def)
  next
    case (L_Cb i)
    then have cb: "cb_step i s = Some s'" using st by (simp add: unmoved_step_def)
    show ?thesis
      using cb_step_objs(1) [OF cb] cb_step_objs(2) [OF cb, of x] cb_step_objs(3) [OF cb, of x] s inv
      by (auto simp: stopping_def)
  qed (use l in simp)
qed

lemma stopping_run:
  "run unmoved_step ls s = Some s' \<Longrightarrow> stopping x k s \<Longrightarrow> no_start k \<Longrightarrow> \<forall>l\<in>set ls. \<not> is_call l \<Longrightarrow> stopping x k s'"
  by (induction ls arbitrary: s) (auto split: option.splits intro: stopping_step)

lemma quiet_run:
  "run unmoved_step ls s = Some s' \<Longrightarrow> quiet x s \<Longrightarrow> \<forall>l\<in>set ls. \<not> starts x l \<Longrightarrow> quiet x s'"
  by (induction ls arbitrary: s) (auto split: option.splits intro: quiet_step)

lemma stop_leaves:
  assumes inv: "timer_inv s" and c: "c = Call_Stop x \<and> k = Then_Return \<or> c = Call_Destroy x \<and> k = Then_Destroy"
    and call: "unmoved_step (L_Call c) s = Some s1"
    and ls: "run unmoved_step ls s1 = Some s2" "\<forall>l\<in>set ls. \<not> is_call l" "ts_pc s2 = TC_Idle"
  shows "quiet x s2 \<and> (ts_objs s2 x = None \<longleftrightarrow> k = Then_Destroy)"
proof -
  have "ts_pc s1 = TC_Stop x k" using call c by (auto simp: unmoved_step_def split: if_splits)
  then have "stopping x k s1" using timer_inv_step [OF inv call] by (simp add: stopping_def)
  then have "stopping x k s2" by (rule stopping_run [OF ls(1)]) (use c ls(2) in auto)
  with ls(3) show ?thesis by (auto simp: stopping_def quiet_def)
qed

section \<open>What the class promises\<close>

text \<open>
  C13. Without moves, whatever the schedule of the methods and of any number of callbacks: no
  callback ever uses a context or an object that is gone, and a callback runs only while its
  object exists and has its timer. Between two calls an object without a timer is not running,
  and one with a periodic timer is. When a call of \<open>Stop\<close> or of the destructor has returned,
  then, until the timer of the object is started again, no callback of the object runs,
  no timer is left that would begin one, and the object has no timer and is not running;
  after the destructor the object is gone.
\<close>

theorem timer_callbacks_safe:
  assumes "reach unmoved_step timers_init s"
  shows "(\<forall>b\<in>set (ts_cbs s). \<exists>h x ob cc. cb_timer b = Some h \<and> ts_objs s x = Some ob \<and> tm_timer ob = Some h \<and>
      ts_ctx s h = Some cc \<and> tc_timer cc = x) \<and>
    (\<forall>h. ts_ptp s h \<noteq> None \<longrightarrow> (\<exists>x ob. ts_objs s x = Some ob \<and> tm_timer ob = Some h)) \<and>
    (ts_pc s = TC_Idle \<longrightarrow> (\<forall>x ob. ts_objs s x = Some ob \<longrightarrow>
      (tm_timer ob = None \<longrightarrow> \<not> timer_IsRunning ob \<and> tm_context ob = None) \<and>
      (\<forall>h cc. tm_timer ob = Some h \<longrightarrow> ts_ctx s h = Some cc \<longrightarrow> \<not> tc_isOneShot cc \<longrightarrow> timer_IsRunning ob))) \<and>
    (\<forall>c x s1 ls s2 ls' s3. c = Call_Stop x \<or> c = Call_Destroy x \<longrightarrow> unmoved_step (L_Call c) s = Some s1 \<longrightarrow>
      run unmoved_step ls s1 = Some s2 \<longrightarrow> (\<forall>l\<in>set ls. \<not> is_call l) \<longrightarrow> ts_pc s2 = TC_Idle \<longrightarrow>
      (ts_objs s2 x = None \<longleftrightarrow> c = Call_Destroy x) \<and>
      (run unmoved_step ls' s2 = Some s3 \<longrightarrow> (\<forall>l\<in>set ls'. \<not> starts x l) \<longrightarrow> timer_silent x s3))"
proof (intro conjI)
  note inv = timer_system.inv_reach [OF assms]
  show "\<forall>b\<in>set (ts_cbs s). \<exists>h x ob cc. cb_timer b = Some h \<and> ts_objs s x = Some ob \<and> tm_timer ob = Some h \<and>
      ts_ctx s h = Some cc \<and> tc_timer cc = x"
  proof
    fix b assume "b \<in> set (ts_cbs s)"
    then have b: "cb_ok s b" by (rule timer_invD(4) [OF inv])
    from cb_ok_timer [OF b] obtain h where h: "cb_timer b = Some h" by blast
    with b obtain x ob where x: "ts_objs s x = Some ob" "tm_timer ob = Some h" by (auto simp: cb_ok_def owned_def)
    with timer_invD(1) [OF inv x(1)] h show "\<exists>h x ob cc. cb_timer b = Some h \<and> ts_objs s x = Some ob \<and>
        tm_timer ob = Some h \<and> ts_ctx s h = Some cc \<and> tc_timer cc = x"
      unfolding obj_ok_def by metis
  qed
  show "\<forall>h. ts_ptp s h \<noteq> None \<longrightarrow> (\<exists>x ob. ts_objs s x = Some ob \<and> tm_timer ob = Some h)"
    using timer_invD(2) [OF inv] by (simp add: owned_def)
  show "ts_pc s = TC_Idle \<longrightarrow> (\<forall>x ob. ts_objs s x = Some ob \<longrightarrow>
      (tm_timer ob = None \<longrightarrow> \<not> timer_IsRunning ob \<and> tm_context ob = None) \<and>
      (\<forall>h cc. tm_timer ob = Some h \<longrightarrow> ts_ctx s h = Some cc \<longrightarrow> \<not> tc_isOneShot cc \<longrightarrow> timer_IsRunning ob))"
    using timer_invD(5) [OF inv] by (auto simp: settled_but_def settled_def timer_IsRunning_def)
  show "\<forall>c x s1 ls s2 ls' s3. c = Call_Stop x \<or> c = Call_Destroy x \<longrightarrow> unmoved_step (L_Call c) s = Some s1 \<longrightarrow>
      run unmoved_step ls s1 = Some s2 \<longrightarrow> (\<forall>l\<in>set ls. \<not> is_call l) \<longrightarrow> ts_pc s2 = TC_Idle \<longrightarrow>
      (ts_objs s2 x = None \<longleftrightarrow> c = Call_Destroy x) \<and>
      (run unmoved_step ls' s2 = Some s3 \<longrightarrow> (\<forall>l\<in>set ls'. \<not> starts x l) \<longrightarrow> timer_silent x s3)"
  proof (intro allI impI)
    fix c x s1 ls s2 ls' s3
    assume c: "c = Call_Stop x \<or> c = Call_Destroy x"
      and r: "unmoved_step (L_Call c) s = Some s1" "run unmoved_step ls s1 = Some s2" "\<forall>l\<in>set ls. \<not> is_call l"
        "ts_pc s2 = TC_Idle"
    from c have "quiet x s2 \<and> (ts_objs s2 x = None \<longleftrightarrow> c = Call_Destroy x)"
    proof
      assume c: "c = Call_Stop x"
      from stop_leaves [OF inv _ r, of x Then_Return] c show ?thesis by simp
    next
      assume c: "c = Call_Destroy x"
      from stop_leaves [OF inv _ r, of x Then_Destroy] c show ?thesis by simp
    qed
    with quiet_run [of ls' s2 s3 x] quiet_silent
    show "(ts_objs s2 x = None \<longleftrightarrow> c = Call_Destroy x) \<and>
        (run unmoved_step ls' s2 = Some s3 \<longrightarrow> (\<forall>l\<in>set ls'. \<not> starts x l) \<longrightarrow> timer_silent x s3)" by blast
  qed
qed

text \<open>
  A periodic timer with two callbacks at once, one of them at its end. \<open>Stop\<close> waits for both of them.
\<close>

definition periodic_run :: "timer_label list" where
  "periodic_run = [L_Call (Call_Construct 0), L_Call (Call_Start 0 True 10 20), L_Ctl True, L_Ctl True, L_Ctl True, L_Ctl True,
     L_Fire 0, L_Ctl True, L_Fire 0, L_Cb 0, L_Cb 0, L_Cb 0]"

definition stop_run :: "timer_label list" where
  "stop_run = [L_Ctl True, L_Cb 0, L_Cb 0, L_Cb 0, L_Cb 0, L_Cb 0, L_Ctl True, L_Ctl True, L_Ctl True]"

lemma periodic_demo:
  "\<exists>s s1 s2 ob cc. run unmoved_step periodic_run timers_init = Some s \<and> ts_cbs s = [BC_End 0, BC_Enter 0 0] \<and>
     ts_pc s = TC_Idle \<and> ts_objs s 0 = Some ob \<and> tm_timer ob = Some 0 \<and> ts_ctx s 0 = Some cc \<and> \<not> tc_isOneShot cc \<and>
     unmoved_step (L_Call (Call_Stop 0)) s = Some s1 \<and> run unmoved_step stop_run s1 = Some s2 \<and> ts_pc s2 = TC_Idle"
  by (simp add: periodic_run_def stop_run_def timer_run_simps)

lemma timer_callbacks_safe_witness:
  "\<exists>s s1 s2 ob. run unmoved_step periodic_run timers_init = Some s \<and> ts_cbs s = [BC_End 0, BC_Enter 0 0] \<and>
     ts_objs s 0 = Some ob \<and> timer_IsRunning ob \<and> unmoved_step (L_Call (Call_Stop 0)) s = Some s1 \<and>
     run unmoved_step stop_run s1 = Some s2 \<and> timer_silent 0 s2"
proof -
  obtain s s1 s2 ob cc where s: "run unmoved_step periodic_run timers_init = Some s" "ts_cbs s = [BC_End 0, BC_Enter 0 0]"
    "ts_pc s = TC_Idle" "ts_objs s 0 = Some ob" "tm_timer ob = Some 0" "ts_ctx s 0 = Some cc" "\<not> tc_isOneShot cc"
    "unmoved_step (L_Call (Call_Stop 0)) s = Some s1" "run unmoved_step stop_run s1 = Some s2" "ts_pc s2 = TC_Idle"
    using periodic_demo by (elim exE conjE) (rule that)
  note safe = timer_callbacks_safe [OF run_reach [OF s(1)]]
  have "timer_IsRunning ob" using safe s(3-7) by metis
  moreover have "\<forall>l\<in>set stop_run. \<not> is_call l" by (simp add: stop_run_def)
  then have "timer_silent 0 s2"
    using safe [THEN conjunct2, THEN conjunct2, THEN conjunct2, rule_format, of "Call_Stop 0" 0 s1 stop_run s2 "[]" s2]
      s(8-10) by simp
  ultimately show ?thesis using s by blast
qed

end
