(* ===== verification/Async_Work.thy ===== *)
theory Async_Work
  imports Kernel
begin

text \<open>
  Class \<open>Work\<close> of \<open>src/src/ezthread/async.hpp\<close> and \<open>async.cpp\<close>. One thread submits, cancels, moves and
  destroys, statement by statement; the callbacks of the works of the system and any number of
  threads in \<open>Wait\<close> run beside it. A part of a method under the mutex of the object is one step.
\<close>

section \<open>Objects, contexts, works and waiters\<close>

record work_obj =
  wo_work :: "nat option"
  wo_context :: "nat option"
  wo_complete :: bool

text \<open>\<open>WorkContext\<close>: whether \<open>work\<close> is callable, and \<open>self\<close> as the address of the object.\<close>

record work_context =
  wc_work :: bool
  wc_self :: nat

text \<open>
  A work of the system: its context and the callbacks that are submitted and have not begun.
  Closing a work does not stop them.
\<close>

record ptp_work =
  pw_ctx :: nat
  pw_pending :: nat

datatype work_pc =
    WC_Idle
  | WC_Submit nat bool
  | WC_Create nat bool
  | WC_Post nat
  | WC_Cancel nat
  | WC_Wait nat
  | WC_Close nat
  | WC_Done nat
  | WC_Threw string

datatype work_cb =
    CB_Enter nat nat
  | CB_Call nat nat
  | CB_Complete nat nat
  | CB_Undefined

fun cb_work :: "work_cb \<Rightarrow> nat option" where
  "cb_work (CB_Enter h c) = Some h"
| "cb_work (CB_Call h c) = Some h"
| "cb_work (CB_Complete h c) = Some h"
| "cb_work CB_Undefined = None"

text \<open>A thread in \<open>Wait\<close>: at the test of \<open>m_complete\<close>, asleep, woken up, or back from the call.\<close>

datatype waiter = WT_Test dword | WT_Asleep dword | WT_Woken dword | WT_Returned | WT_Threw

record works =
  ws_objs :: "nat \<Rightarrow> work_obj option"
  ws_ctx :: "nat \<Rightarrow> work_context option"
  ws_ptp :: "nat \<Rightarrow> ptp_work option"
  ws_next :: nat
  ws_pc :: work_pc
  ws_cbs :: "work_cb list"
  ws_waiters :: "(nat \<times> waiter) list"

definition works_init :: works where
  "works_init = \<lparr>ws_objs = Map.empty, ws_ctx = Map.empty, ws_ptp = Map.empty, ws_next = 0, ws_pc = WC_Idle,
     ws_cbs = [], ws_waiters = []\<rparr>"

section \<open>The methods\<close>

definition work_new :: work_obj where
  "work_new = \<lparr>wo_work = None, wo_context = None, wo_complete = False\<rparr>"

definition work_move :: "work_obj \<Rightarrow> work_obj \<times> work_obj" where
  "work_move other = (other, \<lparr>wo_work = None, wo_context = None, wo_complete = wo_complete other\<rparr>)"

definition work_IsComplete :: "work_obj \<Rightarrow> bool" where
  "work_IsComplete ob = wo_complete ob"

definition put_work :: "nat \<Rightarrow> work_obj \<Rightarrow> works \<Rightarrow> works" where
  "put_work x ob s = s\<lparr>ws_objs := (ws_objs s)(x \<mapsto> ob)\<rparr>"

definition drop_ctx :: "nat option \<Rightarrow> works \<Rightarrow> works" where
  "drop_ctx c s = (case c of None \<Rightarrow> s | Some n \<Rightarrow> s\<lparr>ws_ctx := (ws_ctx s)(n := None)\<rparr>)"

text \<open>\<open>m_complete = true\<close> and \<open>NotifyAll\<close>, under the mutex of the object.\<close>

definition wake_waiters :: "nat \<Rightarrow> (nat \<times> waiter) list \<Rightarrow> (nat \<times> waiter) list" where
  "wake_waiters x ws = map (\<lambda>(y, w). (y, case w of WT_Asleep ms \<Rightarrow> if y = x then WT_Woken ms else w | _ \<Rightarrow> w)) ws"

definition complete :: "nat \<Rightarrow> work_obj \<Rightarrow> works \<Rightarrow> works" where
  "complete x ob s = (put_work x (ob\<lparr>wo_complete := True\<rparr>) s)\<lparr>ws_waiters := wake_waiters x (ws_waiters s)\<rparr>"

text \<open>\<open>Submit\<close>: the test, the context and the work, which may fail, and \<open>SubmitThreadpoolWork\<close>.\<close>

definition submit_test :: "nat \<Rightarrow> bool \<Rightarrow> work_obj \<Rightarrow> works \<Rightarrow> works" where
  "submit_test x f ob s =
     (if wo_work ob \<noteq> None then s\<lparr>ws_pc := WC_Threw ''Work already submitted''\<rparr> else s\<lparr>ws_pc := WC_Create x f\<rparr>)"

definition submit_create :: "bool \<Rightarrow> nat \<Rightarrow> bool \<Rightarrow> work_obj \<Rightarrow> works \<Rightarrow> works" where
  "submit_create created x f ob s =
     (let n = ws_next s;
          s1 = (drop_ctx (wo_context ob) s)\<lparr>ws_ctx := (ws_ctx (drop_ctx (wo_context ob) s))(n \<mapsto> \<lparr>wc_work = f, wc_self = x\<rparr>), ws_next := Suc n\<rparr>
      in if \<not> created
         then (put_work x (ob\<lparr>wo_work := None, wo_context := None, wo_complete := False\<rparr>) (drop_ctx (Some n) s1))
           \<lparr>ws_pc := WC_Threw ''CreateThreadpoolWork failed''\<rparr>
         else (put_work x (ob\<lparr>wo_work := Some n, wo_context := Some n, wo_complete := False\<rparr>)
           (s1\<lparr>ws_ptp := (ws_ptp s1)(n \<mapsto> \<lparr>pw_ctx = n, pw_pending = 0\<rparr>)\<rparr>))\<lparr>ws_pc := WC_Post x\<rparr>)"

definition set_pending :: "(nat \<Rightarrow> nat) \<Rightarrow> nat option \<Rightarrow> works \<Rightarrow> works" where
  "set_pending f h s =
     (case h of None \<Rightarrow> s | Some n \<Rightarrow> s\<lparr>ws_ptp := (ws_ptp s)(n := map_option (pw_pending_update f) (ws_ptp s n))\<rparr>)"

definition submit_post :: "nat \<Rightarrow> work_obj \<Rightarrow> works \<Rightarrow> works" where
  "submit_post x ob s = (set_pending Suc (wo_work ob) s)\<lparr>ws_pc := WC_Idle\<rparr>"

text \<open>
  \<open>Cancel\<close>: \<open>WaitForThreadpoolWorkCallbacks\<close> cancels the callbacks that have not begun and blocks while
  one runs; the work is closed and the context reset; the work counts as complete.
\<close>

definition cancel_test :: "nat \<Rightarrow> work_obj \<Rightarrow> works \<Rightarrow> works" where
  "cancel_test x ob s =
     (if wo_work ob \<noteq> None then (set_pending (\<lambda>_. 0) (wo_work ob) s)\<lparr>ws_pc := WC_Wait x\<rparr> else s\<lparr>ws_pc := WC_Done x\<rparr>)"

definition cancel_wait :: "nat \<Rightarrow> work_obj \<Rightarrow> works \<Rightarrow> works option" where
  "cancel_wait x ob s =
     (if list_all (\<lambda>b. cb_work b = None \<or> cb_work b \<noteq> wo_work ob) (ws_cbs s) then Some (s\<lparr>ws_pc := WC_Close x\<rparr>) else None)"

definition close_work :: "nat option \<Rightarrow> works \<Rightarrow> works" where
  "close_work h s =
     (case h of
        None \<Rightarrow> s
      | Some n \<Rightarrow> (case ws_ptp s n of
          None \<Rightarrow> s
        | Some p \<Rightarrow> if pw_pending p = 0 then s\<lparr>ws_ptp := (ws_ptp s)(n := None)\<rparr> else s))"

definition cancel_close :: "nat \<Rightarrow> work_obj \<Rightarrow> works \<Rightarrow> works" where
  "cancel_close x ob s =
     (put_work x (ob\<lparr>wo_work := None, wo_context := None\<rparr>) (drop_ctx (wo_context ob) (close_work (wo_work ob) s)))
       \<lparr>ws_pc := WC_Done x\<rparr>"

definition cancel_done :: "nat \<Rightarrow> work_obj \<Rightarrow> works \<Rightarrow> works" where
  "cancel_done x ob s = (complete x ob s)\<lparr>ws_pc := WC_Idle\<rparr>"

fun work_ctl :: "bool \<Rightarrow> work_pc \<Rightarrow> works \<Rightarrow> works option" where
  "work_ctl created (WC_Submit x f) s = map_option (\<lambda>ob. submit_test x f ob s) (ws_objs s x)"
| "work_ctl created (WC_Create x f) s = map_option (\<lambda>ob. submit_create created x f ob s) (ws_objs s x)"
| "work_ctl created (WC_Post x) s = map_option (\<lambda>ob. submit_post x ob s) (ws_objs s x)"
| "work_ctl created (WC_Cancel x) s = map_option (\<lambda>ob. cancel_test x ob s) (ws_objs s x)"
| "work_ctl created (WC_Wait x) s = Option.bind (ws_objs s x) (\<lambda>ob. cancel_wait x ob s)"
| "work_ctl created (WC_Close x) s = map_option (\<lambda>ob. cancel_close x ob s) (ws_objs s x)"
| "work_ctl created (WC_Done x) s = map_option (\<lambda>ob. cancel_done x ob s) (ws_objs s x)"
| "work_ctl created _ s = None"

text \<open>
  The destructor closes the work without waiting for its callbacks and frees the context; the
  move assignment closes the work and takes over the members of the other object.
\<close>

definition work_destroy :: "nat \<Rightarrow> work_obj \<Rightarrow> works \<Rightarrow> works" where
  "work_destroy x ob s =
     (let s1 = drop_ctx (wo_context ob) (close_work (wo_work ob) s) in s1\<lparr>ws_objs := (ws_objs s1)(x := None)\<rparr>)"

definition work_assign :: "nat \<Rightarrow> nat \<Rightarrow> work_obj \<Rightarrow> work_obj \<Rightarrow> works \<Rightarrow> works" where
  "work_assign x y ob other s =
     (if x = y then s
      else case work_move other of
        (ob', other') \<Rightarrow> put_work y other' (put_work x ob' (drop_ctx (wo_context ob) (close_work (wo_work ob) s))))"

text \<open>
  \<open>WorkCallback\<close>: the tests of the context, the call of the function (whose exceptions are
  suppressed), and \<open>m_complete\<close> with \<open>NotifyAll\<close> under the mutex of the object of the context.
\<close>

fun work_cb_step :: "nat \<Rightarrow> works \<Rightarrow> works option" where
  "work_cb_step i s =
     (if i < length (ws_cbs s)
      then Some (case ws_cbs s ! i of
          CB_Enter h c \<Rightarrow> s\<lparr>ws_cbs := (ws_cbs s)[i := (if ws_ctx s c = None then CB_Undefined else CB_Call h c)]\<rparr>
        | CB_Call h c \<Rightarrow> s\<lparr>ws_cbs := (ws_cbs s)[i := (if ws_ctx s c = None then CB_Undefined else CB_Complete h c)]\<rparr>
        | CB_Complete h c \<Rightarrow>
            (case Option.bind (ws_ctx s c) (\<lambda>cx. map_option (Pair (wc_self cx)) (ws_objs s (wc_self cx))) of
               None \<Rightarrow> s\<lparr>ws_cbs := (ws_cbs s)[i := CB_Undefined]\<rparr>
             | Some (x, ob) \<Rightarrow> (complete x ob s)\<lparr>ws_cbs := take i (ws_cbs s) @ drop (Suc i) (ws_cbs s)\<rparr>)
        | CB_Undefined \<Rightarrow> s)
      else None)"

text \<open>
  \<open>Wait\<close>: the test of \<open>m_complete\<close> and the sleep are one step under the mutex. A sleep ends by a wake
  or without one, or by a time-out, which throws.
\<close>

fun work_wait_step :: "nat \<Rightarrow> bool \<Rightarrow> works \<Rightarrow> works option" where
  "work_wait_step i timed_out s =
     (if i < length (ws_waiters s)
      then (case ws_waiters s ! i of
          (x, WT_Test ms) \<Rightarrow>
            map_option (\<lambda>ob. s\<lparr>ws_waiters := (ws_waiters s)[i := (x, if wo_complete ob then WT_Returned else WT_Asleep ms)]\<rparr>)
              (ws_objs s x)
        | (x, WT_Asleep ms) \<Rightarrow>
            if timed_out then (if ms = NO_TIMEOUT then None else Some (s\<lparr>ws_waiters := (ws_waiters s)[i := (x, WT_Threw)]\<rparr>))
            else Some (s\<lparr>ws_waiters := (ws_waiters s)[i := (x, WT_Woken ms)]\<rparr>)
        | (x, WT_Woken ms) \<Rightarrow> Some (s\<lparr>ws_waiters := (ws_waiters s)[i := (x, WT_Test ms)]\<rparr>)
        | _ \<Rightarrow> None)
      else None)"

section \<open>The system\<close>

datatype work_call =
    Work_Construct nat
  | Work_Submit nat bool
  | Work_Cancel nat
  | Work_Destroy nat
  | Work_Move nat nat
  | Work_Move_Assign nat nat

fun work_call_step :: "work_call \<Rightarrow> works \<Rightarrow> works option" where
  "work_call_step (Work_Construct x) s = (if ws_objs s x = None then Some (put_work x work_new s) else None)"
| "work_call_step (Work_Submit x f) s = (if ws_objs s x = None then None else Some (s\<lparr>ws_pc := WC_Submit x f\<rparr>))"
| "work_call_step (Work_Cancel x) s = (if ws_objs s x = None then None else Some (s\<lparr>ws_pc := WC_Cancel x\<rparr>))"
| "work_call_step (Work_Destroy x) s = map_option (\<lambda>ob. work_destroy x ob s) (ws_objs s x)"
| "work_call_step (Work_Move x y) s =
     (case ws_objs s y of
        None \<Rightarrow> None
      | Some other \<Rightarrow> if ws_objs s x = None
          then (case work_move other of (ob, other') \<Rightarrow> Some (put_work y other' (put_work x ob s))) else None)"
| "work_call_step (Work_Move_Assign x y) s =
     (case (ws_objs s x, ws_objs s y) of (Some ob, Some other) \<Rightarrow> Some (work_assign x y ob other s) | _ \<Rightarrow> None)"

datatype work_label = W_Call work_call | W_Ctl bool | W_Begin nat | W_Cb nat | W_Enter_Wait nat dword | W_Waiter nat bool

fun calling :: "work_pc \<Rightarrow> bool" where
  "calling WC_Idle \<longleftrightarrow> False"
| "calling (WC_Threw msg) \<longleftrightarrow> False"
| "calling _ \<longleftrightarrow> True"

fun work_step :: "work_label \<Rightarrow> works \<Rightarrow> works option" where
  "work_step (W_Call c) s = (if calling (ws_pc s) then None else work_call_step c (s\<lparr>ws_pc := WC_Idle\<rparr>))"
| "work_step (W_Ctl created) s = work_ctl created (ws_pc s) s"
| "work_step (W_Begin h) s =
     (case ws_ptp s h of
        None \<Rightarrow> None
      | Some p \<Rightarrow>
          if pw_pending p = 0 then None
          else Some (s\<lparr>ws_cbs := ws_cbs s @ [CB_Enter h (pw_ctx p)],
            ws_ptp := (ws_ptp s)(h \<mapsto> p\<lparr>pw_pending := pw_pending p - 1\<rparr>)\<rparr>))"
| "work_step (W_Cb i) s = work_cb_step i s"
| "work_step (W_Enter_Wait x ms) s =
     (if ws_objs s x = None then None else Some (s\<lparr>ws_waiters := ws_waiters s @ [(x, WT_Test ms)]\<rparr>))"
| "work_step (W_Waiter i timed_out) s = work_wait_step i timed_out s"

lemmas work_run_simps = works_init_def work_new_def put_work_def drop_ctx_def wake_waiters_def complete_def submit_test_def
  submit_create_def set_pending_def submit_post_def cancel_test_def cancel_wait_def close_work_def cancel_close_def
  cancel_done_def work_destroy_def work_assign_def work_move_def Let_def

section \<open>Schedules that go wrong\<close>

text \<open>
  The destructor of \<open>Work\<close> does not wait: a callback that has been submitted may begin after
  it, and uses the context that the destructor has freed.
\<close>

theorem destroyed_work_dangles:
  "\<exists>s. run work_step [W_Call (Work_Construct 0), W_Call (Work_Submit 0 True), W_Ctl True, W_Ctl True, W_Ctl True,
      W_Call (Work_Destroy 0), W_Begin 0, W_Cb 0] works_init = Some s \<and> ws_cbs s = [CB_Undefined]"
  by (simp add: work_run_simps)

text \<open>
  A work that is moved completes the old object: the new one is never complete, and a thread
  waits for it for ever although the function has run.
\<close>

lemma moved_work_never_complete:
  "\<exists>s ob. run work_step [W_Call (Work_Construct 0), W_Call (Work_Submit 0 True), W_Ctl True, W_Ctl True, W_Ctl True,
      W_Call (Work_Move 1 0), W_Enter_Wait 1 NO_TIMEOUT, W_Waiter 0 False, W_Begin 0, W_Cb 0, W_Cb 0, W_Cb 0] works_init = Some s \<and>
    ws_cbs s = [] \<and> ws_objs s 1 = Some ob \<and> \<not> work_IsComplete ob \<and> ws_waiters s = [(1, WT_Asleep NO_TIMEOUT)] \<and>
    (\<forall>h p. ws_ptp s h = Some p \<longrightarrow> pw_pending p = 0)"
  by (simp add: work_run_simps work_IsComplete_def)

text \<open>A work that has completed cannot be submitted again without \<open>Cancel\<close>.\<close>

lemma completed_work_resubmit_throws:
  "\<exists>s ob. run work_step [W_Call (Work_Construct 0), W_Call (Work_Submit 0 True), W_Ctl True, W_Ctl True, W_Ctl True,
      W_Begin 0, W_Cb 0, W_Cb 0, W_Cb 0, W_Call (Work_Submit 0 True), W_Ctl True] works_init = Some s \<and>
    ws_objs s 0 = Some ob \<and> work_IsComplete ob \<and> ws_pc s = WC_Threw ''Work already submitted''"
  by (simp add: work_run_simps work_IsComplete_def)

section \<open>The invariant\<close>

text \<open>
  The disciplined use: objects are not moved, and one is destroyed only without a work, after
  \<open>Cancel\<close> or before \<open>Submit\<close>, and when no thread is in its \<open>Wait\<close>.
\<close>

fun in_wait :: "waiter \<Rightarrow> bool" where
  "in_wait (WT_Test ms) \<longleftrightarrow> True"
| "in_wait (WT_Asleep ms) \<longleftrightarrow> True"
| "in_wait (WT_Woken ms) \<longleftrightarrow> True"
| "in_wait _ \<longleftrightarrow> False"

fun disciplined :: "work_label \<Rightarrow> works \<Rightarrow> bool" where
  "disciplined (W_Call (Work_Move x y)) s \<longleftrightarrow> False"
| "disciplined (W_Call (Work_Move_Assign x y)) s \<longleftrightarrow> False"
| "disciplined (W_Call (Work_Destroy x)) s \<longleftrightarrow>
     Option.bind (ws_objs s x) wo_work = None \<and> list_all (\<lambda>(y, w). y = x \<longrightarrow> \<not> in_wait w) (ws_waiters s)"
| "disciplined _ s \<longleftrightarrow> True"

definition safe_step :: "work_label \<Rightarrow> works \<Rightarrow> works option" where
  "safe_step l s = (if disciplined l s then work_step l s else None)"

definition work_ok :: "works \<Rightarrow> nat \<Rightarrow> work_obj \<Rightarrow> bool" where
  "work_ok s x ob \<longleftrightarrow>
     (\<forall>c. wo_context ob = Some c \<longrightarrow> (\<exists>cx. ws_ctx s c = Some cx \<and> wc_self cx = x)) \<and>
     (\<forall>h. wo_work ob = Some h \<longrightarrow> wo_context ob = Some h \<and> (\<exists>p. ws_ptp s h = Some p \<and> pw_ctx p = h)) \<and>
     (wo_work ob = None \<longrightarrow> wo_context ob = None)"

definition has_work :: "works \<Rightarrow> nat \<Rightarrow> bool" where
  "has_work s h \<longleftrightarrow> (\<exists>x ob. ws_objs s x = Some ob \<and> wo_work ob = Some h)"

fun cb_ctx :: "work_cb \<Rightarrow> nat option" where
  "cb_ctx (CB_Enter h c) = Some c"
| "cb_ctx (CB_Call h c) = Some c"
| "cb_ctx (CB_Complete h c) = Some c"
| "cb_ctx CB_Undefined = None"

definition work_cb_ok :: "works \<Rightarrow> work_cb \<Rightarrow> bool" where
  "work_cb_ok s b \<longleftrightarrow> (\<exists>h. cb_work b = Some h \<and> cb_ctx b = Some h \<and> has_work s h)"

definition waiter_ok :: "works \<Rightarrow> nat \<times> waiter \<Rightarrow> bool" where
  "waiter_ok s = (\<lambda>(x, w). (in_wait w \<longrightarrow> ws_objs s x \<noteq> None) \<and>
     (\<forall>ms ob. w = WT_Asleep ms \<longrightarrow> ws_objs s x = Some ob \<longrightarrow> \<not> wo_complete ob))"

definition idle_work :: "works \<Rightarrow> nat \<Rightarrow> bool" where
  "idle_work s h \<longleftrightarrow> (\<exists>p. ws_ptp s h = Some p \<and> pw_pending p = 0)"

fun work_ctl_ok :: "works \<Rightarrow> work_pc \<Rightarrow> bool" where
  "work_ctl_ok s (WC_Submit x f) \<longleftrightarrow> ws_objs s x \<noteq> None"
| "work_ctl_ok s (WC_Create x f) \<longleftrightarrow> (\<exists>ob. ws_objs s x = Some ob \<and> wo_work ob = None)"
| "work_ctl_ok s (WC_Post x) \<longleftrightarrow> (\<exists>ob h. ws_objs s x = Some ob \<and> wo_work ob = Some h)"
| "work_ctl_ok s (WC_Cancel x) \<longleftrightarrow> ws_objs s x \<noteq> None"
| "work_ctl_ok s (WC_Wait x) \<longleftrightarrow> (\<exists>ob h. ws_objs s x = Some ob \<and> wo_work ob = Some h \<and> idle_work s h)"
| "work_ctl_ok s (WC_Close x) \<longleftrightarrow> (\<exists>ob h. ws_objs s x = Some ob \<and> wo_work ob = Some h \<and> idle_work s h \<and>
     (\<forall>b\<in>set (ws_cbs s). cb_work b \<noteq> Some h))"
| "work_ctl_ok s (WC_Done x) \<longleftrightarrow> ws_objs s x \<noteq> None"
| "work_ctl_ok s _ \<longleftrightarrow> True"

text \<open>
  An object with a work is complete, or a callback of the work is submitted or runs; unless it
  is just being submitted or cancelled.
\<close>

fun in_change :: "work_pc \<Rightarrow> nat option" where
  "in_change (WC_Post x) = Some x"
| "in_change (WC_Wait x) = Some x"
| "in_change (WC_Close x) = Some x"
| "in_change _ = None"

definition will_complete :: "works \<Rightarrow> nat \<Rightarrow> bool" where
  "will_complete s h \<longleftrightarrow> (\<exists>p. ws_ptp s h = Some p \<and> 0 < pw_pending p) \<or> (\<exists>b\<in>set (ws_cbs s). cb_work b = Some h)"

definition progress_ok :: "works \<Rightarrow> nat option \<Rightarrow> bool" where
  "progress_ok s z \<longleftrightarrow> (\<forall>x ob h. ws_objs s x = Some ob \<longrightarrow> wo_work ob = Some h \<longrightarrow> Some x \<noteq> z \<longrightarrow>
     wo_complete ob \<or> will_complete s h)"

definition work_inv :: "works \<Rightarrow> bool" where
  "work_inv s \<longleftrightarrow>
     (\<forall>x ob. ws_objs s x = Some ob \<longrightarrow> work_ok s x ob) \<and>
     (\<forall>h. ws_ptp s h \<noteq> None \<longrightarrow> has_work s h) \<and>
     (\<forall>n. ws_next s \<le> n \<longrightarrow> ws_ctx s n = None \<and> ws_ptp s n = None) \<and>
     (\<forall>b\<in>set (ws_cbs s). work_cb_ok s b) \<and> (\<forall>w\<in>set (ws_waiters s). waiter_ok s w) \<and>
     work_ctl_ok s (ws_pc s) \<and> progress_ok s (in_change (ws_pc s))"

lemma work_invI:
  assumes "\<And>x ob. ws_objs s x = Some ob \<Longrightarrow> work_ok s x ob" and "\<And>h. ws_ptp s h \<noteq> None \<Longrightarrow> has_work s h"
    and "\<And>n. ws_next s \<le> n \<Longrightarrow> ws_ctx s n = None \<and> ws_ptp s n = None"
    and "\<And>b. b \<in> set (ws_cbs s) \<Longrightarrow> work_cb_ok s b" and "\<And>w. w \<in> set (ws_waiters s) \<Longrightarrow> waiter_ok s w"
    and "work_ctl_ok s (ws_pc s)" and "progress_ok s (in_change (ws_pc s))"
  shows "work_inv s"
  using assms unfolding work_inv_def by blast

lemma work_invD:
  assumes "work_inv s"
  shows "ws_objs s x = Some ob \<Longrightarrow> work_ok s x ob" and "ws_ptp s h \<noteq> None \<Longrightarrow> has_work s h"
    and "ws_next s \<le> n \<Longrightarrow> ws_ctx s n = None \<and> ws_ptp s n = None"
    and "b \<in> set (ws_cbs s) \<Longrightarrow> work_cb_ok s b" and "w \<in> set (ws_waiters s) \<Longrightarrow> waiter_ok s w"
    and "work_ctl_ok s (ws_pc s)" and "progress_ok s (in_change (ws_pc s))"
  using assms unfolding work_inv_def by blast+

lemma context_unique:
  assumes "work_inv s" and "ws_objs s x = Some ob" "ws_objs s y = Some ob'"
    and "wo_context ob = Some c" "wo_context ob' = Some c"
  shows "x = y"
  using work_invD(1) [OF assms(1,2)] work_invD(1) [OF assms(1,3)] assms(4,5) by (auto simp: work_ok_def)

lemma work_context:
  assumes "work_inv s" and "ws_objs s x = Some ob" and "wo_work ob = Some h"
  shows "wo_context ob = Some h"
  using work_invD(1) [OF assms(1,2)] assms(3) by (simp add: work_ok_def)

lemma put_work_simps [simp]:
  "ws_objs (put_work x ob s) = (ws_objs s)(x \<mapsto> ob)" "ws_ctx (put_work x ob s) = ws_ctx s"
  "ws_ptp (put_work x ob s) = ws_ptp s" "ws_next (put_work x ob s) = ws_next s"
  "ws_pc (put_work x ob s) = ws_pc s" "ws_cbs (put_work x ob s) = ws_cbs s" "ws_waiters (put_work x ob s) = ws_waiters s"
  by (simp_all add: put_work_def)

text \<open>An object gets or loses no work: what refers to the objects only through their works stays.\<close>

lemma has_work_upd:
  assumes "ws_objs s x = Some ob" and "ws_objs s' = (ws_objs s)(x \<mapsto> ob')" and "wo_work ob' = wo_work ob"
  shows "has_work s' h = has_work s h"
proof -
  have "ws_objs s' y = (if y = x then Some ob' else ws_objs s y)" for y using assms(2) by simp
  then show ?thesis unfolding has_work_def using assms(1,3) by (metis option.inject)
qed

lemma work_cb_ok_frame:
  "work_cb_ok s b \<Longrightarrow> (\<And>h. cb_work b = Some h \<Longrightarrow> has_work s h \<Longrightarrow> has_work s' h) \<Longrightarrow> work_cb_ok s' b"
  by (auto simp: work_cb_ok_def)

lemma wake_waiters_ok:
  assumes "w \<in> set (wake_waiters x ws)"
  obtains y v where "(y, v) \<in> set ws"
    and "w = (y, v) \<and> (y = x \<longrightarrow> (\<forall>ms. v \<noteq> WT_Asleep ms)) \<or> (\<exists>ms. v = WT_Asleep ms \<and> y = x \<and> w = (y, WT_Woken ms))"
  using assms by (auto simp: wake_waiters_def split: waiter.splits if_splits)

text \<open>A statement on the object \<open>x\<close> that completes it.\<close>

lemma waiter_ok_complete:
  assumes "ws_objs s x = Some ob" and "\<And>w. w \<in> set (ws_waiters s) \<Longrightarrow> waiter_ok s w"
    and "ws_objs s' = (ws_objs s)(x \<mapsto> ob')" and "w \<in> set (wake_waiters x (ws_waiters s))"
  shows "waiter_ok s' w"
proof -
  from wake_waiters_ok [OF assms(4)] obtain y v where y: "(y, v) \<in> set (ws_waiters s)"
    "w = (y, v) \<and> (y = x \<longrightarrow> (\<forall>ms. v \<noteq> WT_Asleep ms)) \<or> (\<exists>ms. v = WT_Asleep ms \<and> y = x \<and> w = (y, WT_Woken ms))" by blast
  from assms(2) [OF y(1)] y(2) assms(1,3) show ?thesis by (auto simp: waiter_ok_def)
qed

text \<open>Statements that change the program point, the waiters or the callbacks only.\<close>

lemma work_ok_cong:
  "ws_ctx s' = ws_ctx s \<Longrightarrow> ws_ptp s' = ws_ptp s \<Longrightarrow> work_ok s' x ob = work_ok s x ob"
  by (simp add: work_ok_def)

lemma work_inv_rest:
  assumes inv: "work_inv s"
    and same: "ws_objs s' = ws_objs s" "ws_ctx s' = ws_ctx s" "ws_ptp s' = ws_ptp s" "ws_next s' = ws_next s"
    and cbs: "\<And>b. b \<in> set (ws_cbs s') \<Longrightarrow> work_cb_ok s b" and ws: "\<And>w. w \<in> set (ws_waiters s') \<Longrightarrow> waiter_ok s w"
    and pc: "work_ctl_ok s' (ws_pc s')" "progress_ok s' (in_change (ws_pc s'))"
  shows "work_inv s'"
proof (rule work_invI)
  have hw: "has_work s' h = has_work s h" for h using same by (simp add: has_work_def)
  show "work_cb_ok s' b" if "b \<in> set (ws_cbs s')" for b using cbs [OF that] by (rule work_cb_ok_frame) (simp add: hw)
  show "waiter_ok s' w" if "w \<in> set (ws_waiters s')" for w using ws [OF that] same by (simp add: waiter_ok_def)
  show "has_work s' h" if "ws_ptp s' h \<noteq> None" for h using that work_invD(2) [OF inv, of h] hw same by simp
  show "work_ok s' x ob" if "ws_objs s' x = Some ob" for x ob
    using that work_invD(1) [OF inv, of x ob] same work_ok_cong [of s' s] by simp
qed (use work_invD(3) [OF inv] same pc in simp_all)

lemma work_ctl_ok_cong:
  assumes "work_ctl_ok s pc" and "ws_objs s' = ws_objs s" "ws_ptp s' = ws_ptp s"
    and "\<And>b h. b \<in> set (ws_cbs s') \<Longrightarrow> cb_work b = Some h \<Longrightarrow> \<exists>b0\<in>set (ws_cbs s). cb_work b0 = Some h"
  shows "work_ctl_ok s' pc"
  using assms by (cases pc) (fastforce simp: idle_work_def)+

lemma progress_ok_cong:
  assumes "progress_ok s z" and "ws_objs s' = ws_objs s" "ws_ptp s' = ws_ptp s"
    and "\<And>b h. b \<in> set (ws_cbs s) \<Longrightarrow> cb_work b = Some h \<Longrightarrow> \<exists>b0\<in>set (ws_cbs s'). cb_work b0 = Some h"
  shows "progress_ok s' z"
proof -
  have "will_complete s' h" if "will_complete s h" for h
    using that assms(3,4) unfolding will_complete_def by metis
  then show ?thesis using assms(1,2) unfolding progress_ok_def by metis
qed

lemma inv_pc:
  assumes inv: "work_inv s" and pc: "work_ctl_ok s pc" "progress_ok s (in_change pc)"
  shows "work_inv (s\<lparr>ws_pc := pc\<rparr>)"
proof (rule work_inv_rest [OF inv])
  have "work_ctl_ok (s\<lparr>ws_pc := pc\<rparr>) pc" using pc(1) by (rule work_ctl_ok_cong) auto
  then show "work_ctl_ok (s\<lparr>ws_pc := pc\<rparr>) (ws_pc (s\<lparr>ws_pc := pc\<rparr>))" by simp
  have "progress_ok (s\<lparr>ws_pc := pc\<rparr>) (in_change pc)" using pc(2) by (rule progress_ok_cong) auto
  then show "progress_ok (s\<lparr>ws_pc := pc\<rparr>) (in_change (ws_pc (s\<lparr>ws_pc := pc\<rparr>)))" by simp
qed (use work_invD(4,5) [OF inv] in simp_all)

lemma inv_waiters:
  assumes inv: "work_inv s" and ws: "\<And>w. w \<in> set ws \<Longrightarrow> waiter_ok s w"
  shows "work_inv (s\<lparr>ws_waiters := ws\<rparr>)" (is "work_inv ?s")
proof (rule work_inv_rest [OF inv])
  have "work_ctl_ok ?s (ws_pc s)" using work_invD(6) [OF inv] by (rule work_ctl_ok_cong) auto
  then show "work_ctl_ok ?s (ws_pc ?s)" by simp
  have "progress_ok ?s (in_change (ws_pc s))" using work_invD(7) [OF inv] by (rule progress_ok_cong) auto
  then show "progress_ok ?s (in_change (ws_pc ?s))" by simp
qed (use work_invD(4) [OF inv] ws in simp_all)

lemma inv_wait_step:
  assumes inv: "work_inv s" and st: "work_wait_step i timed_out s = Some s'"
  shows "work_inv s'"
proof -
  have i: "i < length (ws_waiters s)" using st by (auto split: if_splits)
  then have old: "waiter_ok s (ws_waiters s ! i)" using work_invD(5) [OF inv] by simp
  obtain x w where xw: "ws_waiters s ! i = (x, w)" by (cases "ws_waiters s ! i")
  have "\<exists>w'. s' = s\<lparr>ws_waiters := (ws_waiters s)[i := (x, w')]\<rparr> \<and> waiter_ok s (x, w')"
  proof (cases w)
    case (WT_Test ms)
    then obtain ob where ob: "ws_objs s x = Some ob"
      "s' = s\<lparr>ws_waiters := (ws_waiters s)[i := (x, if wo_complete ob then WT_Returned else WT_Asleep ms)]\<rparr>"
      using st i xw by auto
    then show ?thesis
      by (intro exI [of _ "if wo_complete ob then WT_Returned else WT_Asleep ms"]) (auto simp: waiter_ok_def)
  qed (use st i xw old in \<open>auto simp: waiter_ok_def split: if_splits\<close>)
  then obtain w' where s': "s' = s\<lparr>ws_waiters := (ws_waiters s)[i := (x, w')]\<rparr>" "waiter_ok s (x, w')" by blast
  show ?thesis
    unfolding s'(1) by (rule inv_waiters [OF inv])
      (use s'(2) work_invD(5) [OF inv] in \<open>metis insertE set_update_subset_insert subsetD\<close>)
qed

text \<open>\<open>complete\<close> on the object \<open>x\<close>, with new callbacks and the next program point.\<close>

lemma inv_complete:
  assumes inv: "work_inv s" and x: "ws_objs s x = Some ob"
    and cbs: "set bs \<subseteq> set (ws_cbs s)" "\<And>b h. b \<in> set (ws_cbs s) \<Longrightarrow> b \<notin> set bs \<Longrightarrow> cb_work b = Some h \<Longrightarrow> wo_work ob = Some h"
    and pc: "work_ctl_ok s pc" "progress_ok s (in_change pc) \<or> progress_ok s (Some x)"
  shows "work_inv ((complete x ob s)\<lparr>ws_cbs := bs, ws_pc := pc\<rparr>)" (is "work_inv ?s")
proof (rule work_invI)
  have s: "ws_objs ?s = (ws_objs s)(x \<mapsto> ob\<lparr>wo_complete := True\<rparr>)" "ws_ctx ?s = ws_ctx s" "ws_ptp ?s = ws_ptp s"
    "ws_next ?s = ws_next s" "ws_pc ?s = pc" "ws_cbs ?s = bs" "ws_waiters ?s = wake_waiters x (ws_waiters s)"
    by (simp_all add: complete_def)
  have hw: "has_work ?s h = has_work s h" for h by (rule has_work_upd [OF x s(1)]) simp
  show "work_ok ?s y ob'" if "ws_objs ?s y = Some ob'" for y ob'
    using that work_invD(1) [OF inv] x by (auto simp: s work_ok_def split: if_splits)
  show "has_work ?s h" if "ws_ptp ?s h \<noteq> None" for h using that work_invD(2) [OF inv, of h] by (simp add: hw s)
  show "ws_ctx ?s n = None \<and> ws_ptp ?s n = None" if "ws_next ?s \<le> n" for n
    using that work_invD(3) [OF inv, of n] by (simp add: s)
  show "work_cb_ok ?s b" if "b \<in> set (ws_cbs ?s)" for b
  proof -
    have "work_cb_ok s b" using that cbs(1) work_invD(4) [OF inv, of b] by (auto simp: s)
    then show ?thesis by (rule work_cb_ok_frame) (simp add: hw)
  qed
  show "waiter_ok ?s w" if "w \<in> set (ws_waiters ?s)" for w
    using that by (intro waiter_ok_complete [OF x work_invD(5) [OF inv] s(1)]) (simp_all add: s)
  have ex: "\<exists>ob'. ws_objs ?s y = Some ob' \<and> wo_work ob' = wo_work ob1" if "ws_objs s y = Some ob1" for y ob1
    using that x by (auto simp: s)
  have idle: "idle_work ?s h = idle_work s h" for h by (simp add: idle_work_def s)
  have no: "\<forall>b\<in>set (ws_cbs ?s). cb_work b \<noteq> Some h" if "\<forall>b\<in>set (ws_cbs s). cb_work b \<noteq> Some h" for h
    using that cbs(1) by (auto simp: s)
  have "work_ctl_ok ?s pc"
    using pc(1)
  proof (cases pc)
    case (WC_Close y)
    with pc(1) obtain ob1 h where h: "ws_objs s y = Some ob1" "wo_work ob1 = Some h" "idle_work s h"
      "\<forall>b\<in>set (ws_cbs s). cb_work b \<noteq> Some h" by auto
    have "\<exists>ob'. ws_objs ?s y = Some ob' \<and> wo_work ob' = Some h" using ex [OF h(1)] h(2) by simp
    moreover have "idle_work ?s h" "\<forall>b\<in>set (ws_cbs ?s). cb_work b \<noteq> Some h" using idle h(3) no [OF h(4)] by blast+
    ultimately show ?thesis unfolding WC_Close work_ctl_ok.simps by blast
  next
    case (WC_Wait y)
    with pc(1) obtain ob1 h where h: "ws_objs s y = Some ob1" "wo_work ob1 = Some h" "idle_work s h" by auto
    have "\<exists>ob'. ws_objs ?s y = Some ob' \<and> wo_work ob' = Some h" using ex [OF h(1)] h(2) by simp
    moreover have "idle_work ?s h" using idle h(3) by blast
    ultimately show ?thesis unfolding WC_Wait work_ctl_ok.simps by blast
  qed (use x in \<open>auto simp: complete_def\<close>)
  then show "work_ctl_ok ?s (ws_pc ?s)" by (simp add: s)
  show "progress_ok ?s (in_change (ws_pc ?s))"
    unfolding progress_ok_def
  proof (intro allI impI)
    fix y ob1 h assume y: "ws_objs ?s y = Some ob1" "wo_work ob1 = Some h" "Some y \<noteq> in_change (ws_pc ?s)"
    show "wo_complete ob1 \<or> will_complete ?s h"
    proof (cases "y = x")
      case False
      with y have y': "ws_objs s y = Some ob1" "Some y \<noteq> in_change pc" by (simp_all add: s)
      have ne: "wo_work ob \<noteq> Some h"
        using context_unique [OF inv y'(1) x] work_context [OF inv y'(1) y(2)] work_context [OF inv x] False by metis
      have "wo_complete ob1 \<or> will_complete s h"
        using pc(2) y y' False unfolding progress_ok_def by blast
      then show ?thesis using ne cbs(2) unfolding will_complete_def s(3,6) by metis
    qed (use y in \<open>auto simp: s\<close>)
  qed
qed

lemma work_inv_begin:
  assumes inv: "work_inv s" and st: "work_step (W_Begin h) s = Some s'"
  shows "work_inv s'"
proof -
  from st obtain p where p: "ws_ptp s h = Some p" "0 < pw_pending p" by (auto split: option.splits if_splits)
  have own: "has_work s h" using work_invD(2) [OF inv, of h] p by simp
  then have c: "pw_ctx p = h" using work_invD(1) [OF inv] p by (fastforce simp: has_work_def work_ok_def)
  have s: "ws_objs s' = ws_objs s" "ws_ctx s' = ws_ctx s" "ws_ptp s' = (ws_ptp s)(h \<mapsto> p\<lparr>pw_pending := pw_pending p - 1\<rparr>)"
    "ws_next s' = ws_next s" "ws_pc s' = ws_pc s" "ws_cbs s' = ws_cbs s @ [CB_Enter h h]" "ws_waiters s' = ws_waiters s"
    using st p c by auto
  have hw: "has_work s' g = has_work s g" for g by (simp add: has_work_def s)
  have idle: "idle_work s' g \<and> g \<noteq> h" if "idle_work s g" for g using that p by (auto simp: idle_work_def s)
  show ?thesis
  proof (rule work_invI)
    show "work_ok s' x ob" if "ws_objs s' x = Some ob" for x ob
      using that work_invD(1) [OF inv, of x ob] c by (auto simp: s work_ok_def)
    show "has_work s' g" if "ws_ptp s' g \<noteq> None" for g
      using that own work_invD(2) [OF inv, of g] by (auto simp: hw s split: if_splits)
    show "ws_ctx s' n = None \<and> ws_ptp s' n = None" if "ws_next s' \<le> n" for n
      using that work_invD(3) [OF inv, of n] p by (auto simp: s)
    show "work_cb_ok s' b" if "b \<in> set (ws_cbs s')" for b
      using that work_invD(4) [OF inv, of b] own by (auto simp: s work_cb_ok_def hw)
    show "waiter_ok s' w" if "w \<in> set (ws_waiters s')" for w
      using that work_invD(5) [OF inv, of w] by (simp add: s waiter_ok_def)
    show "work_ctl_ok s' (ws_pc s')"
      using work_invD(6) [OF inv] idle by (cases "ws_pc s") (fastforce simp: s(1,5,6))+
    have "will_complete s' g" if "will_complete s g" for g
      using that by (cases "g = h") (auto simp: will_complete_def s)
    then show "progress_ok s' (in_change (ws_pc s'))"
      using work_invD(7) [OF inv] unfolding progress_ok_def s(1,5) by blast
  qed
qed

text \<open>A callback goes on inside its context, or completes its object.\<close>

lemma inv_cb_next:
  assumes inv: "work_inv s" and i: "i < length (ws_cbs s)" and b': "work_cb_ok s b'" "cb_work b' = cb_work (ws_cbs s ! i)"
  shows "work_inv (s\<lparr>ws_cbs := (ws_cbs s)[i := b']\<rparr>)" (is "work_inv ?s")
proof (rule work_inv_rest [OF inv])
  have new: "b \<in> set (ws_cbs s) \<or> b = b'" if "b \<in> set (ws_cbs ?s)" for b
    using that set_update_subset_insert by fastforce
  show "work_cb_ok s b" if "b \<in> set (ws_cbs ?s)" for b using new [OF that] b'(1) work_invD(4) [OF inv] by blast
  have sub: "\<exists>b0\<in>set (ws_cbs s). cb_work b0 = cb_work b" if "b \<in> set (ws_cbs ?s)" for b
    using new [OF that] b'(2) i nth_mem by metis
  have "work_ctl_ok ?s (ws_pc s)"
    using work_invD(6) [OF inv] by (rule work_ctl_ok_cong) (simp, simp, use sub in metis)
  then show "work_ctl_ok ?s (ws_pc ?s)" by simp
  have sup: "\<exists>b0\<in>set (ws_cbs ?s). cb_work b0 = cb_work b" if "b \<in> set (ws_cbs s)" for b
  proof -
    obtain j where j: "j < length (ws_cbs s)" "ws_cbs s ! j = b" using \<open>b \<in> set (ws_cbs s)\<close> by (auto simp: in_set_conv_nth)
    then have "(ws_cbs s)[i := b'] ! j \<in> set ((ws_cbs s)[i := b'])" by (intro nth_mem) simp
    moreover have "cb_work ((ws_cbs s)[i := b'] ! j) = cb_work b" using j i b'(2) by (cases "j = i") auto
    ultimately show ?thesis by auto
  qed
  have "progress_ok ?s (in_change (ws_pc s))"
    using work_invD(7) [OF inv] by (rule progress_ok_cong) (simp, simp, use sup in metis)
  then show "progress_ok ?s (in_change (ws_pc ?s))" by simp
qed (use work_invD(5) [OF inv] in simp_all)

lemma inv_work_cb:
  assumes inv: "work_inv s" and st: "work_cb_step i s = Some s'"
  shows "work_inv s'"
proof -
  let ?b = "ws_cbs s ! i"
  have i: "i < length (ws_cbs s)" using st by (auto split: if_splits)
  then have b: "work_cb_ok s ?b" using work_invD(4) [OF inv] by simp
  then obtain h where h: "cb_work ?b = Some h" "cb_ctx ?b = Some h" "has_work s h" unfolding work_cb_ok_def by blast
  then obtain x ob where x: "ws_objs s x = Some ob" "wo_work ob = Some h" unfolding has_work_def by blast
  then obtain cx where c: "ws_ctx s h = Some cx" "wc_self cx = x" using work_invD(1) [OF inv x(1)] by (auto simp: work_ok_def)
  show ?thesis
  proof (cases "?b = CB_Complete h h")
    case True
    let ?bs = "take i (ws_cbs s) @ drop (Suc i) (ws_cbs s)"
    have "s' = (complete x ob s)\<lparr>ws_cbs := ?bs\<rparr>" using st i True c x by simp
    also have "\<dots> = (complete x ob s)\<lparr>ws_cbs := ?bs, ws_pc := ws_pc s\<rparr>" by (simp add: complete_def put_work_def)
    also have "work_inv \<dots>"
    proof (rule inv_complete [OF inv x(1)])
      show "set ?bs \<subseteq> set (ws_cbs s)" by (auto dest: in_set_takeD in_set_dropD)
      show "wo_work ob = Some g" if "b0 \<in> set (ws_cbs s)" "b0 \<notin> set ?bs" "cb_work b0 = Some g" for b0 g
      proof -
        have "ws_cbs s = take i (ws_cbs s) @ ?b # drop (Suc i) (ws_cbs s)" by (rule id_take_nth_drop [OF i])
        then have "b0 = ?b" using that(1,2) by (metis Un_iff insert_iff list.simps(15) set_append)
        with that(3) h x show ?thesis by simp
      qed
    qed (use work_invD(6,7) [OF inv] in auto)
    finally show ?thesis .
  next
    case False
    then obtain b' where "s' = s\<lparr>ws_cbs := (ws_cbs s)[i := b']\<rparr>" "cb_work b' = cb_work ?b" "cb_ctx b' = cb_ctx ?b"
      using st i h c by (cases ?b) auto
    moreover from this b have "work_cb_ok s b'" by (simp add: work_cb_ok_def)
    ultimately show ?thesis using inv_cb_next [OF inv i] by simp
  qed
qed

text \<open>The calls, and the statements of \<open>Submit\<close> and \<open>Cancel\<close>.\<close>

lemma inv_objs:
  assumes inv: "work_inv s" and pc: "ws_pc s = WC_Idle"
    and s': "ws_ctx s' = ws_ctx s" "ws_ptp s' = ws_ptp s" "ws_next s' = ws_next s" "ws_pc s' = WC_Idle"
      "ws_cbs s' = ws_cbs s" "ws_waiters s' = ws_waiters s"
    and old: "\<And>y ob. ws_objs s y = Some ob \<Longrightarrow> y \<noteq> x \<Longrightarrow> ws_objs s' y = Some ob"
    and x: "Option.bind (ws_objs s x) wo_work = None"
    and w: "\<And>w. w \<in> set (ws_waiters s) \<Longrightarrow> fst w = x \<Longrightarrow> \<not> in_wait (snd w)"
    and new: "\<And>y ob. ws_objs s' y = Some ob \<Longrightarrow> ws_objs s y = Some ob \<or> ob = work_new"
  shows "work_inv s'"
proof (rule work_invI)
  have hw: "has_work s' h" if h: "has_work s h" for h
  proof -
    obtain y ob where y: "ws_objs s y = Some ob" "wo_work ob = Some h" using h by (auto simp: has_work_def)
    with x have "y \<noteq> x" by auto
    with old y show ?thesis by (auto simp: has_work_def)
  qed
  show "work_ok s' y ob" if "ws_objs s' y = Some ob" for y ob
    using new [OF that] work_invD(1) [OF inv, of y ob] s' by (auto simp: work_ok_def work_new_def)
  show "has_work s' h" if "ws_ptp s' h \<noteq> None" for h using that hw work_invD(2) [OF inv, of h] s' by simp
  show "work_cb_ok s' b" if "b \<in> set (ws_cbs s')" for b
    using work_invD(4) [OF inv, of b] that s' by (intro work_cb_ok_frame [of s b s']) (simp_all add: hw)
  show "waiter_ok s' v" if "v \<in> set (ws_waiters s')" for v
  proof -
    have "waiter_ok s v" using that work_invD(5) [OF inv, of v] s' by simp
    moreover have "ws_objs s' (fst v) = ws_objs s (fst v) \<or> \<not> in_wait (snd v)"
      if "ws_objs s (fst v) \<noteq> None"
      using that w [of v] \<open>v \<in> set (ws_waiters s')\<close> s' old by fastforce
    ultimately show ?thesis by (cases v; cases "snd v") (auto simp: waiter_ok_def)
  qed
  have wc: "will_complete s' h = will_complete s h" for h by (simp add: will_complete_def s')
  show "progress_ok s' (in_change (ws_pc s'))"
    unfolding progress_ok_def
  proof (intro allI impI)
    fix y ob h assume y: "ws_objs s' y = Some ob" "wo_work ob = Some h"
    then have "ws_objs s y = Some ob" using new [OF y(1)] by (auto simp: work_new_def)
    then show "wo_complete ob \<or> will_complete s' h"
      using work_invD(7) [OF inv] y(2) pc unfolding progress_ok_def wc by simp
  qed
qed (use work_invD(3) [OF inv] s' in simp_all)

lemma inv_work_call:
  assumes inv: "work_inv s" and st: "safe_step (W_Call c) s = Some s'"
  shows "work_inv s'"
proof -
  let ?s = "s\<lparr>ws_pc := WC_Idle\<rparr>"
  have d: "disciplined (W_Call c) s" and nc: "\<not> calling (ws_pc s)" and c: "work_call_step c ?s = Some s'"
    using st by (auto simp: safe_step_def split: if_splits)
  have "in_change (ws_pc s) = None" using nc by (cases "ws_pc s") auto
  then have p: "progress_ok s None" using work_invD(7) [OF inv] by simp
  have idle: "work_inv ?s" using p by (intro inv_pc [OF inv]) simp_all
  show ?thesis
  proof (cases c)
    case (Work_Construct x)
    then have x: "ws_objs s x = None" "s' = put_work x work_new ?s" using c by (auto split: if_splits)
    show ?thesis
    proof (rule inv_objs [OF idle])
      show "\<not> in_wait (snd w)" if "w \<in> set (ws_waiters ?s)" "fst w = x" for w
        using that x work_invD(5) [OF inv, of w] by (auto simp: waiter_ok_def split: prod.splits)
    qed (use x in \<open>auto split: if_splits\<close>)
  next
    case (Work_Submit x f)
    then have "ws_objs s x \<noteq> None" "s' = s\<lparr>ws_pc := WC_Submit x f\<rparr>" using c by (auto split: if_splits)
    then show ?thesis using inv_pc [OF inv, of "WC_Submit x f"] p by simp
  next
    case (Work_Cancel x)
    then have "ws_objs s x \<noteq> None" "s' = s\<lparr>ws_pc := WC_Cancel x\<rparr>" using c by (auto split: if_splits)
    then show ?thesis using inv_pc [OF inv, of "WC_Cancel x"] p by simp
  next
    case (Work_Destroy x)
    with c d obtain ob where x: "ws_objs s x = Some ob" "wo_work ob = None" "s' = work_destroy x ob ?s"
      by auto
    have w: "\<not> in_wait (snd w)" if "w \<in> set (ws_waiters s)" "fst w = x" for w
      using that d Work_Destroy by (fastforce simp: list_all_iff)
    have "wo_context ob = None" using x work_invD(1) [OF inv, of x ob] by (simp add: work_ok_def)
    then have "s' = ?s\<lparr>ws_objs := (ws_objs s)(x := None)\<rparr>"
      using x by (simp add: work_destroy_def drop_ctx_def close_work_def)
    then show ?thesis by (intro inv_objs [OF idle, of s' x]) (use x w in \<open>auto split: if_splits\<close>)
  qed (use d in auto)
qed

lemma work_inv_create:
  assumes inv: "work_inv s" and pc: "ws_pc s = WC_Create x f" and x: "ws_objs s x = Some ob"
  shows "work_inv (submit_create created x f ob s)" (is "work_inv ?s")
proof -
  let ?n = "ws_next s"
  have none: "wo_work ob = None" using work_invD(6) [OF inv] pc x by auto
  with work_invD(1) [OF inv x] have ctx: "wo_context ob = None" by (simp add: work_ok_def)
  have prog: "progress_ok s None" using work_invD(7) [OF inv] pc by simp
  have fresh: "ws_ctx s ?n = None" "ws_ptp s ?n = None" using work_invD(3) [OF inv, of ?n] by simp_all
  define ob' where "ob' = (if created then ob\<lparr>wo_work := Some ?n, wo_context := Some ?n, wo_complete := False\<rparr>
    else ob\<lparr>wo_work := None, wo_context := None, wo_complete := False\<rparr>)"
  have s: "ws_objs ?s = (ws_objs s)(x \<mapsto> ob')" "ws_next ?s = Suc ?n"
    "ws_ctx ?s = (if created then (ws_ctx s)(?n \<mapsto> \<lparr>wc_work = f, wc_self = x\<rparr>) else ws_ctx s)"
    "ws_ptp ?s = (if created then (ws_ptp s)(?n \<mapsto> \<lparr>pw_ctx = ?n, pw_pending = 0\<rparr>) else ws_ptp s)"
    "ws_pc ?s = (if created then WC_Post x else WC_Threw ''CreateThreadpoolWork failed'')"
    "ws_cbs ?s = ws_cbs s" "ws_waiters ?s = ws_waiters s"
    using fresh ctx by (auto simp: submit_create_def Let_def drop_ctx_def ob'_def fun_upd_idem)
  have hw: "has_work ?s h" if h: "has_work s h" for h
  proof -
    obtain y ob1 where y: "ws_objs s y = Some ob1" "wo_work ob1 = Some h" using h by (auto simp: has_work_def)
    with x none have "y \<noteq> x" by auto
    with y show ?thesis by (auto simp: has_work_def s)
  qed
  have ne: "h \<noteq> ?n" if "has_work s h" for h
    using that fresh(2) work_invD(1) [OF inv] by (fastforce simp: has_work_def work_ok_def)
  show ?thesis
  proof (rule work_invI)
    show "work_ok ?s y ob1" if "ws_objs ?s y = Some ob1" for y ob1
    proof (cases "y = x")
      case True
      with that have "ob1 = ob'" by (simp add: s)
      then show ?thesis using True by (auto simp: work_ok_def s ob'_def)
    next
      case False
      with that have "work_ok s y ob1" using work_invD(1) [OF inv, of y ob1] by (simp add: s)
      then show ?thesis using fresh by (auto simp: work_ok_def s)
    qed
    show "has_work ?s h" if "ws_ptp ?s h \<noteq> None" for h
    proof (cases "created \<and> h = ?n")
      case True
      have "ws_objs ?s x = Some ob'" by (simp add: s)
      moreover have "wo_work ob' = Some h" using True by (simp add: ob'_def)
      ultimately show ?thesis unfolding has_work_def by blast
    next
      case False
      then have "ws_ptp s h \<noteq> None" using that by (auto simp: s split: if_splits)
      then show ?thesis using hw work_invD(2) [OF inv] by blast
    qed
    show "ws_ctx ?s n = None \<and> ws_ptp ?s n = None" if "ws_next ?s \<le> n" for n
      using that work_invD(3) [OF inv, of n] by (auto simp: s)
    show "work_cb_ok ?s b" if "b \<in> set (ws_cbs ?s)" for b
      using that work_invD(4) [OF inv, of b] by (intro work_cb_ok_frame [of s b ?s]) (simp_all add: s hw)
    show "waiter_ok ?s w" if "w \<in> set (ws_waiters ?s)" for w
      using that work_invD(5) [OF inv, of w] by (cases w) (auto simp: waiter_ok_def s ob'_def split: if_splits)
    have "ws_objs ?s x = Some ob'" by (simp add: s)
    then show "work_ctl_ok ?s (ws_pc ?s)" by (auto simp: s(5) ob'_def)
    show "progress_ok ?s (in_change (ws_pc ?s))"
      unfolding progress_ok_def
    proof (intro allI impI)
      fix y ob1 h assume y: "ws_objs ?s y = Some ob1" "wo_work ob1 = Some h" "Some y \<noteq> in_change (ws_pc ?s)"
      have "y \<noteq> x" using y by (auto simp: s ob'_def split: if_splits)
      then have y': "ws_objs s y = Some ob1" using y by (simp add: s)
      then have "h \<noteq> ?n" using ne [of h] y(2) by (auto simp: has_work_def)
      then have "will_complete ?s h = will_complete s h" by (auto simp: will_complete_def s)
      then show "wo_complete ob1 \<or> will_complete ?s h" using prog y' y(2) unfolding progress_ok_def by blast
    qed
  qed
qed

text \<open>A change of the number of pending callbacks of the work of \<open>x\<close>.\<close>

lemma inv_pending:
  assumes inv: "work_inv s" and x: "ws_objs s x = Some ob" "wo_work ob = Some h"
    and s': "s' = (set_pending f (wo_work ob) s)\<lparr>ws_pc := pc\<rparr>"
    and ctl: "work_ctl_ok s' pc" and z: "in_change pc = Some x \<or> will_complete s' h"
    and prog: "progress_ok s (Some x)"
  shows "work_inv s'"
proof -
  obtain p where p: "ws_ptp s h = Some p" "pw_ctx p = h" using work_invD(1) [OF inv x(1)] x(2) by (auto simp: work_ok_def)
  have s: "ws_objs s' = ws_objs s" "ws_ctx s' = ws_ctx s" "ws_ptp s' = (ws_ptp s)(h \<mapsto> pw_pending_update f p)"
    "ws_next s' = ws_next s" "ws_pc s' = pc" "ws_cbs s' = ws_cbs s" "ws_waiters s' = ws_waiters s"
    using x p by (simp_all add: s' set_pending_def)
  have hw: "has_work s' g = has_work s g" for g by (simp add: has_work_def s)
  show ?thesis
  proof (rule work_invI)
    show "work_ok s' y ob1" if "ws_objs s' y = Some ob1" for y ob1
      using that work_invD(1) [OF inv, of y ob1] p by (auto simp: s work_ok_def)
    show "has_work s' g" if "ws_ptp s' g \<noteq> None" for g
      using that p work_invD(2) [OF inv, of g] by (auto simp: hw s split: if_splits)
    show "ws_ctx s' n = None \<and> ws_ptp s' n = None" if "ws_next s' \<le> n" for n
      using that work_invD(3) [OF inv, of n] p by (auto simp: s)
    show "work_cb_ok s' b" if "b \<in> set (ws_cbs s')" for b
      using that work_invD(4) [OF inv, of b] by (simp add: s work_cb_ok_def hw)
    show "waiter_ok s' w" if "w \<in> set (ws_waiters s')" for w
      using that work_invD(5) [OF inv, of w] by (simp add: s waiter_ok_def)
    show "progress_ok s' (in_change (ws_pc s'))"
      unfolding progress_ok_def
    proof (intro allI impI)
      fix y ob1 g assume y: "ws_objs s' y = Some ob1" "wo_work ob1 = Some g" "Some y \<noteq> in_change (ws_pc s')"
      show "wo_complete ob1 \<or> will_complete s' g"
      proof (cases "y = x")
        case True
        with y x z show ?thesis by (auto simp: s)
      next
        case False
        with y have y': "ws_objs s y = Some ob1" by (simp add: s)
        then have "g \<noteq> h"
          using context_unique [OF inv y' x(1)] work_context [OF inv y' y(2)] work_context [OF inv x] False by metis
        then have "will_complete s' g = will_complete s g" by (simp add: will_complete_def s)
        then show ?thesis using prog y' y(2) False unfolding progress_ok_def by blast
      qed
    qed
  qed (use ctl in \<open>simp add: s(5)\<close>)
qed

lemma inv_cancel_close:
  assumes inv: "work_inv s" and pc: "ws_pc s = WC_Close x" and x: "ws_objs s x = Some ob"
  shows "work_inv (cancel_close x ob s)" (is "work_inv ?s")
proof -
  obtain h where h: "wo_work ob = Some h" "idle_work s h" "\<And>b. b \<in> set (ws_cbs s) \<Longrightarrow> cb_work b \<noteq> Some h"
    using work_invD(6) [OF inv] pc x by auto
  have c: "wo_context ob = Some h" by (rule work_context [OF inv x h(1)])
  have s: "ws_objs ?s = (ws_objs s)(x \<mapsto> ob\<lparr>wo_work := None, wo_context := None\<rparr>)" "ws_ctx ?s = (ws_ctx s)(h := None)"
    "ws_ptp ?s = (ws_ptp s)(h := None)" "ws_next ?s = ws_next s" "ws_pc ?s = WC_Done x" "ws_cbs ?s = ws_cbs s"
    "ws_waiters ?s = ws_waiters s"
    using h c by (auto simp: cancel_close_def close_work_def drop_ctx_def idle_work_def)
  have other: "wo_context ob1 \<noteq> Some h" if "ws_objs s y = Some ob1" "y \<noteq> x" for y ob1
    using context_unique [OF inv that(1) x] c that(2) by metis
  have hw: "has_work ?s g" if g: "has_work s g" "g \<noteq> h" for g
  proof -
    obtain y ob1 where y: "ws_objs s y = Some ob1" "wo_work ob1 = Some g" using g by (auto simp: has_work_def)
    with x h g(2) have "y \<noteq> x" by auto
    with y show ?thesis by (auto simp: has_work_def s)
  qed
  show ?thesis
  proof (rule work_invI)
    show "work_ok ?s y ob1" if "ws_objs ?s y = Some ob1" for y ob1
    proof (cases "y = x")
      case False
      with that have y: "ws_objs s y = Some ob1" by (simp add: s)
      from work_invD(1) [OF inv y] other [OF y False] work_context [OF inv y] show ?thesis by (auto simp: work_ok_def s)
    qed (use that in \<open>auto simp: work_ok_def s\<close>)
    show "has_work ?s g" if "ws_ptp ?s g \<noteq> None" for g
      using that hw [of g] work_invD(2) [OF inv, of g] by (auto simp: s split: if_splits)
    show "ws_ctx ?s n = None \<and> ws_ptp ?s n = None" if "ws_next ?s \<le> n" for n
      using that work_invD(3) [OF inv, of n] by (simp add: s)
    show "work_cb_ok ?s b" if "b \<in> set (ws_cbs ?s)" for b
      using that work_invD(4) [OF inv, of b] h(3) [of b] hw by (intro work_cb_ok_frame [of s b ?s]) (auto simp: s)
    show "waiter_ok ?s w" if "w \<in> set (ws_waiters ?s)" for w
      using that work_invD(5) [OF inv, of w] x by (cases w) (auto simp: waiter_ok_def s split: if_splits)
    show "work_ctl_ok ?s (ws_pc ?s)" by (simp add: s)
    show "progress_ok ?s (in_change (ws_pc ?s))"
      unfolding progress_ok_def
    proof (intro allI impI)
      fix y ob1 g assume y: "ws_objs ?s y = Some ob1" "wo_work ob1 = Some g"
      then have y': "y \<noteq> x" "ws_objs s y = Some ob1" by (auto simp: s split: if_splits)
      then have "g \<noteq> h" using other [of y ob1] work_context [OF inv y'(2) y(2)] by auto
      then have "will_complete ?s g = will_complete s g" by (simp add: will_complete_def s)
      then show "wo_complete ob1 \<or> will_complete ?s g"
        using work_invD(7) [OF inv] pc y y' unfolding progress_ok_def by simp
    qed
  qed
qed

lemma progress_ok_weaken: "progress_ok s None \<Longrightarrow> progress_ok s z"
  by (auto simp: progress_ok_def)

lemma inv_work_ctl:
  assumes inv: "work_inv s" and st: "work_ctl created (ws_pc s) s = Some s'"
  shows "work_inv s'"
proof (cases "ws_pc s")
  case (WC_Submit x f)
  then obtain ob where x: "ws_objs s x = Some ob" "s' = submit_test x f ob s" using st by auto
  have p: "progress_ok s None" using work_invD(7) [OF inv] WC_Submit by simp
  show ?thesis
    using inv_pc [OF inv, of "WC_Create x f"] inv_pc [OF inv, of "WC_Threw ''Work already submitted''"] p x
    by (simp add: submit_test_def)
next
  case (WC_Create x f)
  then show ?thesis using st work_inv_create [OF inv WC_Create] by auto
next
  case (WC_Post x)
  then obtain ob h where x: "ws_objs s x = Some ob" "wo_work ob = Some h" "s' = submit_post x ob s"
    using st work_invD(6) [OF inv] by auto
  obtain p where p: "ws_ptp s h = Some p" using work_invD(1) [OF inv x(1)] x(2) by (auto simp: work_ok_def)
  show ?thesis
  proof (rule inv_pending [OF inv x(1,2)])
    show "s' = (set_pending Suc (wo_work ob) s)\<lparr>ws_pc := WC_Idle\<rparr>" using x by (simp add: submit_post_def)
    show "in_change WC_Idle = Some x \<or> will_complete s' h"
      using x p by (simp add: submit_post_def set_pending_def will_complete_def)
  qed (use work_invD(7) [OF inv] WC_Post in simp_all)
next
  case (WC_Cancel x)
  then obtain ob where x: "ws_objs s x = Some ob" "s' = cancel_test x ob s" using st by auto
  have prog: "progress_ok s None" using work_invD(7) [OF inv] WC_Cancel by simp
  show ?thesis
  proof (cases "wo_work ob")
    case None
    then show ?thesis using inv_pc [OF inv, of "WC_Done x"] prog x by (simp add: cancel_test_def)
  next
    case (Some h)
    obtain p where p: "ws_ptp s h = Some p" using work_invD(1) [OF inv x(1)] Some by (auto simp: work_ok_def)
    show ?thesis
    proof (rule inv_pending [OF inv x(1) Some])
      show "s' = (set_pending (\<lambda>_. 0) (wo_work ob) s)\<lparr>ws_pc := WC_Wait x\<rparr>" using x Some by (simp add: cancel_test_def)
      then show "work_ctl_ok s' (WC_Wait x)" using x(1) Some p by (simp add: set_pending_def idle_work_def)
    qed (use prog progress_ok_weaken in simp_all)
  qed
next
  case (WC_Wait x)
  then obtain ob where x: "ws_objs s x = Some ob" "cancel_wait x ob s = Some s'" using st by (auto simp: bind_eq_Some_conv)
  then have s': "s' = s\<lparr>ws_pc := WC_Close x\<rparr>" "\<And>b. b \<in> set (ws_cbs s) \<Longrightarrow> cb_work b = None \<or> cb_work b \<noteq> wo_work ob"
    by (auto simp: cancel_wait_def list_all_iff split: if_splits)
  obtain h where h: "wo_work ob = Some h" "idle_work s h" using work_invD(6) [OF inv] WC_Wait x by auto
  have "\<forall>b\<in>set (ws_cbs s). cb_work b \<noteq> Some h" using s'(2) h(1) by force
  then have "work_ctl_ok s (WC_Close x)" using x(1) h by simp
  moreover have "progress_ok s (in_change (WC_Close x))" using work_invD(7) [OF inv] WC_Wait by simp
  ultimately show ?thesis using inv_pc [OF inv] s'(1) by simp
next
  case (WC_Close x)
  then show ?thesis using st inv_cancel_close [OF inv WC_Close] by auto
next
  case (WC_Done x)
  then obtain ob where x: "ws_objs s x = Some ob" "s' = cancel_done x ob s" using st by auto
  have "s' = (complete x ob s)\<lparr>ws_cbs := ws_cbs s, ws_pc := WC_Idle\<rparr>"
    using x by (simp add: cancel_done_def complete_def put_work_def)
  then show ?thesis
    using inv_complete [OF inv x(1), of "ws_cbs s" WC_Idle] work_invD(7) [OF inv] WC_Done by simp
qed (use st in simp_all)

lemma work_inv_step:
  assumes inv: "work_inv s" and st: "safe_step l s = Some s'"
  shows "work_inv s'"
proof (cases l)
  case (W_Call c)
  then show ?thesis using inv_work_call [OF inv, of c s'] st by simp
next
  case (W_Ctl created)
  then show ?thesis using inv_work_ctl [OF inv, of created s'] st by (simp add: safe_step_def)
next
  case (W_Begin h)
  then show ?thesis using work_inv_begin [OF inv, of h s'] st by (simp add: safe_step_def)
next
  case (W_Cb i)
  then have "work_cb_step i s = Some s'" using st by (simp add: safe_step_def del: work_cb_step.simps)
  then show ?thesis by (rule inv_work_cb [OF inv])
next
  case (W_Enter_Wait x ms)
  then have "ws_objs s x \<noteq> None" "s' = s\<lparr>ws_waiters := ws_waiters s @ [(x, WT_Test ms)]\<rparr>"
    using st by (auto simp: safe_step_def split: if_splits)
  then show ?thesis using inv_waiters [OF inv, of "ws_waiters s @ [(x, WT_Test ms)]"] work_invD(5) [OF inv]
    by (auto simp: waiter_ok_def)
next
  case (W_Waiter i timed_out)
  then have "work_wait_step i timed_out s = Some s'" using st by (simp add: safe_step_def del: work_wait_step.simps)
  then show ?thesis by (rule inv_wait_step [OF inv])
qed

lemma work_inv_init: "work_inv works_init"
  by (auto simp: work_inv_def works_init_def progress_ok_def)

interpretation work_system: inductive_invariant safe_step works_init work_inv
  by unfold_locales (rule work_inv_init, rule work_inv_step)

section \<open>What the class promises\<close>

text \<open>
  C18. In disciplined use, under any schedule: every callback has its context and its object. A
  thread sleeps in \<open>Wait\<close> only while the object exists and is not complete, so no completion and no
  wake is lost; and while an object with a submitted work is not complete, a callback that will
  complete it is submitted or runs.
\<close>

theorem work_completes_waiters:
  assumes "reach safe_step works_init s"
  shows "(\<forall>b\<in>set (ws_cbs s). \<exists>h x ob cx. cb_work b = Some h \<and> ws_objs s x = Some ob \<and> wo_work ob = Some h \<and>
      ws_ctx s h = Some cx \<and> wc_self cx = x) \<and>
    (\<forall>x ms. (x, WT_Asleep ms) \<in> set (ws_waiters s) \<longrightarrow> (\<exists>ob. ws_objs s x = Some ob \<and> \<not> work_IsComplete ob)) \<and>
    (\<not> calling (ws_pc s) \<longrightarrow> (\<forall>x ob h. ws_objs s x = Some ob \<longrightarrow> wo_work ob = Some h \<longrightarrow> \<not> work_IsComplete ob \<longrightarrow>
      (\<exists>p. ws_ptp s h = Some p \<and> 0 < pw_pending p) \<or> (\<exists>b\<in>set (ws_cbs s). cb_work b = Some h)))"
proof (intro conjI)
  note inv = work_system.inv_reach [OF assms]
  show "\<forall>b\<in>set (ws_cbs s). \<exists>h x ob cx. cb_work b = Some h \<and> ws_objs s x = Some ob \<and> wo_work ob = Some h \<and>
      ws_ctx s h = Some cx \<and> wc_self cx = x"
  proof
    fix b assume "b \<in> set (ws_cbs s)"
    then obtain h x ob where h: "cb_work b = Some h" "ws_objs s x = Some ob" "wo_work ob = Some h"
      using work_invD(4) [OF inv] unfolding work_cb_ok_def has_work_def by blast
    with work_invD(1) [OF inv h(2)] show "\<exists>h x ob cx. cb_work b = Some h \<and> ws_objs s x = Some ob \<and>
        wo_work ob = Some h \<and> ws_ctx s h = Some cx \<and> wc_self cx = x"
      unfolding work_ok_def by metis
  qed
  show "\<forall>x ms. (x, WT_Asleep ms) \<in> set (ws_waiters s) \<longrightarrow> (\<exists>ob. ws_objs s x = Some ob \<and> \<not> work_IsComplete ob)"
    using work_invD(5) [OF inv] by (fastforce simp: waiter_ok_def work_IsComplete_def)
  have "\<not> calling (ws_pc s) \<Longrightarrow> progress_ok s None" using work_invD(7) [OF inv] by (cases "ws_pc s") auto
  then show "\<not> calling (ws_pc s) \<longrightarrow> (\<forall>x ob h. ws_objs s x = Some ob \<longrightarrow> wo_work ob = Some h \<longrightarrow> \<not> work_IsComplete ob \<longrightarrow>
      (\<exists>p. ws_ptp s h = Some p \<and> 0 < pw_pending p) \<or> (\<exists>b\<in>set (ws_cbs s). cb_work b = Some h))"
    unfolding progress_ok_def will_complete_def work_IsComplete_def by blast
qed

definition waiting_run :: "work_label list" where
  "waiting_run = [W_Call (Work_Construct 0), W_Call (Work_Submit 0 True), W_Ctl True, W_Ctl True, W_Ctl True,
     W_Enter_Wait 0 NO_TIMEOUT, W_Waiter 0 False, W_Begin 0, W_Cb 0]"

lemma work_completes_waiters_witness:
  "\<exists>s cx ob. run safe_step waiting_run works_init = Some s \<and> ws_cbs s = [CB_Call 0 0] \<and> ws_waiters s = [(0, WT_Asleep NO_TIMEOUT)] \<and>
     ws_ctx s 0 = Some cx \<and> ws_objs s 0 = Some ob \<and> \<not> work_IsComplete ob"
proof -
  obtain s where s: "run safe_step waiting_run works_init = Some s" "ws_cbs s = [CB_Call 0 0]"
    "ws_waiters s = [(0, WT_Asleep NO_TIMEOUT)]"
    by (simp add: waiting_run_def safe_step_def work_run_simps)
  from work_completes_waiters [OF run_reach [OF s(1)]] s show ?thesis by (auto simp del: run.simps)
qed

end
