(* ===== verification/Spec2Isabelle.thy ===== *)
theory Spec2Isabelle
  imports SPSC_Queue Lock_Free_Stack MPMC_System Barrier Latch Once Thread_Class
    Thread_Local RW_Lock Debug Pool_Parallel Pool_Progress Shared_State Future_Void Future_Then Async_Wait Async_Timer Async_Work
begin

text \<open>
  A model of \<open>ezthread\<close>, a C++ library of threads, locks, queues, futures, thread pools and asynchronous
  operations over the Windows API (\<open>src/src/ezthread/\<close>; \<open>src/src/ezthread.hpp\<close> includes all of it). All file
  names below are in that directory.

  PARTS AND HOW THEY INTERACT. At the bottom are wrappers of the system: \<open>core\<close> (exceptions, threads),
  \<open>mutex\<close> (critical sections, kernel mutexes, slim reader/writer locks), \<open>condition\<close> (condition
  variables), \<open>event\<close>, \<open>semaphore\<close>, \<open>tls\<close> and \<open>debug\<close>. \<open>atomic\<close> is lock-free code that needs none of them. \<open>sync\<close>
  (barrier, latch, once, and parallel algorithms), \<open>future\<close> and \<open>pool\<close> are monitors: objects whose methods
  enter a critical section, test, sleep on a condition variable and wake others. \<open>async\<close> runs
  functions on the pool of the system and waits for futures; \<open>sync\<close> and \<open>pool\<close> run the parallel
  algorithms on a \<open>ThreadPool\<close>, whose tasks satisfy promises.

  HOW PROGRAMS ARE MODELLED. A class is a record of its members, an enumeration or a program point a
  datatype, \<open>size_t\<close> a 64-bit word, \<open>DWORD\<close> a 32-bit word, both wrapping as in the code. An exception is a
  value: \<open>Thread_Exn\<close> with message and error code, or \<open>User_Exn\<close> for one of the client. Code whose threads
  interleave is a partial step function over labels (theory \<open>Prelude\<close>): a label names the thread that
  moves and every choice of the environment, a schedule is a list of labels, \<open>reach\<close> is the set of states
  of all schedules, and the locale \<open>inductive_invariant\<close> gives the induction. The number of threads is
  never bounded. Memory is sequentially consistent: each shared access is one step, and memory orders
  and fences have no effect.

  THE THEORIES.

  \<^item> \<open>Prelude\<close>: machine types, exceptions, transition systems, counting and claiming threads, words.

  \<^item> \<open>Ring\<close>, \<open>SPSC_Queue\<close> (\<open>SPSCQueue\<close> of \<open>atomic.hpp\<close>): ring buffers as lists and the interface \<open>bounded_queue\<close>; the
  calls run alone refine a list, and one producer beside one consumer, a shared access at a time,
  keep first-in first-out order.

  \<^item> \<open>Atomic_Ops\<close> (\<open>Atomic\<close>, \<open>SpinLock\<close>): the added operations, and mutual exclusion of the lock.

  \<^item> \<open>Lock_Free_Stack\<close> (\<open>LockFreeStack\<close>): explicit heap of nodes, spurious failures of the weak exchange;
  the operations in the order of their effect are a run of a sequential stack, and no dangling
  pointer is followed. Addresses are never reused, as the code never frees a popped node.

  \<^item> \<open>MPMC_Cells\<close>, \<open>MPMC_Queue\<close>, \<open>MPMC_System\<close> (\<open>MPMCQueue\<close>): the protocol of the sequence numbers over natural
  numbers, the code run alone (its loops are partial functions, shown to return), and any number
  of producers and consumers. Bound: fewer than \<open>2 ^ 63\<close> positions used, where the signed difference of
  the code is exact, and at least two cells; with one cell the queue is wrong (\<open>mpmc_capacity_1\<close>).

  \<^item> \<open>Monitor\<close> (\<open>CriticalSection\<close> of \<open>mutex.cpp\<close>, \<open>ConditionVariable\<close> of \<open>condition.cpp\<close>): the calls of the system are a
  parameter, a record \<open>win_sync\<close> with the documented behaviour \<open>win_sync_ok\<close>; spurious wake-ups, time-outs and
  failures of a sleep are choices of the schedule. A class is a program: a function from program
  point and shared data to the new data and an instruction (go on, enter, leave, sleep, wake,
  finish); the locale \<open>thread_program\<close> proves what every such program keeps from conditions on its
  statements, and \<open>bounded_sections\<close>, from a bound on the statements left inside a critical section, that
  every thread that waits to enter gets in. Two instances of the API, a queueing and a patient one, serve the witnesses.

  \<^item> \<open>Barrier\<close>, \<open>Latch\<close> (\<open>sync.cpp\<close>), \<open>Once\<close> (\<open>sync.hpp\<close>), \<open>Future_Promise\<close> (\<open>future.cpp\<close>), \<open>Pool\<close> (\<open>pool.cpp\<close>): one program each,
  with one statement per step, and an interpretation of \<open>thread_program\<close> with the invariant of the
  class. They state when a call may return, that a promise is satisfied once and read as it was
  set (but for a spurious wake-up in \<open>TryGet\<close>), that each task of a pool runs at most once and in order, what \<open>Stop\<close> guarantees and when it never
  returns, and that no thread sleeps that somebody should have woken. Each is also an instance of
  \<open>bounded_sections\<close>; the property at the end of this theory puts the five together.

  \<^item> \<open>Monitor_View\<close>, \<open>Future_Void\<close> (the specialisations for \<open>void\<close> of \<open>future.cpp\<close>): the locale \<open>program_view\<close> is the
  contract of a program that leaves out statements of another one, and gives the refinement; the
  methods of \<open>Future<void>\<close> and \<open>Promise<void>\<close> are shown to be such a program beside the templates. The values of
  all futures of a model have one type, which may be a sum of the types that a client uses.

  \<^item> \<open>Future_Then\<close> (\<open>Future::Then\<close>): the chain from a call of \<open>Then\<close> over its task to the promise of the new
  future, read off the history: what the task owes, and that it has delivered it when it returns.

  \<^item> \<open>Shared_State\<close> (\<open>future.cpp\<close>): the reference counts behind futures, promises and the tasks of \<open>Then\<close>.

  \<^item> \<open>Parallel\<close> (\<open>ThreadPool::ParallelFor\<close>, and \<open>ForEach\<close>, \<open>Reduce\<close>, \<open>Sort\<close> of \<open>sync.hpp\<close>): the split in \<open>size_t\<close> arithmetic covers every
  index once when the end of the interval plus the number of threads stays below \<open>2 ^ 64\<close>; the reduction
  is the fold; the merge of the sorted chunks is an ordered permutation. \<open>std::sort\<close> is any sorting;
  an insertion sort stands for it.

  \<^item> \<open>Pool_Submit\<close>, \<open>Pool_Parallel\<close>: the composition of the pool with promises and with the split. \<open>task_effects\<close> replays the
  history of a run: each call of \<open>Submit\<close> makes its promise and its task where the pool makes the task,
  and a task is executed where a worker executes it. Every call gets a future of its own, which holds
  the outcome of its function once the task was executed. When \<open>ParallelFor\<close> returns, each index was
  visited once, except those of a chunk after one for which the function threw.

  \<^item> \<open>Pool_Progress\<close>: while a pool is neither paused nor stopped and a worker is in its loop, every queued task
  can still be executed without a further call, by induction on the tasks ahead of it and the
  statements the worker has left.

  \<^item> \<open>Kernel\<close>, \<open>Handle_Classes\<close>, \<open>Thread_Class\<close> (\<open>mutex.cpp\<close>, \<open>event.cpp\<close>, \<open>semaphore.cpp\<close>, \<open>core.cpp\<close>): kernel objects behind
  handles are a parameter \<open>win_kernel\<close> with the contract \<open>win_kernel_ok\<close>, and a table of objects is an instance;
  a wait that would block is \<open>None\<close>. The locale \<open>raii\<close> is the contract of a class that owns a handle, interpreted
  for mutexes, events and semaphores; every open handle has one owner and is closed once. A \<open>Thread\<close>
  closes its handle once: at a join, in its destructor or assignment after its thread has ended, or at \<open>Detach\<close>.

  \<^item> \<open>Thread_Local\<close> (\<open>tls.cpp\<close>), \<open>RW_Lock\<close> (\<open>RWLock\<close> of \<open>mutex.cpp\<close> and the other half of \<open>condition.cpp\<close>): over the storage and the
  locks of the system with the contracts \<open>tls_ok\<close> and \<open>srw_ok\<close>; a refinement of a map, and exclusion.

  \<^item> \<open>Debug\<close> (\<open>debug.cpp\<close>): the deadlock detector, which tracks held locks exactly and never reports anything;
  names of threads and output with the sizes of their buffers; the clocks, over the arithmetic on
  \<open>double\<close> as a parameter.

  \<^item> \<open>Async_Run\<close>, \<open>Async_Timer\<close>, \<open>Async_Work\<close>, \<open>Async_Wait\<close> (\<open>async.hpp\<close>, \<open>async.cpp\<close>): contexts and system objects as
  heaps of allocations; the threads of the pool of the system, the expiry of timers and failures
  to create an object are labels. No callback uses what is gone, nothing of a timer goes on after
  \<open>Stop\<close> or its destructor until it is started again, \<open>Run\<close> delivers within three steps of the
  pool, and completion is never lost; \<open>Timer\<close> and \<open>Work\<close> without moves of live objects, which the lemmas
  on schedules that go wrong show to be broken. \<open>WaitAll\<close> and \<open>WaitAny\<close> are over the futures, the clock and
  \<open>Sleep\<close> as a parameter \<open>wait_api\<close>, since the model of the futures has no time; \<open>WaitAny\<close> is shown to return
  for every time-out that leaves room for one round below \<open>2 ^ 32\<close> milliseconds.

  LIMITS AND FUEL. The step functions need no fuel, as schedules are lists. Loops that run alone and
  may not end are partial functions with a value of \<open>None\<close> for not ending. The setters of a promise,
  run as one step in \<open>Async_Run\<close>, take a fuel that exceeds the number of their statements.

  NOT MODELLED. Weak memory: \<open>MemoryBarrier\<close> and the memory orders have no effect in the model.
  \<open>Thread::Sleep\<close>, \<open>Yield\<close> and \<open>GetHardwareConcurrency\<close> only call the system. \<open>AsyncOperation\<close> is an abstract class that
  nothing implements. The debug macros are preprocessor text. Failures of memory allocation and of
  \<open>std::thread\<close>, and exceptions of copy constructors of the values, do not occur in the model. The
  tests and the umbrella header have no code of the library.
\<close>

section \<open>Nobody is locked out\<close>

text \<open>
  C9. No thread is locked out of a critical section of the library. In every reachable state of a
  barrier, a latch, a once flag, the futures and promises, or a thread pool with its two critical
  sections, a thread that waits to enter one gets it after finitely many steps of the one thread
  that is inside: every critical section is left, whatever the shared data is, and none is entered
  inside another.
\<close>

theorem monitors_lock_nobody_out:
  assumes "win_sync_ok api"
  shows "(\<forall>s t k. reach (bar_step api fmt) (mon_init api (b :: barrier)) s \<longrightarrow> mon_pcs s t = T_Entering () k \<longrightarrow>
      gets_section (bar_step api fmt) s t) \<and>
    (\<forall>s t k. reach (lat_step api fmt) (mon_init api (l :: latch)) s \<longrightarrow> mon_pcs s t = T_Entering () k \<longrightarrow>
      gets_section (lat_step api fmt) s t) \<and>
    (\<forall>s t (k :: 'x once_pc). reach (once_step api) (mon_init api (fl :: once_flag)) s \<longrightarrow> mon_pcs s t = T_Entering () k \<longrightarrow>
      gets_section (once_step api) s t) \<and>
    (\<forall>s t m (k :: ('x, 'a) fut_pc). reach (fut_step api fmt) (mon_init api fs) s \<longrightarrow> mon_pcs s t = T_Entering m k \<longrightarrow>
      gets_section (fut_step api fmt) s t) \<and>
    (\<forall>s t m k. reach (pool_step api) (mon_init api p) s \<longrightarrow> mon_pcs s t = T_Entering m k \<longrightarrow>
      gets_section (pool_step api) s t)"
  by (intro conjI allI impI;
    (erule (1) barrier_sections.can_enter [OF assms] | erule (1) latch_sections.can_enter [OF assms]
      | erule (1) once_sections.can_enter [OF assms] | erule (1) future_sections.can_enter [OF assms]
      | erule (1) pool_sections.can_enter [OF assms]))

text \<open>A worker that waits for the queue of a pool while a client is about to push its task.\<close>

lemma pool_contended:
  "\<exists>s. run (pool_step fifo_sync) [M_Call 2 (PC C_Submit), M_Run 2, M_Run 2, M_Enter 2, M_Call 1 (PW 0 W_Start), M_Run 1, M_Run 1, M_Run 1]
      pool_demo = Some s \<and> mon_pcs s 1 = T_Entering Queue_Mutex (PW 0 W_Empty) \<and> mon_pcs s 2 = T_At (PC (C_Push 0)) \<and>
      pool_step fifo_sync (M_Enter 1) s = None"
  by (simp add: pool_run_simps)

lemma monitors_lock_nobody_out_witness:
  "\<exists>s :: (pool_mutex, pool_pc, pool) fifo_mon. mon_pcs s 1 = T_Entering Queue_Mutex (PW 0 W_Empty) \<and>
     pool_step fifo_sync (M_Enter 1) s = None \<and> gets_section (pool_step fifo_sync) s 1"
proof -
  obtain s where s: "run (pool_step fifo_sync) [M_Call 2 (PC C_Submit), M_Run 2, M_Run 2, M_Enter 2, M_Call 1 (PW 0 W_Start),
      M_Run 1, M_Run 1, M_Run 1] pool_demo = Some s" "mon_pcs s 1 = T_Entering Queue_Mutex (PW 0 W_Empty)"
    "pool_step fifo_sync (M_Enter 1) s = None"
    using pool_contended by blast
  from monitors_lock_nobody_out [OF fifo_sync_ok, THEN conjunct2, THEN conjunct2, THEN conjunct2, THEN conjunct2]
  have "gets_section (pool_step fifo_sync) s 1" using run_reach [OF s(1)] s(2) by blast
  with s(2,3) show ?thesis by blast
qed

end
